(* ===== verification/Prelude.thy ===== *)
theory Prelude
  imports Main "HOL-Library.Word" "HOL-Library.Monad_Syntax"
begin

text \<open>
  What every other theory of the development shares: the outcome type of a C++ call, the
  parts of \<open>std::string\<close> the program uses, the decimal rendering of integers by
  \<open>operator<<\<close>, and the fact collections that carry the component proofs.

  A C++ operation that can fail is a function into \<open>'a result\<close>: \<open>Inr\<close> is a normal
  return, \<open>Inl\<close> says why it did not return.  Undefined behaviour is a failure of its own,
  so that no theorem about a returned value speaks about an execution whose meaning the
  language does not fix.
\<close>

section \<open>Fact collections\<close>

named_theorems result_simps \<open>unfolding of sequential composition of C++ calls\<close>
named_theorems str_simps \<open>facts on std::string operations\<close>

section \<open>Outcomes of a C++ call\<close>

datatype cxx_error =
    Out_of_range            \<comment> \<open>\<open>std::out_of_range\<close>, thrown by \<open>substr\<close>\<close>
  | Range_error             \<comment> \<open>\<open>std::range_error\<close>, thrown by the client's cache\<close>
  | Runtime_error           \<comment> \<open>\<open>std::runtime_error\<close>, thrown by the thread pool\<close>
  | Invalid_argument        \<comment> \<open>\<open>std::invalid_argument\<close>, thrown by \<open>stoi\<close>\<close>
  | Undefined               \<comment> \<open>null, dangling or out-of-range access, missing return\<close>
  | Exit_process int        \<comment> \<open>\<open>exit(n)\<close>\<close>
  | Diverges                \<comment> \<open>a loop that never ends\<close>

type_synonym 'a result = "cxx_error + 'a"

definition andThen :: "'a result \<Rightarrow> ('a \<Rightarrow> 'b result) \<Rightarrow> 'b result" where
  "andThen r f = (case r of Inl e \<Rightarrow> Inl e | Inr x \<Rightarrow> f x)"

lemma andThen_Inl [simp, result_simps]: "andThen (Inl e) f = Inl e"
  by (simp add: andThen_def)

lemma andThen_Inr [simp, result_simps]: "andThen (Inr x) f = f x"
  by (simp add: andThen_def)

lemma andThen_eq_Inr_iff:
  "andThen r f = Inr y \<longleftrightarrow> (\<exists>x. r = Inr x \<and> f x = Inr y)"
  by (cases r) auto

lemma andThen_assoc: "andThen (andThen r f) g = andThen r (\<lambda>x. andThen (f x) g)"
  by (cases r) auto

text \<open>A lookup that the code performs through a pointer: absence is undefined behaviour.\<close>

definition deref_opt :: "'a option \<Rightarrow> 'a result" where
  "deref_opt x = (case x of None \<Rightarrow> Inl Undefined | Some y \<Rightarrow> Inr y)"

lemma deref_opt_simps [simp, result_simps]:
  "deref_opt None = Inl Undefined" "deref_opt (Some y) = Inr y"
  by (simp_all add: deref_opt_def)

lemma deref_opt_Inr_iff: "deref_opt x = Inr y \<longleftrightarrow> x = Some y"
  by (cases x) auto

text \<open>\<open>v[i]\<close> on a \<open>std::vector\<close>: out of range is undefined behaviour.\<close>

definition vec_at :: "'a list \<Rightarrow> nat \<Rightarrow> 'a result" where
  "vec_at xs i = (if i < length xs then Inr (xs ! i) else Inl Undefined)"

lemma vec_at_Cons_0 [simp, result_simps]: "vec_at (x # xs) 0 = Inr x"
  by (simp add: vec_at_def)

lemma vec_at_Cons_Suc [simp, result_simps]: "vec_at (x # xs) (Suc i) = vec_at xs i"
  by (simp add: vec_at_def)

lemma vec_at_Nil [simp, result_simps]: "vec_at [] i = Inl Undefined"
  by (simp add: vec_at_def)

lemma vec_at_numeral [simp, result_simps]:
  "vec_at (x # xs) (numeral n) = vec_at xs (pred_numeral n)"
  by (simp add: vec_at_def)

lemma vec_at_Inr_iff: "vec_at xs i = Inr y \<longleftrightarrow> i < length xs \<and> xs ! i = y"
  by (simp add: vec_at_def)

section \<open>Strings\<close>

text \<open>
  A \<open>std::string\<close> is its list of bytes.  \<open>s.substr(pos, n)\<close> throws when \<open>pos\<close> is past
  the end and otherwise takes at most \<open>n\<close> bytes.
\<close>

definition substr :: "string \<Rightarrow> nat \<Rightarrow> nat \<Rightarrow> string result" where
  "substr s pos n = (if length s < pos then Inl Out_of_range else Inr (take n (drop pos s)))"

lemma substr_ok [str_simps]: "pos \<le> length s \<Longrightarrow> substr s pos n = Inr (take n (drop pos s))"
  by (simp add: substr_def)

lemma substr_throws [str_simps]: "length s < pos \<Longrightarrow> substr s pos n = Inl Out_of_range"
  by (simp add: substr_def)

text \<open>
  The scanning loop that the cache server repeats in \<open>slice\<close>, in the request handler, in
  \<open>ReadFromMaster\<close> and in the replica: count bytes up to the first separator.
\<close>

fun spear_loop :: "char \<Rightarrow> string \<Rightarrow> nat \<Rightarrow> nat" where
  "spear_loop c [] spear = spear"
| "spear_loop c (x # xs) spear = (if x \<noteq> c then spear_loop c xs (Suc spear) else spear)"

lemma spear_loop_takeWhile:
  "spear_loop c s n = n + length (takeWhile (\<lambda>x. x \<noteq> c) s)"
  by (induction c s n rule: spear_loop.induct) auto

lemma takeWhile_sep [str_simps, simp]:
  "c \<notin> set xs \<Longrightarrow> takeWhile (\<lambda>x. x \<noteq> c) (xs @ c # ys) = xs"
  by (induction xs) auto

lemma takeWhile_no_sep [str_simps, simp]:
  "c \<notin> set xs \<Longrightarrow> takeWhile (\<lambda>x. x \<noteq> c) xs = xs"
  by (induction xs) auto

lemma spear_loop_sep [str_simps]:
  "c \<notin> set xs \<Longrightarrow> spear_loop c (xs @ c # ys) n = n + length xs"
  by (simp add: spear_loop_takeWhile)

lemma spear_loop_no_sep [str_simps]:
  "c \<notin> set xs \<Longrightarrow> spear_loop c xs n = n + length xs"
  by (simp add: spear_loop_takeWhile)

lemma spear_loop_le: "spear_loop c s n \<le> n + length s"
  by (simp add: spear_loop_takeWhile length_takeWhile_le)

section \<open>Decimal rendering\<close>

fun dec_digits :: "nat \<Rightarrow> string" where
  "dec_digits n =
     (if n < 10 then [char_of (48 + n)] else dec_digits (n div 10) @ [char_of (48 + n mod 10)])"

declare dec_digits.simps [simp del]

definition show_int :: "int \<Rightarrow> string" where
  "show_int i = (if i < 0 then CHR ''-'' # dec_digits (nat (- i)) else dec_digits (nat i))"

lemma dec_digits_nonempty [simp]: "dec_digits n \<noteq> []"
  by (subst dec_digits.simps) simp

lemma digit_char_range:
  "d < 10 \<Longrightarrow> of_char (char_of (48 + d)) = (48 + d :: nat)"
  by (simp add: of_char_of)

lemma dec_digits_are_digits:
  "x \<in> set (dec_digits n) \<Longrightarrow> (of_char x :: nat) \<in> {48..57}"
proof (induction n rule: dec_digits.induct)
  case (1 n)
  show ?case
  proof (cases "n < 10")
    case True
    with "1.prems" show ?thesis by (simp add: dec_digits.simps [of n] digit_char_range)
  next
    case False
    with "1.prems" consider "x \<in> set (dec_digits (n div 10))" | "x = char_of (48 + n mod 10)"
      by (auto simp: dec_digits.simps [of n])
    then show ?thesis
    proof cases
      case 1
      with False "1.IH" show ?thesis by simp
    next
      case 2
      have "of_char x = (48 + n mod 10 :: nat)"
        unfolding 2 by (rule digit_char_range) simp
      then show ?thesis by simp
    qed
  qed
qed

lemma dec_digits_no_sep [simp]:
  "CHR ''#'' \<notin> set (dec_digits n)" "CHR '':'' \<notin> set (dec_digits n)"
  using dec_digits_are_digits [of "CHR ''#''" n] dec_digits_are_digits [of "CHR '':''" n]
  by auto

end
