(* ===== verification/Lru_Spec.thy ===== *)
theory Lru_Spec
  imports Prelude
begin

text \<open>
  The contract of a bounded least-recently-used store, for the cache server's
  \<open>LRU_Cache\<close> (a hash table over a hand-made doubly linked list) and the client's
  \<open>lru_cache\<close> (a hash table over a \<open>std::list\<close>): the abstract store is the list of its
  entries, most recently used first.  The locale \<open>lru_store\<close> states what an implementation
  owes to this list; its lemmas on whole runs of operations are proved once.
\<close>

type_synonym ('k, 'v) recency = "('k \<times> 'v) list"

definition del_key :: "'k \<Rightarrow> ('k, 'v) recency \<Rightarrow> ('k, 'v) recency" where
  "del_key k es = filter (\<lambda>e. fst e \<noteq> k) es"

definition lru_touch :: "'k \<Rightarrow> ('k, 'v) recency \<Rightarrow> ('k, 'v) recency" where
  "lru_touch k es = (case map_of es k of None \<Rightarrow> es | Some v \<Rightarrow> (k, v) # del_key k es)"

definition lru_put :: "int \<Rightarrow> 'k \<Rightarrow> 'v \<Rightarrow> ('k, 'v) recency \<Rightarrow> ('k, 'v) recency" where
  "lru_put cap k v es =
     (if k \<in> fst ` set es then (k, v) # del_key k es
      else if cap < int (length es) + 1 then butlast ((k, v) # es)
      else (k, v) # es)"

datatype ('k, 'v) lru_op = Put 'k 'v | Get 'k

fun op_key :: "('k, 'v) lru_op \<Rightarrow> 'k" where
  "op_key (Put k v) = k"
| "op_key (Get k) = k"

fun lru_step :: "int \<Rightarrow> ('k, 'v) lru_op \<Rightarrow> ('k, 'v) recency \<Rightarrow> ('k, 'v) recency" where
  "lru_step cap (Put k v) es = lru_put cap k v es"
| "lru_step cap (Get k) es = lru_touch k es"

definition lru_run :: "int \<Rightarrow> ('k, 'v) lru_op list \<Rightarrow> ('k, 'v) recency \<Rightarrow> ('k, 'v) recency" where
  "lru_run cap ops es = fold (lru_step cap) ops es"

lemma lru_run_simps [simp]:
  "lru_run cap [] es = es" "lru_run cap (p # ops) es = lru_run cap ops (lru_step cap p es)"
  by (simp_all add: lru_run_def)

lemma lru_run_append: "lru_run cap (ops @ ops') es = lru_run cap ops' (lru_run cap ops es)"
  by (simp add: lru_run_def)

section \<open>Facts about the abstract store\<close>

lemma del_key_simps [simp]:
  "del_key k [] = []"
  "del_key k (e # es) = (if fst e = k then del_key k es else e # del_key k es)"
  "del_key k (xs @ ys) = del_key k xs @ del_key k ys"
  by (simp_all add: del_key_def)

lemma del_key_notin: "k \<notin> fst ` set es \<Longrightarrow> del_key k es = es"
  by (induction es) auto

lemma keys_del_key [simp]: "fst ` set (del_key k es) = fst ` set es - {k}"
  by (auto simp: del_key_def)

lemma distinct_del_key: "distinct (map fst es) \<Longrightarrow> distinct (map fst (del_key k es))"
  by (simp add: del_key_def distinct_map_filter)

lemma length_del_key:
  "distinct (map fst es) \<Longrightarrow> k \<in> fst ` set es \<Longrightarrow> Suc (length (del_key k es)) = length es"
  by (induction es) (auto simp: del_key_notin)

lemma map_of_del_key [simp]: "map_of (del_key k es) = (map_of es)(k := None)"
  by (induction es) (auto simp: fun_eq_iff)

lemma distinct_butlast_keys: "distinct (map fst es) \<Longrightarrow> distinct (map fst (butlast es))"
  by (simp add: map_butlast distinct_butlast)

lemma lru_put_distinct: "distinct (map fst es) \<Longrightarrow> distinct (map fst (lru_put cap k v es))"
  unfolding lru_put_def using distinct_del_key [of es k]
  by (auto simp: distinct_butlast_keys simp del: butlast.simps)

lemma lru_touch_distinct: "distinct (map fst es) \<Longrightarrow> distinct (map fst (lru_touch k es))"
  unfolding lru_touch_def by (auto simp: distinct_del_key split: option.splits)

lemma lru_step_distinct: "distinct (map fst es) \<Longrightarrow> distinct (map fst (lru_step cap p es))"
  by (cases p) (simp_all add: lru_put_distinct lru_touch_distinct)

lemma lru_step_length:
  assumes "distinct (map fst es)"
  shows "int (length (lru_step cap p es)) \<le> max cap (int (length es))"
proof (cases p)
  case (Put k v)
  then show ?thesis using length_del_key [OF assms, of k] by (auto simp: lru_put_def)
next
  case (Get k)
  have "k \<in> fst ` set es" if "map_of es k = Some v" for v
    using that by (metis domI dom_map_of_conv_image_fst)
  with Get show ?thesis using length_del_key [OF assms, of k]
    by (fastforce simp: lru_touch_def split: option.splits)
qed

lemma lru_run_length:
  "distinct (map fst es) \<Longrightarrow> int (length (lru_run cap ops es)) \<le> max cap (int (length es))"
proof (induction ops arbitrary: es)
  case (Cons p ops)
  from Cons.IH [of "lru_step cap p es"] Cons.prems lru_step_distinct [OF Cons.prems, of cap p]
    lru_step_length [OF Cons.prems, of cap p]
  show ?case by simp
qed simp

text \<open>Writes that fit into the free room evict nothing.\<close>

lemma lru_put_room:
  assumes "distinct (map fst es)" "int (length es) < cap"
  shows "map_of (lru_put cap k v es) = (map_of es)(k \<mapsto> v)" "length (lru_put cap k v es) \<le> Suc (length es)"
  using assms length_del_key [OF assms(1), of k] by (auto simp: lru_put_def)

lemma lru_run_puts:
  assumes "distinct (map fst es)" "int (length es + length kvs) \<le> cap"
  shows "map_of (lru_run cap (map (\<lambda>(k, v). Put k v) kvs) es) = map_of es ++ map_of (rev kvs)"
  using assms
proof (induction kvs arbitrary: es)
  case (Cons e kvs)
  obtain k v where e: "e = (k, v)" by (cases e)
  have room: "int (length es) < cap" using Cons.prems(2) by simp
  have "map_of (lru_run cap (map (\<lambda>(k, v). Put k v) kvs) (lru_put cap k v es)) = (map_of es)(k \<mapsto> v) ++ map_of (rev kvs)"
    using Cons.IH [of "lru_put cap k v es"] Cons.prems e lru_put_room [OF Cons.prems(1) room, of k v]
    by (simp add: lru_put_distinct fun_upd_def)
  also have "\<dots> = map_of es ++ map_of (rev (e # kvs))"
    by (rule ext) (simp add: e map_add_def split: option.split)
  finally show ?case using e by simp
qed simp

section \<open>How long an entry survives\<close>

text \<open>
  An entry stays as long as fewer than \<open>cap\<close> other keys have been used since: the keys in
  front of it are among those used since.
\<close>

definition shielded :: "'k set \<Rightarrow> 'k \<Rightarrow> 'v \<Rightarrow> ('k, 'v) recency \<Rightarrow> bool" where
  "shielded K k v es \<longleftrightarrow> distinct (map fst es) \<and>
     (\<exists>pre post. es = pre @ (k, v) # post \<and> fst ` set pre \<subseteq> K)"

lemma shielded_map_of: "shielded K k v es \<Longrightarrow> map_of es k = Some v"
  unfolding shielded_def by (auto intro!: map_of_is_SomeI)

lemma shielded_to_front:
  assumes "shielded K k v es" "k' \<in> K" "k' \<noteq> k"
  shows "shielded K k v ((k', v') # del_key k' es)"
proof -
  from assms(1) obtain pre post where es: "es = pre @ (k, v) # post"
    and pre: "fst ` set pre \<subseteq> K" and d: "distinct (map fst es)"
    by (auto simp: shielded_def)
  have "(k', v') # del_key k' es = ((k', v') # del_key k' pre) @ (k, v) # del_key k' post"
    using es assms(3) by simp
  moreover have "fst ` set ((k', v') # del_key k' pre) \<subseteq> K"
    using pre assms(2) by auto
  moreover have "distinct (map fst ((k', v') # del_key k' es))"
    using distinct_del_key [OF d, of k'] by (auto simp: image_iff del_key_def)
  ultimately show ?thesis unfolding shielded_def by blast
qed

lemma shielded_insert:
  assumes sh: "shielded K k v es" and new: "k' \<notin> fst ` set es" and K: "k' \<in> K" "k \<notin> K"
    and fin: "finite K" and cap: "int (card K) < cap"
  shows "shielded K k v (lru_put cap k' v' es)"
proof -
  from sh obtain pre post where es: "es = pre @ (k, v) # post"
    and pre: "fst ` set pre \<subseteq> K" and d: "distinct (map fst es)"
    by (auto simp: shielded_def)
  let ?es = "(k', v') # es"
  have d': "distinct (map fst ?es)" using d new by auto
  have split: "?es = ((k', v') # pre) @ (k, v) # post" using es by simp
  have sub: "fst ` set ((k', v') # pre) \<subseteq> K" using pre K by auto
  show ?thesis
  proof (cases "cap < int (length es) + 1")
    case False
    then have "lru_put cap k' v' es = ?es" using new by (simp add: lru_put_def)
    with d' split sub show ?thesis unfolding shielded_def by metis
  next
    case True
    have "post \<noteq> []"
    proof
      assume post: "post = []"
      have "distinct (map fst ((k', v') # pre))" using d' es by simp
      then have "length ((k', v') # pre) = card (fst ` set ((k', v') # pre))"
        using distinct_card [of "map fst ((k', v') # pre)"] by simp
      also have "\<dots> \<le> card K" using sub fin by (rule card_mono [rotated])
      finally show False using True cap es post by simp
    qed
    then have bl: "butlast ?es = ((k', v') # pre) @ (k, v) # butlast post"
      using es by (simp add: butlast_append)
    have "distinct (map fst (butlast ?es))" using d' by (rule distinct_butlast_keys)
    moreover have "lru_put cap k' v' es = butlast ?es" using new True by (simp add: lru_put_def)
    ultimately show ?thesis using bl sub unfolding shielded_def by metis
  qed
qed

lemma shielded_step:
  assumes sh: "shielded K k v es" and "op_key p \<in> K" "k \<notin> K" "finite K" "int (card K) < cap"
  shows "shielded K k v (lru_step cap p es)"
proof (cases p)
  case (Put k' v')
  with assms show ?thesis
  proof (cases "k' \<in> fst ` set es")
    case True
    with Put assms show ?thesis
      using shielded_to_front [OF sh, of k' v'] by (auto simp: lru_put_def)
  next
    case False
    with Put assms show ?thesis using shielded_insert [OF sh False] by simp
  qed
next
  case (Get k')
  with assms show ?thesis
    using shielded_to_front [OF sh] by (auto simp: lru_touch_def split: option.splits)
qed

lemma shielded_run:
  assumes "shielded K k v es" "op_key ` set ops \<subseteq> K" "k \<notin> K" "finite K" "int (card K) < cap"
  shows "shielded K k v (lru_run cap ops es)"
  using assms by (induction ops arbitrary: es) (auto intro: shielded_step)

lemma shielded_after_put:
  assumes "distinct (map fst es)" "0 < cap"
  shows "shielded {} k v (lru_put cap k v es)"
proof -
  have "\<exists>post. lru_put cap k v es = (k, v) # post"
    using assms(2) by (cases es) (auto simp: lru_put_def)
  then show ?thesis
    using lru_put_distinct [OF assms(1), of cap k v] unfolding shielded_def
    by (metis append_Nil empty_set empty_subsetI image_empty)
qed

lemma shielded_mono: "shielded K k v es \<Longrightarrow> K \<subseteq> K' \<Longrightarrow> shielded K' k v es"
  unfolding shielded_def by blast

section \<open>The contract\<close>

text \<open>
  \<open>put\<close> and \<open>get\<close> return \<open>None\<close> when the implementation runs into undefined behaviour;
  \<open>get\<close> otherwise returns the value, if the key is present, and the new state.
\<close>

locale lru_store =
  fixes put :: "'k \<Rightarrow> 'v \<Rightarrow> 's \<Rightarrow> 's option"
    and get :: "'k \<Rightarrow> 's \<Rightarrow> ('v option \<times> 's) option"
    and cap :: "'s \<Rightarrow> int"
    and repr :: "'s \<Rightarrow> ('k, 'v) recency \<Rightarrow> bool"
  assumes repr_distinct: "repr s es \<Longrightarrow> distinct (map fst es)"
    and put_repr: "repr s es \<Longrightarrow>
          \<exists>s'. put k v s = Some s' \<and> repr s' (lru_put (cap s) k v es) \<and> cap s' = cap s"
    and get_repr: "repr s es \<Longrightarrow>
          \<exists>s'. get k s = Some (map_of es k, s') \<and> repr s' (lru_touch k es) \<and> cap s' = cap s"
begin

fun step :: "('k, 'v) lru_op \<Rightarrow> 's \<Rightarrow> 's option" where
  "step (Put k v) s = put k v s"
| "step (Get k) s = map_option snd (get k s)"

fun run :: "('k, 'v) lru_op list \<Rightarrow> 's \<Rightarrow> 's option" where
  "run [] s = Some s"
| "run (p # ops) s = Option.bind (step p s) (run ops)"

lemma step_repr:
  "repr s es \<Longrightarrow> \<exists>s'. step p s = Some s' \<and> repr s' (lru_step (cap s) p es) \<and> cap s' = cap s"
  by (cases p) (auto dest: put_repr get_repr, metis get_repr option.simps(9) snd_conv)

lemma run_repr:
  "repr s es \<Longrightarrow> \<exists>s'. run ops s = Some s' \<and> repr s' (lru_run (cap s) ops es) \<and> cap s' = cap s"
proof (induction ops arbitrary: s es)
  case (Cons p ops)
  from step_repr [OF Cons.prems, of p] obtain s1 where
    s1: "step p s = Some s1" "repr s1 (lru_step (cap s) p es)" "cap s1 = cap s" by blast
  from Cons.IH [OF s1(2)] s1 show ?case by auto
qed simp

lemma run_append: "run (ops @ ops') s = Option.bind (run ops s) (run ops')"
  by (induction ops arbitrary: s) (auto split: bind_splits)

text \<open>A put is read back while fewer than \<open>cap\<close> other keys are used in between.\<close>

lemma read_your_write:
  assumes r: "repr s es" and K: "op_key ` set ops \<subseteq> K" "k \<notin> K" "finite K" "int (card K) < cap s"
  shows "\<exists>s1 s2. run (Put k v # ops) s = Some s1 \<and> get k s1 = Some (Some v, s2)"
proof -
  have pos: "0 < cap s" using K(4) by simp
  from run_repr [OF r, of "Put k v # ops"] obtain s1 where
    s1: "run (Put k v # ops) s = Some s1" "repr s1 (lru_run (cap s) ops (lru_put (cap s) k v es))"
    by auto
  have "shielded K k v (lru_run (cap s) ops (lru_put (cap s) k v es))"
    using shielded_after_put [OF repr_distinct [OF r] pos] K by (blast intro: shielded_run shielded_mono)
  then have "map_of (lru_run (cap s) ops (lru_put (cap s) k v es)) k = Some v"
    by (rule shielded_map_of)
  with get_repr [OF s1(2), of k] s1(1) show ?thesis by auto
qed

lemma run_bounded:
  assumes "repr s es" "int (length es) \<le> cap s"
  shows "\<exists>s' es'. run ops s = Some s' \<and> repr s' es' \<and> int (length es') \<le> cap s"
  using run_repr [OF assms(1), of ops] lru_run_length [OF repr_distinct [OF assms(1)], of "cap s" ops]
    assms(2) by auto

end

end
