(* ===== verification/Lru_Client.thy ===== *)
theory Lru_Client
  imports Lru_Spec
begin

text \<open>
  \<open>Client/include/lru.hpp\<close>: the client's \<open>cache::lru_cache<std::string, std::string>\<close>, a
  \<open>std::list\<close> of key-value pairs and a hash table from keys to list iterators.  A list node
  carries its identity, which is what an iterator holds; dereferencing or erasing an
  iterator whose node is gone is undefined behaviour.  Without \<open>erase\<close> the class meets the
  contract \<open>lru_store\<close>.  \<open>erase\<close> removes a key from the table only and leaves its node in
  the list: memory safety survives it, the capacity bound and the eviction order do not.
\<close>

record lru_cache =
  c_list :: "(nat \<times> string \<times> string) list"
  c_map :: "(string \<times> nat) list"
  c_fresh :: nat
  c_max_size :: nat

definition lru_cache_new :: "nat \<Rightarrow> lru_cache" where
  "lru_cache_new max_size = \<lparr>c_list = [], c_map = [], c_fresh = 0, c_max_size = max_size\<rparr>"

section \<open>Hash table and list primitives\<close>

text \<open>\<open>map.erase\<close> and \<open>map[key] = it\<close>; the table has one entry per key.\<close>

definition tab_erase :: "string \<Rightarrow> (string \<times> nat) list \<Rightarrow> (string \<times> nat) list" where
  "tab_erase k m = filter (\<lambda>e. fst e \<noteq> k) m"

definition tab_set :: "string \<Rightarrow> nat \<Rightarrow> (string \<times> nat) list \<Rightarrow> (string \<times> nat) list" where
  "tab_set k i m = (k, i) # tab_erase k m"

text \<open>\<open>list.erase(it)\<close> and \<open>list.splice(begin, list, it)\<close>\<close>

definition node_erase :: "nat \<Rightarrow> (nat \<times> 'a) list \<Rightarrow> (nat \<times> 'a) list result" where
  "node_erase i xs =
     (if i \<in> fst ` set xs then Inr (filter (\<lambda>n. fst n \<noteq> i) xs) else Inl Undefined)"

definition node_deref :: "nat \<Rightarrow> (nat \<times> 'a) list \<Rightarrow> 'a result" where
  "node_deref i xs = deref_opt (map_of xs i)"

definition splice_front :: "nat \<Rightarrow> (nat \<times> 'a) list \<Rightarrow> (nat \<times> 'a) list result" where
  "splice_front i xs =
     andThen (node_deref i xs) (\<lambda>x. Inr ((i, x) # filter (\<lambda>n. fst n \<noteq> i) xs))"

section \<open>Operations\<close>

definition cl_put :: "string \<Rightarrow> string \<Rightarrow> lru_cache \<Rightarrow> lru_cache result" where
  "cl_put key value s =
     (let it = map_of (c_map s) key;
          node = c_fresh s;
          l1 = (node, key, value) # c_list s
      in andThen
           (case it of
              Some old \<Rightarrow> andThen (node_erase old l1) (\<lambda>l2. Inr (l2, tab_erase key (c_map s)))
            | None \<Rightarrow> Inr (l1, c_map s))
           (\<lambda>(l2, m2). let m3 = tab_set key node m2 in
              if c_max_size s < length m3
              then (case rev l2 of
                      [] \<Rightarrow> Inl Undefined
                    | back # _ \<Rightarrow> Inr (s\<lparr>c_list := butlast l2, c_map := tab_erase (fst (snd back)) m3,
                                        c_fresh := Suc node\<rparr>))
              else Inr (s\<lparr>c_list := l2, c_map := m3, c_fresh := Suc node\<rparr>)))"

definition cl_erase :: "string \<Rightarrow> lru_cache \<Rightarrow> lru_cache" where
  "cl_erase key s =
     (case map_of (c_map s) key of
        Some it \<Rightarrow> s\<lparr>c_map := tab_erase key (c_map s)\<rparr>
      | None \<Rightarrow> s)"

definition cl_get :: "string \<Rightarrow> lru_cache \<Rightarrow> (string \<times> lru_cache) result" where
  "cl_get key s =
     (case map_of (c_map s) key of
        None \<Rightarrow> Inl Range_error
      | Some it \<Rightarrow> andThen (splice_front it (c_list s)) (\<lambda>l.
          andThen (node_deref it l) (\<lambda>(k, v). Inr (v, s\<lparr>c_list := l\<rparr>))))"

definition cl_exists :: "string \<Rightarrow> lru_cache \<Rightarrow> bool" where
  "cl_exists key s \<longleftrightarrow> map_of (c_map s) key \<noteq> None"

definition cl_size :: "lru_cache \<Rightarrow> nat" where
  "cl_size s = length (c_map s)"

section \<open>Memory safety\<close>

text \<open>Every table entry points to a live node that holds its key; nodes are distinct.\<close>

definition client_safe :: "lru_cache \<Rightarrow> bool" where
  "client_safe s \<longleftrightarrow> distinct (map fst (c_list s)) \<and> (\<forall>i \<in> fst ` set (c_list s). i < c_fresh s) \<and>
     distinct (map fst (c_map s)) \<and>
     (\<forall>k i. (k, i) \<in> set (c_map s) \<longrightarrow> (\<exists>v. (i, k, v) \<in> set (c_list s)))"

lemma tab_erase_simps [simp]:
  "tab_erase k [] = []"
  "tab_erase k (e # m) = (if fst e = k then tab_erase k m else e # tab_erase k m)"
  "set (tab_erase k m) = {e \<in> set m. fst e \<noteq> k}"
  by (auto simp: tab_erase_def)

lemma distinct_tab_erase [simp]: "distinct (map fst m) \<Longrightarrow> distinct (map fst (tab_erase k m))"
  by (simp add: tab_erase_def distinct_map_filter)

lemma map_of_tab_erase [simp]: "map_of (tab_erase k m) = (map_of m)(k := None)"
  by (induction m) (auto simp: fun_eq_iff)

lemma tab_erase_absent: "map_of m k = None \<Longrightarrow> tab_erase k m = m"
  by (induction m) (auto split: if_splits)

lemma length_tab_erase:
  "distinct (map fst m) \<Longrightarrow> map_of m k = Some i \<Longrightarrow> Suc (length (tab_erase k m)) = length m"
  by (induction m) (auto split: if_splits simp: tab_erase_absent map_of_eq_None_iff)

lemma client_safe_new [simp]: "client_safe (lru_cache_new n)"
  by (simp add: client_safe_def lru_cache_new_def)

lemma client_safe_deref:
  assumes "client_safe s" "map_of (c_map s) k = Some i"
  obtains v where "map_of (c_list s) i = Some (k, v)" "(i, k, v) \<in> set (c_list s)"
proof -
  have "(k, i) \<in> set (c_map s)" using assms(2) by (rule map_of_SomeD)
  then obtain v where "(i, k, v) \<in> set (c_list s)" using assms(1) unfolding client_safe_def by blast
  with assms(1) that show thesis by (simp add: client_safe_def)
qed

lemma client_safe_erase: "client_safe s \<Longrightarrow> client_safe (cl_erase k s)"
  by (auto simp: client_safe_def cl_erase_def split: option.splits)

lemma cl_get_spec:
  assumes safe: "client_safe s" and k: "map_of (c_map s) k = Some i"
  shows "\<exists>v. (i, k, v) \<in> set (c_list s) \<and>
    cl_get k s = Inr (v, s\<lparr>c_list := (i, k, v) # filter (\<lambda>n. fst n \<noteq> i) (c_list s)\<rparr>)"
proof -
  from client_safe_deref [OF safe k] obtain v where
    "map_of (c_list s) i = Some (k, v)" "(i, k, v) \<in> set (c_list s)" by metis
  then show ?thesis using k by (auto simp: cl_get_def splice_front_def node_deref_def)
qed

lemma client_safe_get:
  assumes safe: "client_safe s" and r: "cl_get k s = Inr (v, s')"
  shows "client_safe s'"
proof (cases "map_of (c_map s) k")
  case None
  with r show ?thesis by (simp add: cl_get_def)
next
  case (Some i)
  from cl_get_spec [OF safe Some] r obtain w where w: "(i, k, w) \<in> set (c_list s)"
    and s': "s' = s\<lparr>c_list := (i, k, w) # filter (\<lambda>n. fst n \<noteq> i) (c_list s)\<rparr>" by auto
  have d: "distinct (map fst (c_list s))" using safe by (simp add: client_safe_def)
  have same: "set (c_list s') = set (c_list s)"
  proof (rule set_eqI)
    fix n :: "nat \<times> string \<times> string"
    obtain j x where n: "n = (j, x)" by (cases n)
    show "n \<in> set (c_list s') \<longleftrightarrow> n \<in> set (c_list s)"
    proof (cases "j = i")
      case True
      with n w d show ?thesis unfolding s' by (auto dest: eq_key_imp_eq_value)
    qed (use n s' in auto)
  qed
  have "distinct (map fst (c_list s'))"
    using d unfolding s' by (auto simp: distinct_map_filter)
  with safe same show ?thesis by (simp add: client_safe_def s')
qed

text \<open>What \<open>put\<close> does, in one equation.\<close>

definition put_nodes :: "string \<Rightarrow> string \<Rightarrow> lru_cache \<Rightarrow> (nat \<times> string \<times> string) list" where
  "put_nodes k v s = (c_fresh s, k, v) #
     (case map_of (c_map s) k of None \<Rightarrow> c_list s
      | Some old \<Rightarrow> filter (\<lambda>n. fst n \<noteq> old) (c_list s))"

lemma case_rev_last:
  "ys \<noteq> [] \<Longrightarrow> (case rev ys of [] \<Rightarrow> a | b # r \<Rightarrow> f b) = f (last ys)"
  by (cases ys rule: rev_cases) auto

lemma cl_put_eq:
  assumes safe: "client_safe s"
  shows "cl_put k v s = Inr
    (if c_max_size s < length (tab_set k (c_fresh s) (c_map s))
     then s\<lparr>c_list := butlast (put_nodes k v s),
            c_map := tab_erase (fst (snd (last (put_nodes k v s)))) (tab_set k (c_fresh s) (c_map s)),
            c_fresh := Suc (c_fresh s)\<rparr>
     else s\<lparr>c_list := put_nodes k v s, c_map := tab_set k (c_fresh s) (c_map s),
            c_fresh := Suc (c_fresh s)\<rparr>)"
proof -
  have idem: "tab_set k i (tab_erase k m) = tab_set k i m" for i m
    by (simp add: tab_set_def tab_erase_def)
  have ne: "put_nodes k v s \<noteq> []" by (simp add: put_nodes_def)
  note xs = case_rev_last [OF ne]
  show ?thesis
  proof (cases "map_of (c_map s) k")
    case None
    then have n: "(c_fresh s, k, v) # c_list s = put_nodes k v s" by (simp add: put_nodes_def)
    from None show ?thesis by (simp add: cl_put_def Let_def n xs)
  next
    case (Some old)
    from client_safe_deref [OF safe Some] obtain w where "(old, k, w) \<in> set (c_list s)" by metis
    then have old: "old \<in> fst ` set (c_list s)" "old \<noteq> c_fresh s"
      using safe by (force simp: client_safe_def)+
    then have "node_erase old ((c_fresh s, k, v) # c_list s) = Inr (put_nodes k v s)"
      using Some by (simp add: node_erase_def put_nodes_def)
    with Some show ?thesis by (simp add: cl_put_def Let_def xs idem)
  qed
qed

lemma put_nodes_old:
  assumes safe: "client_safe s" and kk: "k' \<noteq> k" and m: "(k', i) \<in> set (c_map s)"
  shows "\<exists>w. (i, k', w) \<in> set (put_nodes k v s)"
proof -
  obtain w where w: "(i, k', w) \<in> set (c_list s)" using safe m unfolding client_safe_def by blast
  show ?thesis
  proof (cases "map_of (c_map s) k")
    case None
    with w show ?thesis by (auto simp: put_nodes_def)
  next
    case (Some old)
    from client_safe_deref [OF safe Some] obtain u where "(old, k, u) \<in> set (c_list s)" by metis
    then have "old \<noteq> i"
      using w safe kk unfolding client_safe_def by (metis Pair_inject eq_key_imp_eq_value)
    with w Some show ?thesis by (auto simp: put_nodes_def)
  qed
qed

lemma put_nodes_distinct:
  assumes "client_safe s"
  shows "distinct (map fst (put_nodes k v s))" "\<forall>i \<in> fst ` set (put_nodes k v s). i < Suc (c_fresh s)"
proof -
  have d: "distinct (map fst (c_list s))" and f: "\<forall>i \<in> fst ` set (c_list s). i < c_fresh s"
    using assms by (auto simp: client_safe_def)
  have sub: "set (tl (put_nodes k v s)) \<subseteq> set (c_list s)"
    by (auto simp: put_nodes_def split: option.splits)
  have "distinct (map fst (tl (put_nodes k v s)))"
    using d by (auto simp: put_nodes_def distinct_map_filter split: option.splits)
  moreover have "c_fresh s \<notin> fst ` set (tl (put_nodes k v s))" using f sub by force
  moreover have "put_nodes k v s = (c_fresh s, k, v) # tl (put_nodes k v s)"
    by (simp add: put_nodes_def)
  ultimately show "distinct (map fst (put_nodes k v s))"
    by (metis distinct.simps(2) fst_conv list.set_map list.simps(9))
  show "\<forall>i \<in> fst ` set (put_nodes k v s). i < Suc (c_fresh s)"
    using f sub by (force simp: put_nodes_def less_Suc_eq split: option.splits)
qed

lemma client_safe_put:
  assumes safe: "client_safe s" and r: "cl_put k v s = Inr s'"
  shows "client_safe s'"
proof -
  let ?m = "tab_set k (c_fresh s) (c_map s)" and ?n = "put_nodes k v s"
  have dm: "distinct (map fst ?m)"
    using safe by (auto simp: client_safe_def tab_set_def)
  have pts: "\<exists>w. (i, k', w) \<in> set ?n" if "(k', i) \<in> set ?m" for k' i
    using that put_nodes_old [OF safe, of k' k i v] by (auto simp: tab_set_def put_nodes_def)
  show ?thesis
  proof (cases "c_max_size s < length ?m")
    case False
    with r cl_put_eq [OF safe, of k v] have s': "s' = s\<lparr>c_list := ?n, c_map := ?m, c_fresh := Suc (c_fresh s)\<rparr>"
      by simp
    show ?thesis unfolding s' client_safe_def
      using dm pts put_nodes_distinct [OF safe, of k v] by simp
  next
    case True
    let ?b = "fst (snd (last ?n))"
    from True r cl_put_eq [OF safe, of k v] have
      s': "s' = s\<lparr>c_list := butlast ?n, c_map := tab_erase ?b ?m, c_fresh := Suc (c_fresh s)\<rparr>"
      by simp
    have ne: "?n \<noteq> []" by (simp add: put_nodes_def)
    have "\<exists>w. (i, k', w) \<in> set (butlast ?n)" if "(k', i) \<in> set ?m" "k' \<noteq> ?b" for k' i
    proof -
      from pts [OF that(1)] obtain w where w: "(i, k', w) \<in> set ?n" by blast
      have "(i, k', w) \<noteq> last ?n" using that(2) by (metis fst_conv snd_conv)
      then show ?thesis using w ne by (metis append_butlast_last_id in_set_conv_decomp_last last_snoc set_ConsD rotate1.simps(2) set_rotate1)
    qed
    moreover have "distinct (map fst (butlast ?n))"
      using put_nodes_distinct(1) [OF safe, of k v] by (simp add: map_butlast distinct_butlast)
    moreover have "\<forall>i \<in> fst ` set (butlast ?n). i < Suc (c_fresh s)"
      using put_nodes_distinct(2) [OF safe, of k v] by (auto dest: in_set_butlastD)
    ultimately show ?thesis unfolding s' client_safe_def using dm by simp
  qed
qed

section \<open>Without erase the contract holds\<close>

definition client_exact :: "lru_cache \<Rightarrow> bool" where
  "client_exact s \<longleftrightarrow> client_safe s \<and> (\<forall>(i, k, v) \<in> set (c_list s). map_of (c_map s) k = Some i)"

definition client_repr :: "lru_cache \<Rightarrow> (string, string) recency \<Rightarrow> bool" where
  "client_repr s es \<longleftrightarrow>
     client_exact s \<and> es = map snd (c_list s) \<and> length (c_list s) \<le> c_max_size s"

lemma client_repr_new: "client_repr (lru_cache_new n) []"
  by (simp add: client_repr_def client_exact_def client_safe_new) (simp add: lru_cache_new_def)

lemma client_exact_keys:
  assumes "client_exact s"
  shows "distinct (map (fst \<circ> snd) (c_list s))"
    "fst ` set (c_map s) = (fst \<circ> snd) ` set (c_list s)" "length (c_map s) = length (c_list s)"
proof -
  have safe: "client_safe s" using assms by (simp add: client_exact_def)
  have "inj_on (fst \<circ> snd) (set (c_list s))"
  proof (rule inj_onI)
    fix a b assume ab: "a \<in> set (c_list s)" "b \<in> set (c_list s)" "(fst \<circ> snd) a = (fst \<circ> snd) b"
    obtain i k v j w where a: "a = (i, k, v)" and b: "b = (j, k, w)"
      using ab(3) by (cases a, cases b) auto
    have "map_of (c_map s) k = Some i" "map_of (c_map s) k = Some j"
      using assms ab a b by (auto simp: client_exact_def)
    then have "i = j" by simp
    with ab a b safe show "a = b"
      unfolding client_safe_def by (metis eq_key_imp_eq_value)
  qed
  moreover have "distinct (c_list s)"
    using safe by (auto simp: client_safe_def distinct_map)
  ultimately show d: "distinct (map (fst \<circ> snd) (c_list s))" by (simp add: distinct_map)
  show e: "fst ` set (c_map s) = (fst \<circ> snd) ` set (c_list s)"
    using assms safe unfolding client_exact_def client_safe_def
    by (force simp: image_iff dest: map_of_SomeD)
  have "distinct (map fst (c_map s))" using safe by (simp add: client_safe_def)
  then show "length (c_map s) = length (c_list s)"
    using d e by (metis distinct_card length_map list.set_map)
qed

lemma client_filter_node:
  assumes ex: "client_exact s" and k: "map_of (c_map s) k = Some i"
  shows "map snd (filter (\<lambda>n. fst n \<noteq> i) (c_list s)) = del_key k (map snd (c_list s))"
proof -
  have "fst n \<noteq> i \<longleftrightarrow> fst (snd n) \<noteq> k" if n: "n \<in> set (c_list s)" for n
  proof -
    obtain j k' w where n': "n = (j, k', w)" by (cases n)
    then have j: "map_of (c_map s) k' = Some j" using ex n by (auto simp: client_exact_def)
    from client_safe_deref [of s k i] ex k obtain v where "(i, k, v) \<in> set (c_list s)"
      unfolding client_exact_def by metis
    then have "j = i \<Longrightarrow> k' = k"
      using n n' ex unfolding client_exact_def client_safe_def by (metis Pair_inject eq_key_imp_eq_value)
    with j k n' show ?thesis by auto
  qed
  then have "filter (\<lambda>n. fst n \<noteq> i) (c_list s) = filter (\<lambda>n. fst (snd n) \<noteq> k) (c_list s)"
    by (rule filter_cong [OF refl])
  then show ?thesis by (simp add: del_key_def filter_map comp_def)
qed

lemma client_map_of_None:
  "client_exact s \<Longrightarrow> map_of (c_map s) k = None \<longleftrightarrow> k \<notin> fst ` set (map snd (c_list s))"
  using client_exact_keys(2) [of s] by (auto simp: map_of_eq_None_iff image_image)

lemma put_nodes_entries:
  assumes "client_exact s"
  shows "map snd (put_nodes k v s) = (k, v) # del_key k (map snd (c_list s))"
  using client_filter_node [OF assms, of k] client_map_of_None [OF assms, of k]
  by (auto simp: put_nodes_def del_key_notin split: option.splits)

lemma put_nodes_exact:
  assumes ex: "client_exact s" and n: "(i, k', w) \<in> set (put_nodes k v s)"
  shows "map_of (tab_set k (c_fresh s) (c_map s)) k' = Some i"
proof (cases "i = c_fresh s")
  case True
  have "distinct (map fst (put_nodes k v s))"
    using ex put_nodes_distinct(1) by (simp add: client_exact_def)
  moreover have "(c_fresh s, k, v) \<in> set (put_nodes k v s)" by (simp add: put_nodes_def)
  ultimately have "k' = k" using n True by (metis Pair_inject eq_key_imp_eq_value)
  with True show ?thesis by (simp add: tab_set_def)
next
  case False
  then have mem: "(i, k', w) \<in> set (c_list s)"
    using n by (auto simp: put_nodes_def split: option.splits)
  then have m: "map_of (c_map s) k' = Some i" using ex by (auto simp: client_exact_def)
  have "k' \<noteq> k"
  proof
    assume "k' = k"
    with m n False show False by (auto simp: put_nodes_def)
  qed
  with m show ?thesis by (simp add: tab_set_def)
qed

lemma client_put_repr:
  assumes r: "client_repr s es"
  shows "\<exists>s'. cl_put k v s = Inr s' \<and> client_repr s' (lru_put (int (c_max_size s)) k v es) \<and>
    c_max_size s' = c_max_size s"
proof -
  have ex: "client_exact s" and es: "es = map snd (c_list s)" and cap: "length es \<le> c_max_size s"
    using r by (simp_all add: client_repr_def)
  then have safe: "client_safe s" by (simp add: client_exact_def)
  let ?m = "tab_set k (c_fresh s) (c_map s)" and ?n = "put_nodes k v s"
  obtain s' where s': "cl_put k v s = Inr s'" using cl_put_eq [OF safe] by blast
  have safe': "client_safe s'" using safe s' by (rule client_safe_put)
  have ents: "map snd ?n = (k, v) # del_key k es" using put_nodes_entries [OF ex] es by simp
  have len: "length ?m = length ?n"
  proof (cases "map_of (c_map s) k")
    case None
    then show ?thesis using client_exact_keys(3) [OF ex]
      by (simp add: tab_set_def tab_erase_absent put_nodes_def)
  next
    case (Some i)
    have "length ?n = Suc (length (del_key k es))" using arg_cong [OF ents, of length] by simp
    moreover have "Suc (length (del_key k es)) = length es"
      using client_exact_keys(1) [OF ex] client_map_of_None [OF ex, of k] Some es
      by (intro length_del_key) auto
    moreover have "length ?m = length (c_map s)"
      using length_tab_erase [of "c_map s" k i] Some safe by (simp add: tab_set_def client_safe_def)
    ultimately show ?thesis using client_exact_keys(3) [OF ex] es by simp
  qed
  show ?thesis
  proof (cases "c_max_size s < length ?m")
    case False
    have s'': "s' = s\<lparr>c_list := ?n, c_map := ?m, c_fresh := Suc (c_fresh s)\<rparr>"
      using s' cl_put_eq [OF safe, of k v] False by simp
    have "client_exact s'"
      using safe' put_nodes_exact [OF ex] unfolding client_exact_def s'' by auto
    moreover have "lru_put (int (c_max_size s)) k v es = (k, v) # del_key k es"
      using False len arg_cong [OF ents, of length] by (auto simp: lru_put_def del_key_notin)
    ultimately show ?thesis using s' ents False len unfolding client_repr_def s'' by simp
  next
    case True
    let ?b = "fst (snd (last ?n))"
    have ne: "?n \<noteq> []" by (simp add: put_nodes_def)
    have s'': "s' = s\<lparr>c_list := butlast ?n, c_map := tab_erase ?b ?m, c_fresh := Suc (c_fresh s)\<rparr>"
      using s' cl_put_eq [OF safe, of k v] True by simp
    have new: "k \<notin> fst ` set es"
    proof
      assume k: "k \<in> fst ` set es"
      have "Suc (length (del_key k es)) = length es"
        using client_exact_keys(1) [OF ex] es k by (intro length_del_key) auto
      then show False using True len cap arg_cong [OF ents, of length] by simp
    qed
    have lenn: "length ?n = Suc (length es)"
      using arg_cong [OF ents, of length] new by (simp add: del_key_notin)
    have dk: "distinct (map (fst \<circ> snd) ?n)"
    proof -
      have "map (fst \<circ> snd) ?n = map fst (map snd ?n)" by simp
      also have "distinct \<dots>" unfolding ents using new client_exact_keys(1) [OF ex] es
        by (auto simp: del_key_notin)
      finally show ?thesis .
    qed
    have old: "fst (snd x) \<noteq> ?b" if "x \<in> set (butlast ?n)" for x
    proof -
      have "distinct (map (fst \<circ> snd) (butlast ?n @ [last ?n]))" using dk ne by simp
      then show ?thesis using that by (auto simp: image_iff)
    qed
    have "client_exact s'"
      using safe' put_nodes_exact [OF ex, of _ _ _ k v] old
      unfolding client_exact_def s'' by (force dest: in_set_butlastD)
    moreover have "lru_put (int (c_max_size s)) k v es = map snd (butlast ?n)"
      using True len lenn new ents by (simp add: lru_put_def map_butlast del_key_notin)
    ultimately show ?thesis using s' lenn cap unfolding client_repr_def s'' by simp
  qed
qed

text \<open>\<open>get\<close> under the \<open>try\<close>/\<open>catch\<close> of its caller: an exception means that the key is absent.\<close>

definition cl_lookup :: "string \<Rightarrow> lru_cache \<Rightarrow> (string option \<times> lru_cache) option" where
  "cl_lookup k s =
     (case cl_get k s of
        Inr (v, s') \<Rightarrow> Some (Some v, s')
      | Inl Range_error \<Rightarrow> Some (None, s)
      | Inl _ \<Rightarrow> None)"

definition cl_put_opt :: "string \<Rightarrow> string \<Rightarrow> lru_cache \<Rightarrow> lru_cache option" where
  "cl_put_opt k v s = (case cl_put k v s of Inr s' \<Rightarrow> Some s' | Inl _ \<Rightarrow> None)"

lemma client_get_repr:
  assumes r: "client_repr s es"
  shows "\<exists>s'. cl_lookup k s = Some (map_of es k, s') \<and> client_repr s' (lru_touch k es) \<and>
    c_max_size s' = c_max_size s"
proof -
  have ex: "client_exact s" and es: "es = map snd (c_list s)" and cap: "length es \<le> c_max_size s"
    using r by (simp_all add: client_repr_def)
  then have safe: "client_safe s" by (simp add: client_exact_def)
  show ?thesis
  proof (cases "map_of (c_map s) k")
    case None
    then have "map_of es k = None"
      using client_map_of_None [OF ex, of k] es by (simp add: map_of_eq_None_iff)
    with None r show ?thesis by (simp add: cl_lookup_def cl_get_def lru_touch_def)
  next
    case (Some i)
    from cl_get_spec [OF safe Some] obtain v where v: "(i, k, v) \<in> set (c_list s)"
      "cl_get k s = Inr (v, s\<lparr>c_list := (i, k, v) # filter (\<lambda>n. fst n \<noteq> i) (c_list s)\<rparr>)" by blast
    let ?s = "s\<lparr>c_list := (i, k, v) # filter (\<lambda>n. fst n \<noteq> i) (c_list s)\<rparr>"
    have d: "distinct (map fst es)" using client_exact_keys(1) [OF ex] es by simp
    have mem: "(k, v) \<in> set es" using v(1) es by force
    then have mv: "map_of es k = Some v" using d by (intro map_of_is_SomeI)
    have "client_safe ?s" using client_safe_get [OF safe v(2)] .
    moreover have "\<forall>(j, k', w) \<in> set (c_list ?s). map_of (c_map ?s) k' = Some j"
      using ex Some by (auto simp: client_exact_def)
    ultimately have ex': "client_exact ?s" by (simp add: client_exact_def)
    have ents: "map snd (c_list ?s) = (k, v) # del_key k es"
      using client_filter_node [OF ex Some] es by simp
    have "k \<in> fst ` set es" using mem by force
    then have "Suc (length (del_key k es)) = length es" by (rule length_del_key [OF d])
    with cap arg_cong [OF ents, of length] have "length (c_list ?s) \<le> c_max_size ?s" by simp
    with ex' ents mv v(2) show ?thesis
      by (intro exI [of _ ?s]) (simp add: cl_lookup_def client_repr_def lru_touch_def)
  qed
qed

lemma client_repr_distinct: "client_repr s es \<Longrightarrow> distinct (map fst es)"
  using client_exact_keys(1) by (auto simp: client_repr_def)

interpretation client_lru: lru_store cl_put_opt cl_lookup "\<lambda>s. int (c_max_size s)" client_repr
proof unfold_locales
  fix s es k v
  assume r: "client_repr s es"
  then show "distinct (map fst es)" by (rule client_repr_distinct)
  show "\<exists>s'. cl_put_opt k v s = Some s' \<and> client_repr s' (lru_put (int (c_max_size s)) k v es) \<and>
      int (c_max_size s') = int (c_max_size s)"
    using client_put_repr [OF r, of k v] by (auto simp: cl_put_opt_def)
  show "\<exists>s'. cl_lookup k s = Some (map_of es k, s') \<and> client_repr s' (lru_touch k es) \<and>
      int (c_max_size s') = int (c_max_size s)"
    using client_get_repr [OF r, of k] by auto
qed

section \<open>Histories with erase\<close>

datatype client_op = C_put string string | C_get string | C_erase string

text \<open>A \<open>get\<close> of an absent key throws and changes nothing.\<close>

fun client_step :: "client_op \<Rightarrow> lru_cache \<Rightarrow> lru_cache result" where
  "client_step (C_put k v) s = cl_put k v s"
| "client_step (C_get k) s = (case cl_get k s of
      Inr (v, s') \<Rightarrow> Inr s' | Inl Range_error \<Rightarrow> Inr s | Inl e \<Rightarrow> Inl e)"
| "client_step (C_erase k) s = Inr (cl_erase k s)"

fun client_run :: "client_op list \<Rightarrow> lru_cache \<Rightarrow> lru_cache result" where
  "client_run [] s = Inr s"
| "client_run (p # ops) s = andThen (client_step p s) (client_run ops)"

lemma client_step_safe:
  assumes "client_safe s"
  shows "\<exists>s'. client_step p s = Inr s' \<and> client_safe s'"
proof (cases p)
  case (C_put k v)
  obtain s' where "cl_put k v s = Inr s'" using cl_put_eq [OF assms] by blast
  with C_put client_safe_put [OF assms] show ?thesis by auto
next
  case (C_get k)
  show ?thesis
  proof (cases "map_of (c_map s) k")
    case None
    with C_get assms show ?thesis by (simp add: cl_get_def)
  next
    case (Some i)
    then obtain v s' where "cl_get k s = Inr (v, s')" using cl_get_spec [OF assms Some] by blast
    with C_get client_safe_get [OF assms] show ?thesis by auto
  qed
next
  case (C_erase k)
  with client_safe_erase [OF assms] show ?thesis by simp
qed

lemma client_run_safe: "client_safe s \<Longrightarrow> \<exists>s'. client_run ops s = Inr s' \<and> client_safe s'"
proof (induction ops arbitrary: s)
  case (Cons p ops)
  from client_step_safe [OF Cons.prems, of p] obtain s1 where
    "client_step p s = Inr s1" "client_safe s1" by blast
  with Cons.IH [of s1] show ?case by simp
qed simp

text \<open>Runs without erase, as contract operations.\<close>

fun as_client_op :: "(string, string) lru_op \<Rightarrow> client_op" where
  "as_client_op (Put k v) = C_put k v"
| "as_client_op (Get k) = C_get k"

lemma client_run_contract:
  "client_lru.run ops s = Some s' \<Longrightarrow> client_run (map as_client_op ops) s = Inr s'"
proof (induction ops arbitrary: s)
  case (Cons p ops)
  then obtain s1 where s1: "client_lru.step p s = Some s1" "client_lru.run ops s1 = Some s'"
    by (auto split: bind_splits)
  have "client_step (as_client_op p) s = Inr s1"
    using s1(1) by (cases p)
      (auto simp: cl_put_opt_def cl_lookup_def split: sum.splits cxx_error.splits)
  with Cons.IH [OF s1(2)] show ?case by simp
qed simp

section \<open>Properties\<close>

text \<open>
  C31. Memory safety of the client's cache under every operation: no sequence of \<open>put\<close>,
  \<open>get\<close> and \<open>erase\<close> dereferences or erases an invalid iterator, even though \<open>erase\<close> leaves
  nodes behind in the list.
\<close>

theorem client_lru_memory_safe:
  "\<exists>s. client_run ops (lru_cache_new n) = Inr s \<and> client_safe s"
  using client_run_safe [OF client_safe_new] .

text \<open>
  C32. As long as \<open>erase\<close> is not called the client's cache is the same abstract store as the
  server's: it refines the recency list and never holds more than \<open>max_size\<close> keys.
\<close>

theorem client_lru_refines_recency_list:
  "\<exists>s. client_run (map as_client_op ops) (lru_cache_new n) = Inr s \<and>
     map snd (c_list s) = lru_run (int n) ops [] \<and> cl_size s \<le> n"
proof -
  have max: "c_max_size (lru_cache_new n) = n" by (simp add: lru_cache_new_def)
  obtain s where s: "client_lru.run ops (lru_cache_new n) = Some s"
    "client_repr s (lru_run (int n) ops [])" "c_max_size s = n"
    using client_lru.run_repr [OF client_repr_new [of n], of ops] max by auto
  have "client_run (map as_client_op ops) (lru_cache_new n) = Inr s"
    using s(1) by (rule client_run_contract)
  moreover have "cl_size s \<le> n"
    using s(2,3) client_exact_keys(3) [of s] by (simp add: client_repr_def cl_size_def)
  ultimately show ?thesis using s(2) by (auto simp: client_repr_def)
qed

text \<open>
  \<open>erase\<close> breaks both guarantees.  With capacity 1, after put, erase, put, put the cache
  holds two keys; with capacity 2, a put evicts the key written just before it (by way of its
  stale node at the end of the list) and keeps the least recently used one.
\<close>

theorem client_erase_breaks_lru:
  "(\<exists>s. client_run [C_put ''a'' ''1'', C_erase ''a'', C_put ''b'' ''2'', C_put ''c'' ''3''] (lru_cache_new 1) = Inr s \<and>
     cl_size s = 2) \<and>
   (\<exists>s. client_run [C_put ''a'' ''1'', C_erase ''a'', C_put ''b'' ''2'', C_put ''a'' ''3'', C_put ''c'' ''4''] (lru_cache_new 2) = Inr s \<and>
     \<not> cl_exists ''a'' s \<and> cl_exists ''b'' s \<and> cl_exists ''c'' s)"
  by (simp add: lru_cache_new_def cl_put_def cl_erase_def cl_size_def cl_exists_def tab_set_def Let_def)

end
