(* ===== verification/Lru_Server.thy ===== *)
theory Lru_Server
  imports Lru_Spec
begin

text \<open>
  \<open>cache/src/LRU_cache.hpp\<close> at its instance \<open>LRU_Cache<std::string, std::string>\<close>: a hash
  table from keys to nodes and a doubly linked list of heap nodes between two dummies.  The
  heap is explicit, a read or write through a null or dangling pointer is \<open>None\<close>, and every
  pointer assignment of the source is one step of the model.  The contract \<open>lru_store\<close> is
  proved for it by a representation invariant on the heap.
\<close>

section \<open>Nodes and the heap\<close>

record DNode =
  d_prev :: "nat option"
  d_next :: "nat option"
  d_key :: string
  d_val :: string

type_synonym heap = "nat \<rightharpoonup> DNode"

definition deref :: "heap \<Rightarrow> nat option \<Rightarrow> DNode option" where
  "deref h p = Option.bind p h"

text \<open>\<open>p->next = q\<close> and \<open>p->prev = q\<close>\<close>

definition wr_next :: "nat option \<Rightarrow> nat option \<Rightarrow> heap \<Rightarrow> heap option" where
  "wr_next p q h = do { a \<leftarrow> p; x \<leftarrow> h a; Some (h(a \<mapsto> x\<lparr>d_next := q\<rparr>)) }"

definition wr_prev :: "nat option \<Rightarrow> nat option \<Rightarrow> heap \<Rightarrow> heap option" where
  "wr_prev p q h = do { a \<leftarrow> p; x \<leftarrow> h a; Some (h(a \<mapsto> x\<lparr>d_prev := q\<rparr>)) }"

definition wr_val :: "nat \<Rightarrow> string \<Rightarrow> heap \<Rightarrow> heap option" where
  "wr_val a v h = do { x \<leftarrow> h a; Some (h(a \<mapsto> x\<lparr>d_val := v\<rparr>)) }"

record LRU_Cache =
  lmap :: "string \<rightharpoonup> nat"
  lheap :: heap
  lfresh :: nat
  lhead :: nat
  ltail :: nat
  lsize :: int
  lcapacity :: int

section \<open>Operations\<close>

definition DNode_new :: "string \<Rightarrow> string \<Rightarrow> DNode" where
  "DNode_new k v = \<lparr>d_prev = None, d_next = None, d_key = k, d_val = v\<rparr>"

definition LRU_Cache_new :: "int \<Rightarrow> LRU_Cache" where
  "LRU_Cache_new capacity =
     \<lparr>lmap = Map.empty,
      lheap = [0 \<mapsto> (DNode_new '''' '''')\<lparr>d_next := Some 1\<rparr>,
               1 \<mapsto> (DNode_new '''' '''')\<lparr>d_prev := Some 0\<rparr>],
      lfresh = 2, lhead = 0, ltail = 1, lsize = 0, lcapacity = capacity\<rparr>"

definition LRU_Cache_default :: LRU_Cache where
  "LRU_Cache_default = LRU_Cache_new 10"

definition set_capacity :: "int \<Rightarrow> LRU_Cache \<Rightarrow> LRU_Cache" where
  "set_capacity c L = L\<lparr>lcapacity := c\<rparr>"

text \<open>\<open>node->prev->next = node->next; node->next->prev = node->prev;\<close>\<close>

definition remove :: "nat \<Rightarrow> heap \<Rightarrow> heap option" where
  "remove node h = do {
     x \<leftarrow> h node;
     h1 \<leftarrow> wr_next (d_prev x) (d_next x) h;
     y \<leftarrow> h1 node;
     wr_prev (d_next y) (d_prev y) h1 }"

definition add2head :: "nat \<Rightarrow> nat \<Rightarrow> heap \<Rightarrow> heap option" where
  "add2head head node h = do {
     h1 \<leftarrow> wr_prev (Some node) (Some head) h;
     x \<leftarrow> h1 head;
     h2 \<leftarrow> wr_next (Some node) (d_next x) h1;
     y \<leftarrow> h2 head;
     h3 \<leftarrow> wr_prev (d_next y) (Some node) h2;
     wr_next (Some head) (Some node) h3 }"

definition move2head :: "nat \<Rightarrow> nat \<Rightarrow> heap \<Rightarrow> heap option" where
  "move2head head node h = do { h1 \<leftarrow> remove node h; add2head head node h1 }"

definition remove_tail :: "nat \<Rightarrow> heap \<Rightarrow> (nat \<times> heap) option" where
  "remove_tail tail h = do {
     t \<leftarrow> h tail;
     node \<leftarrow> d_prev t;
     h1 \<leftarrow> remove node h;
     Some (node, h1) }"

definition check :: "string \<Rightarrow> LRU_Cache \<Rightarrow> bool" where
  "check key L \<longleftrightarrow> lmap L key \<noteq> None"

definition get :: "string \<Rightarrow> LRU_Cache \<Rightarrow> (string \<times> LRU_Cache) option" where
  "get key L =
     (case lmap L key of
        Some node \<Rightarrow> do {
          h \<leftarrow> move2head (lhead L) node (lheap L);
          x \<leftarrow> h node;
          Some (d_val x, L\<lparr>lheap := h\<rparr>) }
      | None \<Rightarrow> Some ('''', L))"

text \<open>\<open>put\<close> returns the evicted key, or an empty string when nothing was evicted.\<close>

definition put :: "string \<Rightarrow> string \<Rightarrow> LRU_Cache \<Rightarrow> (string \<times> LRU_Cache) option" where
  "put key val L =
     (case lmap L key of
        Some node \<Rightarrow> do {
          h \<leftarrow> move2head (lhead L) node (lheap L);
          h' \<leftarrow> wr_val node val h;
          Some ('''', L\<lparr>lheap := h'\<rparr>) }
      | None \<Rightarrow>
          let node = lfresh L;
              m = (lmap L)(key \<mapsto> node)
          in do {
            h1 \<leftarrow> add2head (lhead L) node ((lheap L)(node \<mapsto> DNode_new key val));
            if lcapacity L < lsize L + 1 then do {
              (r, h2) \<leftarrow> remove_tail (ltail L) h1;
              x \<leftarrow> h2 r;
              Some (d_key x, L\<lparr>lmap := m(d_key x := None), lheap := h2(r := None),
                              lfresh := Suc node, lsize := lsize L + 1 - 1\<rparr>) }
            else Some ('''', L\<lparr>lmap := m, lheap := h1, lfresh := Suc node,
                              lsize := lsize L + 1\<rparr>) })"

text \<open>\<open>all_key\<close> lists the keys in the iteration order of the hash table, which the
  standard leaves open: \<open>order\<close> is any enumeration of candidate keys.\<close>

definition all_key :: "string list \<Rightarrow> LRU_Cache \<Rightarrow> string list" where
  "all_key order L = filter (\<lambda>k. lmap L k \<noteq> None) order"

section \<open>Links of a chain\<close>

definition nxt :: "heap \<Rightarrow> nat \<rightharpoonup> nat" where
  "nxt h a = Option.bind (h a) d_next"

definition prv :: "heap \<Rightarrow> nat \<rightharpoonup> nat" where
  "prv h a = Option.bind (h a) d_prev"

definition entry :: "heap \<Rightarrow> nat \<Rightarrow> string \<times> string" where
  "entry h a = (case h a of Some x \<Rightarrow> (d_key x, d_val x) | None \<Rightarrow> ('''', ''''))"

fun chain :: "(nat \<rightharpoonup> nat) \<Rightarrow> (nat \<rightharpoonup> nat) \<Rightarrow> nat list \<Rightarrow> bool" where
  "chain n p (a # b # cs) \<longleftrightarrow> n a = Some b \<and> p b = Some a \<and> chain n p (b # cs)"
| "chain n p _ \<longleftrightarrow> True"

lemma chain_append:
  "chain n p (xs @ a # ys) \<longleftrightarrow> chain n p (xs @ [a]) \<and> chain n p (a # ys)"
proof (induction xs)
  case (Cons x xs)
  then show ?case by (cases xs) auto
qed simp

lemma chain_two: "chain n p (xs @ a # b # ys) \<longleftrightarrow>
    chain n p (xs @ [a]) \<and> n a = Some b \<and> p b = Some a \<and> chain n p (b # ys)"
  by (simp add: chain_append [of n p xs a "b # ys"])

lemma chain_upd_next:
  "u \<notin> set (butlast cs) \<Longrightarrow> chain (n(u := v)) p cs = chain n p cs"
proof (induction cs)
  case (Cons a cs)
  then show ?case by (cases cs) auto
qed simp

lemma chain_upd_prev:
  "u \<notin> set (tl cs) \<Longrightarrow> chain n (p(u := v)) cs = chain n p cs"
proof (induction cs)
  case (Cons a cs)
  then show ?case by (cases cs) auto
qed simp

text \<open>Unlinking the middle of three and linking after the first.\<close>

lemma chain_unlink:
  assumes "distinct (xs @ a # u # b # ys)" "chain n p (xs @ a # u # b # ys)"
  shows "chain (n(a := Some b)) (p(b := Some a)) (xs @ a # b # ys)"
proof -
  have c: "chain n p (xs @ [a])" "chain n p (b # ys)"
    using assms(2) chain_two [of n p xs a u "b # ys"] by simp_all
  have "a \<notin> set (butlast (xs @ [a]))" "b \<notin> set (tl (xs @ [a]))"
    "a \<notin> set (butlast (b # ys))" "b \<notin> set (tl (b # ys))"
    using assms(1) by (auto dest: in_set_butlastD list.set_sel(2) simp: tl_append split: list.splits)
  then show ?thesis
    using c unfolding chain_two by (simp add: chain_upd_next chain_upd_prev)
qed

lemma chain_link:
  assumes "distinct (a # b # ys)" "u \<notin> set (a # b # ys)" "chain n p (a # b # ys)"
  shows "chain (n(u := Some b, a := Some u)) (p(u := Some a, b := Some u)) (a # u # b # ys)"
proof -
  have "u \<notin> set (butlast (b # ys))" "a \<notin> set (butlast (b # ys))"
    using assms(1,2) by (auto dest: in_set_butlastD)
  then show ?thesis using assms by (auto simp: chain_upd_next chain_upd_prev)
qed


section \<open>Pointer writes and the link functions\<close>

lemma wr_next_spec:
  assumes "h a = Some x"
  obtains h' where "wr_next (Some a) q h = Some h'" "nxt h' = (nxt h)(a := q)" "prv h' = prv h"
    "entry h' = entry h" "dom h' = dom h"
  by (rule that [of "h(a \<mapsto> x\<lparr>d_next := q\<rparr>)"])
    (use assms in \<open>auto simp: wr_next_def nxt_def prv_def entry_def fun_eq_iff\<close>)

lemma wr_prev_spec:
  assumes "h a = Some x"
  obtains h' where "wr_prev (Some a) q h = Some h'" "prv h' = (prv h)(a := q)" "nxt h' = nxt h"
    "entry h' = entry h" "dom h' = dom h"
  by (rule that [of "h(a \<mapsto> x\<lparr>d_prev := q\<rparr>)"])
    (use assms in \<open>auto simp: wr_prev_def nxt_def prv_def entry_def fun_eq_iff\<close>)

lemma wr_val_spec:
  assumes "h a = Some x"
  obtains h' where "wr_val a v h = Some h'" "prv h' = prv h" "nxt h' = nxt h"
    "entry h' = (entry h)(a := (d_key x, v))" "dom h' = dom h"
  by (rule that [of "h(a \<mapsto> x\<lparr>d_val := v\<rparr>)"])
    (use assms in \<open>auto simp: wr_val_def nxt_def prv_def entry_def fun_eq_iff\<close>)

lemma remove_spec:
  assumes u: "h u = Some x" "nxt h u = Some b" "prv h u = Some a" and dom: "a \<in> dom h" "b \<in> dom h"
    and ne: "u \<noteq> a" "u \<noteq> b" "a \<noteq> b"
  obtains h' where "remove u h = Some h'" "nxt h' = (nxt h)(a := Some b)"
    "prv h' = (prv h)(b := Some a)" "entry h' = entry h" "dom h' = dom h"
proof -
  have x: "d_next x = Some b" "d_prev x = Some a"
    using u by (simp_all add: nxt_def prv_def)
  from dom obtain xa where "h a = Some xa" by auto
  then obtain h1 where h1: "wr_next (Some a) (Some b) h = Some h1" "nxt h1 = (nxt h)(a := Some b)"
      "prv h1 = prv h" "entry h1 = entry h" "dom h1 = dom h"
    using wr_next_spec by metis
  from u h1(5) obtain y where y: "h1 u = Some y" by (metis domD domI)
  have yn: "d_next y = Some b" "d_prev y = Some a"
    using y u(2,3) ne h1(2,3) by (auto simp: nxt_def prv_def fun_eq_iff dest: spec [of _ u])
  from dom(2) h1(5) obtain xb where "h1 b = Some xb" by auto
  then obtain h2 where h2: "wr_prev (Some b) (Some a) h1 = Some h2" "prv h2 = (prv h1)(b := Some a)"
      "nxt h2 = nxt h1" "entry h2 = entry h1" "dom h2 = dom h1"
    using wr_prev_spec by metis
  show thesis
    by (rule that [of h2]) (use u x h1 h2 y yn in \<open>simp_all add: remove_def\<close>)
qed

lemma add2head_spec:
  assumes hh: "hh \<in> dom h" "nxt h hh = Some b" and dom: "b \<in> dom h" "u \<in> dom h"
    and ne: "u \<noteq> hh" "u \<noteq> b" "hh \<noteq> b"
  obtains h' where "add2head hh u h = Some h'" "nxt h' = (nxt h)(u := Some b, hh := Some u)"
    "prv h' = (prv h)(u := Some hh, b := Some u)" "entry h' = entry h" "dom h' = dom h"
proof -
  from dom obtain xu where "h u = Some xu" by auto
  then obtain h1 where h1: "wr_prev (Some u) (Some hh) h = Some h1" "prv h1 = (prv h)(u := Some hh)"
      "nxt h1 = nxt h" "entry h1 = entry h" "dom h1 = dom h"
    using wr_prev_spec by metis
  from hh(1) h1(5) obtain x where x: "h1 hh = Some x" by auto
  have xn: "d_next x = Some b" using x hh(2) h1(3) by (auto simp: nxt_def fun_eq_iff dest: spec [of _ hh])
  from dom(2) h1(5) obtain yu where "h1 u = Some yu" by auto
  then obtain h2 where h2: "wr_next (Some u) (Some b) h1 = Some h2" "nxt h2 = (nxt h1)(u := Some b)"
      "prv h2 = prv h1" "entry h2 = entry h1" "dom h2 = dom h1"
    using wr_next_spec by metis
  from hh(1) h1(5) h2(5) obtain y where y: "h2 hh = Some y" by auto
  have yn: "d_next y = Some b"
    using y hh(2) ne h1(3) h2(2) by (auto simp: nxt_def fun_eq_iff dest: spec [of _ hh])
  from dom(1) h1(5) h2(5) obtain zb where "h2 b = Some zb" by auto
  then obtain h3 where h3: "wr_prev (Some b) (Some u) h2 = Some h3" "prv h3 = (prv h2)(b := Some u)"
      "nxt h3 = nxt h2" "entry h3 = entry h2" "dom h3 = dom h2"
    using wr_prev_spec by metis
  from hh(1) h1(5) h2(5) h3(5) have "hh \<in> dom h3" by simp
  then obtain zh where "h3 hh = Some zh" by blast
  then obtain h4 where h4: "wr_next (Some hh) (Some u) h3 = Some h4" "nxt h4 = (nxt h3)(hh := Some u)"
      "prv h4 = prv h3" "entry h4 = entry h3" "dom h4 = dom h3"
    using wr_next_spec by metis
  show thesis
    by (rule that [of h4]) (use x xn y yn h1 h2 h3 h4 in \<open>simp_all add: add2head_def\<close>)
qed

section \<open>The representation invariant\<close>

text \<open>
  \<open>list_on h hh ns tt\<close>: the heap holds exactly the nodes \<open>hh\<close>, \<open>ns\<close>, \<open>tt\<close>, all distinct,
  and they are linked in this order in both directions.
\<close>

definition list_on :: "heap \<Rightarrow> nat \<Rightarrow> nat list \<Rightarrow> nat \<Rightarrow> bool" where
  "list_on h hh ns tt \<longleftrightarrow> distinct (hh # ns @ [tt]) \<and> set (hh # ns @ [tt]) = dom h \<and>
     chain (nxt h) (prv h) (hh # ns @ [tt])"

definition lru_rep :: "LRU_Cache \<Rightarrow> nat list \<Rightarrow> bool" where
  "lru_rep L ns \<longleftrightarrow> list_on (lheap L) (lhead L) ns (ltail L) \<and>
     (\<forall>a \<in> dom (lheap L). a < lfresh L) \<and>
     (\<forall>k a. lmap L k = Some a \<longleftrightarrow> a \<in> set ns \<and> fst (entry (lheap L) a) = k) \<and>
     lsize L = int (length ns)"

definition lru_repr :: "LRU_Cache \<Rightarrow> (string, string) recency \<Rightarrow> bool" where
  "lru_repr L es \<longleftrightarrow> (\<exists>ns. lru_rep L ns \<and> es = map (entry (lheap L)) ns)"

lemma lru_rep_keys_distinct:
  assumes "lru_rep L ns"
  shows "distinct (map (fst \<circ> entry (lheap L)) ns)"
proof -
  have "inj_on (fst \<circ> entry (lheap L)) (set ns)"
  proof (rule inj_onI)
    fix a b assume ab: "a \<in> set ns" "b \<in> set ns"
      "(fst \<circ> entry (lheap L)) a = (fst \<circ> entry (lheap L)) b"
    then have "lmap L (fst (entry (lheap L) a)) = Some a" "lmap L (fst (entry (lheap L) a)) = Some b"
      using assms by (auto simp: lru_rep_def)
    then show "a = b" by simp
  qed
  moreover have "distinct ns" using assms by (auto simp: lru_rep_def list_on_def)
  ultimately show ?thesis by (simp add: distinct_map)
qed

lemma list_on_split:
  assumes "list_on h hh (pre @ u # post) tt"
  obtains xs a b ys where "hh # pre = xs @ [a]" "post @ [tt] = b # ys"
    "hh # (pre @ u # post) @ [tt] = xs @ a # u # b # ys"
proof -
  obtain xs a where xs: "hh # pre = xs @ [a]" by (metis list.discI rev_exhaust)
  obtain b ys where ys: "post @ [tt] = b # ys" by (cases post) auto
  have "hh # (pre @ u # post) @ [tt] = (hh # pre) @ u # (post @ [tt])" by simp
  also have "\<dots> = xs @ a # u # b # ys" using xs ys by simp
  finally show thesis using xs ys that by blast
qed

text \<open>\<open>remove\<close> unlinks a node but leaves it allocated.\<close>

lemma list_on_remove:
  assumes l: "list_on h hh (pre @ u # post) tt"
  obtains h' where "remove u h = Some h'" "entry h' = entry h" "dom h' = dom h"
    "distinct (hh # (pre @ post) @ [tt])" "chain (nxt h') (prv h') (hh # (pre @ post) @ [tt])"
proof -
  from list_on_split [OF l] obtain xs a b ys where sp: "hh # pre = xs @ [a]" "post @ [tt] = b # ys"
    "hh # (pre @ u # post) @ [tt] = xs @ a # u # b # ys" by metis
  have d: "distinct (xs @ a # u # b # ys)" and c: "chain (nxt h) (prv h) (xs @ a # u # b # ys)"
    and s: "set (xs @ a # u # b # ys) = dom h"
    using l sp(3) unfolding list_on_def by metis+
  have links: "nxt h u = Some b" "prv h u = Some a"
    using c chain_two [of "nxt h" "prv h" xs a u "b # ys"] by simp_all
  from s obtain x where "h u = Some x" by force
  moreover have "a \<in> dom h" "b \<in> dom h" "u \<noteq> a" "u \<noteq> b" "a \<noteq> b"
    using s d by auto
  ultimately obtain h' where h': "remove u h = Some h'" "nxt h' = (nxt h)(a := Some b)"
      "prv h' = (prv h)(b := Some a)" "entry h' = entry h" "dom h' = dom h"
    using links remove_spec by metis
  have join: "hh # (pre @ post) @ [tt] = xs @ a # b # ys" using sp(1,2) by (metis append_Cons append_assoc append_Nil)
  have "chain (nxt h') (prv h') (xs @ a # b # ys)"
    unfolding h'(2,3) using d c by (rule chain_unlink)
  moreover have "distinct (xs @ a # b # ys)" using d by auto
  ultimately show thesis using that h' join by metis
qed

lemma chain_add2head:
  assumes d: "distinct (hh # ns @ [tt])" "u \<notin> set (hh # ns @ [tt])"
    and s: "set (hh # ns @ [tt]) \<subseteq> dom h" "u \<in> dom h"
    and c: "chain (nxt h) (prv h) (hh # ns @ [tt])"
  obtains h' where "add2head hh u h = Some h'" "entry h' = entry h" "dom h' = dom h"
    "chain (nxt h') (prv h') (hh # (u # ns) @ [tt])"
proof -
  obtain b ys where ys: "ns @ [tt] = b # ys" by (cases ns) auto
  have "nxt h hh = Some b" using c ys by simp
  then obtain h' where h': "add2head hh u h = Some h'" "nxt h' = (nxt h)(u := Some b, hh := Some u)"
      "prv h' = (prv h)(u := Some hh, b := Some u)" "entry h' = entry h" "dom h' = dom h"
    using add2head_spec [of hh h b u] d s ys by auto
  have "chain (nxt h') (prv h') (hh # u # b # ys)"
    unfolding h'(2,3) using d c ys by (intro chain_link) simp_all
  with h' ys that show thesis by simp
qed

lemma list_on_move2head:
  assumes l: "list_on h hh (pre @ u # post) tt"
  obtains h' where "move2head hh u h = Some h'" "entry h' = entry h"
    "list_on h' hh (u # pre @ post) tt"
proof -
  from list_on_remove [OF l] obtain h1 where h1: "remove u h = Some h1" "entry h1 = entry h"
    "dom h1 = dom h" "distinct (hh # (pre @ post) @ [tt])"
    "chain (nxt h1) (prv h1) (hh # (pre @ post) @ [tt])" by metis
  have s: "set (hh # (pre @ u # post) @ [tt]) = dom h" "distinct (hh # (pre @ u # post) @ [tt])"
    using l by (simp_all add: list_on_def)
  have pre: "u \<notin> set (hh # (pre @ post) @ [tt])" "set (hh # (pre @ post) @ [tt]) \<subseteq> dom h1" "u \<in> dom h1"
    using s h1(3) by auto
  obtain h2 where h2: "add2head hh u h1 = Some h2" "entry h2 = entry h1" "dom h2 = dom h1"
    "chain (nxt h2) (prv h2) (hh # (u # pre @ post) @ [tt])"
    using chain_add2head [OF h1(4) pre h1(5)] by blast
  have "list_on h2 hh (u # pre @ post) tt"
    using h1 h2 s by (auto simp: list_on_def)
  with h1 h2 that show thesis by (simp add: move2head_def)
qed

section \<open>The operations on represented states\<close>

lemma entry_in_map:
  assumes "lru_rep L ns" "lmap L k = Some u"
  obtains pre post where "ns = pre @ u # post" "fst (entry (lheap L) u) = k"
  using assms by (metis lru_rep_def split_list)

lemma entries_move:
  assumes rep: "lru_rep L ns" and ns: "ns = pre @ u # post"
  shows "del_key (fst (entry (lheap L) u)) (map (entry (lheap L)) ns) =
           map (entry (lheap L)) (pre @ post)"
proof -
  have "distinct (map (fst \<circ> entry (lheap L)) ns)"
    using rep by (rule lru_rep_keys_distinct)
  then show ?thesis using ns by (auto simp: del_key_notin image_image)
qed

lemma repr_map_of:
  assumes rep: "lru_rep L ns" and k: "lmap L k = Some u"
  shows "map_of (map (entry (lheap L)) ns) k = Some (snd (entry (lheap L) u))"
proof -
  have "distinct (map fst (map (entry (lheap L)) ns))"
    using lru_rep_keys_distinct [OF rep] by simp
  moreover have "(k, snd (entry (lheap L) u)) \<in> set (map (entry (lheap L)) ns)"
    using rep k by (force simp: lru_rep_def image_iff)
  ultimately show ?thesis by (rule map_of_is_SomeI)
qed

lemma repr_map_of_None:
  assumes rep: "lru_rep L ns"
  shows "lmap L k = None \<longleftrightarrow> k \<notin> fst ` set (map (entry (lheap L)) ns)"
proof -
  have "(\<exists>a. lmap L k = Some a) \<longleftrightarrow> (\<exists>a \<in> set ns. fst (entry (lheap L) a) = k)"
    using rep unfolding lru_rep_def by metis
  then show ?thesis by (cases "lmap L k") (auto simp: image_iff)
qed

text \<open>A hit moves the node to the front, with the old or a new value.\<close>

lemma move_repr:
  assumes rep: "lru_rep L ns" and k: "lmap L k = Some u"
  obtains h pre post where "move2head (lhead L) u (lheap L) = Some h" "entry h = entry (lheap L)"
    "ns = pre @ u # post" "lru_rep (L\<lparr>lheap := h\<rparr>) (u # pre @ post)" "u \<in> dom h"
    "map (entry h) (u # pre @ post) = (k, snd (entry (lheap L) u)) # del_key k (map (entry (lheap L)) ns)"
proof -
  from entry_in_map [OF rep k] obtain pre post where
    ns: "ns = pre @ u # post" "fst (entry (lheap L) u) = k" by metis
  have l: "list_on (lheap L) (lhead L) (pre @ u # post) (ltail L)"
    using rep ns by (simp add: lru_rep_def)
  from list_on_move2head [OF l] obtain h where h: "move2head (lhead L) u (lheap L) = Some h"
    "entry h = entry (lheap L)" "list_on h (lhead L) (u # pre @ post) (ltail L)" by metis
  have "dom h = set (lhead L # (u # pre @ post) @ [ltail L])"
    "dom (lheap L) = set (lhead L # (pre @ u # post) @ [ltail L])"
    using h(3) l unfolding list_on_def by blast+
  then have dom: "dom h = dom (lheap L)" by auto
  have "lru_rep (L\<lparr>lheap := h\<rparr>) (u # pre @ post)"
    using rep h ns dom by (auto simp: lru_rep_def)
  moreover have "map (entry h) (u # pre @ post) =
      (k, snd (entry (lheap L) u)) # del_key k (map (entry (lheap L)) ns)"
  proof -
    have "entry (lheap L) u = (k, snd (entry (lheap L) u))"
      using ns(2) by (cases "entry (lheap L) u") simp
    then show ?thesis
      using entries_move [OF rep ns(1)] unfolding ns(2) h(2) by (metis list.simps(9))
  qed
  moreover have "u \<in> dom h"
  proof -
    have "u \<in> set (lhead L # (u # pre @ post) @ [ltail L])" by simp
    with h(3) show ?thesis unfolding list_on_def by blast
  qed
  ultimately show thesis by (intro that [of h pre post] h ns(1))
qed

lemma check_iff:
  assumes "lru_repr L es"
  shows "check k L \<longleftrightarrow> k \<in> fst ` set es"
proof -
  from assms obtain ns where rep: "lru_rep L ns" and es: "es = map (entry (lheap L)) ns"
    by (auto simp: lru_repr_def)
  show ?thesis using repr_map_of_None [OF rep, of k] es by (auto simp: check_def)
qed

lemma get_hit:
  assumes "lru_repr L es" "map_of es k = Some v"
  shows "\<exists>L'. get k L = Some (v, L') \<and> lru_repr L' (lru_touch k es) \<and> lcapacity L' = lcapacity L"
proof -
  from assms(1) obtain ns where rep: "lru_rep L ns" and es: "es = map (entry (lheap L)) ns"
    by (auto simp: lru_repr_def)
  have "k \<in> fst ` set es" using assms(2) by (metis domI dom_map_of_conv_image_fst)
  then obtain u where u: "lmap L k = Some u"
    using repr_map_of_None [OF rep, of k] es by auto
  with repr_map_of [OF rep u] assms(2) es have v: "v = snd (entry (lheap L) u)" by simp
  from move_repr [OF rep u] obtain h pre post where
    m: "move2head (lhead L) u (lheap L) = Some h" "entry h = entry (lheap L)"
      "lru_rep (L\<lparr>lheap := h\<rparr>) (u # pre @ post)" "u \<in> dom h"
      "map (entry h) (u # pre @ post) = (k, v) # del_key k es"
    unfolding es v by metis
  from m(4) obtain x where x: "h u = Some x" by blast
  have "d_val x = v" unfolding v m(2) [symmetric] using x by (simp add: entry_def)
  then have "get k L = Some (v, L\<lparr>lheap := h\<rparr>)"
    using u m(1) x by (simp add: get_def)
  moreover have "lru_repr (L\<lparr>lheap := h\<rparr>) (lru_touch k es)"
    unfolding lru_repr_def lru_touch_def using m(3,5) assms(2)
    by (intro exI [of _ "u # pre @ post"]) simp
  ultimately show ?thesis by simp
qed

lemma get_miss:
  assumes "lru_repr L es" "map_of es k = None"
  shows "get k L = Some ('''', L)"
proof -
  have "\<not> check k L" using assms by (simp add: check_iff map_of_eq_None_iff)
  then show ?thesis by (simp add: get_def check_def)
qed

lemma put_hit:
  assumes r: "lru_repr L es" and k: "k \<in> fst ` set es"
  shows "\<exists>L'. put k v L = Some ('''', L') \<and> lru_repr L' ((k, v) # del_key k es) \<and> lcapacity L' = lcapacity L"
proof -
  from r obtain ns where rep: "lru_rep L ns" and es: "es = map (entry (lheap L)) ns"
    by (auto simp: lru_repr_def)
  obtain u where u: "lmap L k = Some u"
    using repr_map_of_None [OF rep, of k] es k by auto
  from move_repr [OF rep u] obtain h pre post where
    m: "move2head (lhead L) u (lheap L) = Some h" "entry h = entry (lheap L)" "ns = pre @ u # post"
      "lru_rep (L\<lparr>lheap := h\<rparr>) (u # pre @ post)" "u \<in> dom h"
      "map (entry h) (u # pre @ post) = (k, snd (entry (lheap L) u)) # del_key k es"
    unfolding es by metis
  from m(5) obtain x where x: "h u = Some x" by blast
  from wr_val_spec [of h u x v, OF x] obtain h' where h': "wr_val u v h = Some h'" "prv h' = prv h"
    "nxt h' = nxt h" "entry h' = (entry h)(u := (d_key x, v))" "dom h' = dom h" by metis
  have kx: "d_key x = k"
    using m(6) x by (simp add: entry_def)
  have e: "entry h' a = (if a = u then (k, v) else entry h a)" for a
    unfolding h'(4) kx by simp
  have "put k v L = Some ('''', L\<lparr>lheap := h'\<rparr>)"
    using u m(1) h'(1) by (simp add: put_def)
  moreover have "lru_rep (L\<lparr>lheap := h'\<rparr>) (u # pre @ post)"
    using m(4) m(6) h'(2,3,5) e unfolding lru_rep_def list_on_def by (auto split: if_splits)
  moreover have "map (entry h') (u # pre @ post) = (k, v) # del_key k es"
  proof -
    have "distinct (u # pre @ post)" using m(4) by (auto simp: lru_rep_def list_on_def)
    then have "map (entry h') (pre @ post) = map (entry h) (pre @ post)"
      by (intro map_cong) (auto simp: e)
    with m(6) show ?thesis by (simp add: e del: map_append)
  qed
  ultimately show ?thesis unfolding lru_repr_def
    by (intro exI [of _ "L\<lparr>lheap := h'\<rparr>"] conjI exI [of _ "u # pre @ post"]) simp_all
qed

text \<open>A miss allocates a node and links it at the front.\<close>

lemma alloc_spec:
  assumes "h u = None"
  shows "nxt (h(u \<mapsto> DNode_new k v)) = nxt h" "prv (h(u \<mapsto> DNode_new k v)) = prv h"
    "entry (h(u \<mapsto> DNode_new k v)) = (entry h)(u := (k, v))"
  using assms by (auto simp: nxt_def prv_def entry_def DNode_new_def fun_eq_iff)

lemma list_on_alloc:
  assumes l: "list_on h hh ns tt" and u: "h u = None"
  obtains h' where "add2head hh u (h(u \<mapsto> DNode_new k v)) = Some h'"
    "list_on h' hh (u # ns) tt" "entry h' = (entry h)(u := (k, v))" "dom h' = insert u (dom h)"
proof -
  let ?h = "h(u \<mapsto> DNode_new k v)"
  have "u \<notin> dom h" using u by auto
  then have new: "u \<notin> set (hh # ns @ [tt])" using l unfolding list_on_def by metis
  have d: "distinct (hh # ns @ [tt])" "set (hh # ns @ [tt]) \<subseteq> dom ?h"
    "chain (nxt ?h) (prv ?h) (hh # ns @ [tt])"
    using l by (auto simp: list_on_def alloc_spec [of h u, OF u])
  have "u \<in> dom ?h" by simp
  from chain_add2head [OF d(1) new d(2) this d(3)] obtain h' where
    h': "add2head hh u ?h = Some h'" "entry h' = entry ?h" "dom h' = dom ?h"
    "chain (nxt h') (prv h') (hh # (u # ns) @ [tt])" by metis
  have dom: "set (hh # (u # ns) @ [tt]) = dom h'"
  proof -
    have "set (hh # ns @ [tt]) = dom h" using l by (simp add: list_on_def)
    then show ?thesis using h'(3) by auto
  qed
  have "distinct (hh # (u # ns) @ [tt])" using d(1) new by auto
  with dom h'(4) have "list_on h' hh (u # ns) tt" unfolding list_on_def by blast
  then show thesis
    using that h' alloc_spec(3) [of h u, OF u] by simp
qed

text \<open>Evicting the last node: it is unlinked, forgotten by the table and freed.\<close>

lemma nxt_free: "nxt (h(r := None)) = (nxt h)(r := None)"
  and prv_free: "prv (h(r := None)) = (prv h)(r := None)"
  by (auto simp: nxt_def prv_def fun_eq_iff)

lemma list_on_evict:
  assumes l: "list_on h hh (ns @ [r]) tt"
  obtains h' x where "remove_tail tt h = Some (r, h')" "h' r = Some x" "d_key x = fst (entry h r)"
    "list_on (h'(r := None)) hh ns tt" "entry h' = entry h"
proof -
  have c: "chain (nxt h) (prv h) (hh # (ns @ [r]) @ [tt])" and dom: "set (hh # (ns @ [r]) @ [tt]) = dom h"
    and d: "distinct (hh # (ns @ [r]) @ [tt])"
    using l unfolding list_on_def by blast+
  have "prv h tt = Some r"
    using c chain_two [of "nxt h" "prv h" "hh # ns" r tt "[]"] by simp
  moreover have "tt \<in> dom h" "r \<in> dom h" using dom by auto
  ultimately obtain t where t: "h tt = Some t" "d_prev t = Some r"
    by (auto simp: prv_def)
  have l': "list_on h hh (ns @ r # []) tt" using l by simp
  from list_on_remove [OF l'] obtain h' where h': "remove r h = Some h'" "entry h' = entry h"
    "dom h' = dom h" "distinct (hh # (ns @ []) @ [tt])"
    "chain (nxt h') (prv h') (hh # (ns @ []) @ [tt])" by metis
  from \<open>r \<in> dom h\<close> h'(3) obtain x where x: "h' r = Some x" by blast
  have rt: "remove_tail tt h = Some (r, h')"
    using t h'(1) by (simp add: remove_tail_def)
  have kx: "d_key x = fst (entry h r)"
    unfolding h'(2) [symmetric] using x by (simp add: entry_def)
  have nr: "r \<notin> set (hh # ns @ [tt])" using d by auto
  have "chain (nxt (h'(r := None))) (prv (h'(r := None))) (hh # ns @ [tt])"
    using h'(5) nr unfolding nxt_free prv_free
    by (subst chain_upd_next, blast dest: in_set_butlastD)
      (subst chain_upd_prev, auto)
  moreover have "set (hh # ns @ [tt]) = dom (h'(r := None))"
    using dom h'(3) nr by auto
  moreover have "distinct (hh # ns @ [tt])" using h'(4) by simp
  ultimately have "list_on (h'(r := None)) hh ns tt" unfolding list_on_def by blast
  with rt x kx h'(2) that show thesis by blast
qed

lemma lru_rep_table:
  assumes rep: "lru_rep L ns" and k: "lmap L k = None" and u: "u = lfresh L"
  shows "((lmap L)(k \<mapsto> u)) k' = Some a \<longleftrightarrow>
    a \<in> set (u # ns) \<and> fst (((entry (lheap L))(u := (k, v))) a) = k'"
proof -
  have nu: "u \<notin> set ns"
  proof
    assume "u \<in> set ns"
    then have "u \<in> dom (lheap L)" using rep by (auto simp: lru_rep_def list_on_def)
    with rep u show False by (auto simp: lru_rep_def)
  qed
  have "lmap L k'' = Some a' \<longleftrightarrow> a' \<in> set ns \<and> fst (entry (lheap L) a') = k''" for k'' a'
    using rep by (simp add: lru_rep_def)
  from this [of k' a] this [of k a] nu k show ?thesis by auto
qed

lemma put_new:
  assumes r: "lru_repr L es" and k: "k \<notin> fst ` set es"
  shows "\<exists>L' e. put k v L = Some (e, L') \<and> lru_repr L' (lru_put (lcapacity L) k v es) \<and>
    lcapacity L' = lcapacity L \<and>
    e = (if lcapacity L < int (length es) + 1 then fst (last ((k, v) # es)) else '''')"
proof -
  from r obtain ns where rep: "lru_rep L ns" and es: "es = map (entry (lheap L)) ns"
    by (auto simp: lru_repr_def)
  have kn: "lmap L k = None" using repr_map_of_None [OF rep, of k] es k by simp
  let ?u = "lfresh L"
  have un: "lheap L ?u = None" using rep unfolding lru_rep_def by (metis domI less_irrefl not_None_eq)
  have l: "list_on (lheap L) (lhead L) ns (ltail L)" using rep by (simp add: lru_rep_def)
  from list_on_alloc [OF l un] obtain h1 where
    h1: "add2head (lhead L) ?u ((lheap L)(?u \<mapsto> DNode_new k v)) = Some h1"
      "list_on h1 (lhead L) (?u # ns) (ltail L)" "entry h1 = (entry (lheap L))(?u := (k, v))"
      "dom h1 = insert ?u (dom (lheap L))" by metis
  have unin: "?u \<notin> set ns" using h1(2) by (simp add: list_on_def)
  have e1: "map (entry h1) (?u # ns) = (k, v) # es"
    using unin unfolding h1(3) es by (auto intro: map_cong)
  have size: "lsize L = int (length es)" using rep es by (simp add: lru_rep_def)
  have tab: "((lmap L)(k \<mapsto> ?u)) k' = Some a \<longleftrightarrow> a \<in> set (?u # ns) \<and> fst (entry h1 a) = k'" for k' a
    unfolding h1(3) by (rule lru_rep_table [OF rep kn refl])
  have below: "\<forall>a \<in> dom h1. a < Suc ?u"
    using rep h1(4) by (auto simp: lru_rep_def less_Suc_eq)
  show ?thesis
  proof (cases "lcapacity L < lsize L + 1")
    case False
    let ?L = "L\<lparr>lmap := (lmap L)(k \<mapsto> ?u), lheap := h1, lfresh := Suc ?u, lsize := lsize L + 1\<rparr>"
    have "put k v L = Some ('''', ?L)"
      using kn h1(1) False by (simp add: put_def Let_def)
    moreover have "lru_rep ?L (?u # ns)"
      using h1(2) below tab size es unfolding lru_rep_def by simp
    ultimately show ?thesis
      using e1 False size k unfolding lru_repr_def lru_put_def
      by (intro exI [of _ ?L] exI [of _ "''''"] conjI exI [of _ "?u # ns"]) simp_all
  next
    case True
    obtain ms q where ms: "?u # ns = ms @ [q]" by (metis list.discI rev_exhaust)
    from list_on_evict [OF h1(2) [unfolded ms]] obtain h2 x where
      h2: "remove_tail (ltail L) h1 = Some (q, h2)" "h2 q = Some x" "d_key x = fst (entry h1 q)"
        "list_on (h2(q := None)) (lhead L) ms (ltail L)" "entry h2 = entry h1" by metis
    let ?m = "((lmap L)(k \<mapsto> ?u))(d_key x := None)"
    let ?L = "L\<lparr>lmap := ?m, lheap := h2(q := None), lfresh := Suc ?u, lsize := lsize L + 1 - 1\<rparr>"
    have put: "put k v L = Some (d_key x, ?L)"
      using kn h1(1) True h2(1,2) by (simp add: put_def Let_def)
    have q: "q \<notin> set ms" using h1(2) unfolding ms by (auto simp: list_on_def)
    have e2: "entry (h2(q := None)) a = entry h1 a" if "a \<in> set ms" for a
      using that q fun_cong [OF h2(5), of a] by (auto simp: entry_def)
    have qmem: "q \<in> set (?u # ns)" unfolding ms by simp
    have tab2: "?m k' = Some a \<longleftrightarrow> a \<in> set ms \<and> fst (entry (h2(q := None)) a) = k'" for k' a
    proof (cases "k' = d_key x")
      case True
      have "((lmap L)(k \<mapsto> ?u)) (d_key x) = Some q"
        using tab [of "d_key x" q] qmem h2(3) by simp
      then have "fst (entry h1 a) \<noteq> d_key x" if "a \<in> set ms"
        using that tab [of "d_key x" a] q ms by auto
      with True e2 show ?thesis by auto
    next
      case False
      have "a \<in> set (?u # ns) \<longleftrightarrow> a \<in> set ms \<or> a = q" unfolding ms by auto
      with False tab [of k' a] e2 [of a] h2(3) show ?thesis by auto
    qed
    have below2: "\<forall>a \<in> dom (h2(q := None)). a < Suc ?u"
    proof -
      have "dom (h2(q := None)) = set (lhead L # ms @ [ltail L])"
        using h2(4) by (simp add: list_on_def)
      moreover have "dom h1 = set (lhead L # (ms @ [q]) @ [ltail L])"
        using h1(2) unfolding ms by (simp add: list_on_def)
      ultimately show ?thesis using below by auto
    qed
    have len: "length ms = length ns" using arg_cong [OF ms, of length] by simp
    have rep2: "lru_rep ?L ms"
      using h2(4) below2 tab2 size es len unfolding lru_rep_def by simp
    have all: "map (entry h1) ms @ [entry h1 q] = (k, v) # es"
      using e1 unfolding ms by simp
    have "map (entry (h2(q := None))) ms = map (entry h1) ms"
      using e2 by (intro map_cong) auto
    also have "\<dots> = butlast ((k, v) # es)" using all by (metis butlast_snoc)
    finally have "map (entry (h2(q := None))) ms = butlast ((k, v) # es)" .
    moreover have "d_key x = fst (last ((k, v) # es))"
      using h2(3) all by (metis last_snoc)
    ultimately show ?thesis
      using put rep2 True size k unfolding lru_repr_def lru_put_def
      by (intro exI [of _ ?L] exI [of _ "d_key x"] conjI exI [of _ ms])
        (simp_all del: butlast.simps last.simps)
  qed
qed

lemma put_spec:
  assumes r: "lru_repr L es"
  shows "\<exists>L'. put k v L =
      Some (if k \<notin> fst ` set es \<and> lcapacity L < int (length es) + 1
            then fst (last ((k, v) # es)) else '''', L') \<and>
    lru_repr L' (lru_put (lcapacity L) k v es) \<and> lcapacity L' = lcapacity L"
proof (cases "k \<in> fst ` set es")
  case True
  with put_hit [OF r True, of v] show ?thesis by (simp add: lru_put_def)
next
  case False
  with put_new [OF r False, of v] show ?thesis by auto
qed

lemma lru_repr_new: "lru_repr (LRU_Cache_new c) []"
  unfolding lru_repr_def lru_rep_def list_on_def LRU_Cache_new_def
  by (auto simp: nxt_def prv_def DNode_new_def split: if_splits)

lemma lru_repr_distinct: "lru_repr L es \<Longrightarrow> distinct (map fst es)"
  using lru_rep_keys_distinct by (auto simp: lru_repr_def)

section \<open>The contract holds\<close>

text \<open>
  The request handler never calls \<open>get\<close> on an absent key: it calls \<open>check\<close> first.  This pair
  of calls is the lookup of the contract.
\<close>

definition check_get :: "string \<Rightarrow> LRU_Cache \<Rightarrow> (string option \<times> LRU_Cache) option" where
  "check_get key L =
     (if check key L then map_option (\<lambda>(v, L'). (Some v, L')) (get key L) else Some (None, L))"

lemma check_get_spec:
  assumes "lru_repr L es"
  shows "\<exists>L'. check_get k L = Some (map_of es k, L') \<and> lru_repr L' (lru_touch k es) \<and>
    lcapacity L' = lcapacity L"
proof (cases "map_of es k")
  case None
  then have "\<not> check k L" using assms by (simp add: check_iff map_of_eq_None_iff)
  with None assms show ?thesis by (simp add: check_get_def lru_touch_def)
next
  case (Some v)
  then have "check k L"
    using assms by (metis check_iff domI dom_map_of_conv_image_fst)
  with Some get_hit [OF assms Some] show ?thesis by (auto simp: check_get_def)
qed

interpretation server_lru: lru_store "\<lambda>k v L. map_option snd (put k v L)" check_get lcapacity lru_repr
proof unfold_locales
  fix L es k v
  assume r: "lru_repr L es"
  then show "distinct (map fst es)" by (rule lru_repr_distinct)
  show "\<exists>s'. map_option snd (put k v L) = Some s' \<and> lru_repr s' (lru_put (lcapacity L) k v es) \<and>
      lcapacity s' = lcapacity L"
    using put_spec [OF r, of k v] by auto
  show "\<exists>s'. check_get k L = Some (map_of es k, s') \<and> lru_repr s' (lru_touch k es) \<and>
      lcapacity s' = lcapacity L"
    by (rule check_get_spec [OF r])
qed

section \<open>Properties\<close>

text \<open>Any sequence of writes and of check-then-get reads, from some state.\<close>

fun LRU_run :: "(string, string) lru_op list \<Rightarrow> LRU_Cache \<Rightarrow> LRU_Cache option" where
  "LRU_run [] L = Some L"
| "LRU_run (Put k v # ops) L = do { (_, L') \<leftarrow> put k v L; LRU_run ops L' }"
| "LRU_run (Get k # ops) L = do { (_, L') \<leftarrow> check_get k L; LRU_run ops L' }"

lemma LRU_run_run: "LRU_run ops L = server_lru.run ops L"
  by (induction ops L rule: LRU_run.induct) (auto split: bind_splits)

lemma LRU_run_new:
  obtains L where "LRU_run ops (LRU_Cache_new c) = Some L" "lru_repr L (lru_run c ops [])"
    "lcapacity L = c"
  using server_lru.run_repr [OF lru_repr_new, of ops c] LRU_run_run
  by (auto simp: LRU_Cache_new_def)

text \<open>
  C10. The pointer implementation refines the recency list: from the constructor on, every
  sequence of operations runs without a null or dangling access and ends in a heap that
  represents the abstract run, linked in both directions, with a hash table that maps
  exactly the listed keys.
\<close>

theorem lru_refines_recency_list:
  "\<exists>L. LRU_run ops (LRU_Cache_new c) = Some L \<and> lru_repr L (lru_run c ops [])"
  by (rule LRU_run_new [of ops c]) blast

text \<open>
  \<open>put\<close> returns the key it evicts: the least recently used one, and only when the key
  is new and the store is full; otherwise the empty string.
\<close>

theorem put_returns_evicted:
  "\<exists>L L'. LRU_run ops (LRU_Cache_new c) = Some L \<and>
     put k v L = Some (let es = lru_run c ops [] in
       if k \<notin> fst ` set es \<and> c < int (length es) + 1 then fst (last ((k, v) # es)) else '''', L')"
proof (rule LRU_run_new [of ops c])
  fix L assume L: "LRU_run ops (LRU_Cache_new c) = Some L" "lru_repr L (lru_run c ops [])"
    "lcapacity L = c"
  from put_spec [OF L(2), of k v] L(1) show ?thesis unfolding L(3) Let_def by blast
qed

text \<open>
  C23. The store never exceeds its capacity and never leaks: after any operations the heap
  holds \<open>size\<close> nodes and the two dummies, and nothing else.
\<close>

theorem lru_size_and_no_leak:
  assumes "0 \<le> c"
  shows "\<exists>L. LRU_run ops (LRU_Cache_new c) = Some L \<and> lsize L \<le> c \<and>
     int (card (dom (lheap L))) = lsize L + 2"
proof (rule LRU_run_new [of ops c])
  fix L assume L: "LRU_run ops (LRU_Cache_new c) = Some L" "lru_repr L (lru_run c ops [])"
  then obtain ns where rep: "lru_rep L ns" and es: "lru_run c ops [] = map (entry (lheap L)) ns"
    by (auto simp: lru_repr_def)
  have "lsize L = int (length ns)" using rep by (simp add: lru_rep_def)
  moreover have "int (length (lru_run c ops [])) \<le> c"
    using lru_run_length [of "[]" c ops] assms by simp
  moreover have "card (dom (lheap L)) = length ns + 2"
  proof -
    have "dom (lheap L) = set (lhead L # ns @ [ltail L])" "distinct (lhead L # ns @ [ltail L])"
      using rep unfolding lru_rep_def list_on_def by blast+
    then show ?thesis using distinct_card [of "lhead L # ns @ [ltail L]"] by simp
  qed
  ultimately show ?thesis using L(1) es by auto
qed

theorem lru_size_and_no_leak_witness:
  "\<exists>L. LRU_run [Put ''a'' ''1'', Put ''b'' ''2''] (LRU_Cache_new 1) = Some L \<and> lsize L \<le> 1 \<and>
     int (card (dom (lheap L))) = lsize L + 2"
  by (rule lru_size_and_no_leak) simp

text \<open>
  Read your write: a value written to the server's cache is read back as long as fewer
  than \<open>capacity\<close> other keys have been used since, whatever happened before the write.
\<close>

theorem server_read_your_write:
  assumes "k \<notin> op_key ` set later" and "int (card (op_key ` set later)) < c"
  shows "\<exists>L L'. LRU_run (before @ Put k v # later) (LRU_Cache_new c) = Some L \<and>
     get k L = Some (v, L')"
proof (rule LRU_run_new [of before c])
  fix L assume L: "LRU_run before (LRU_Cache_new c) = Some L" "lru_repr L (lru_run c before [])"
    "lcapacity L = c"
  from server_lru.read_your_write [OF L(2) subset_refl assms(1) finite_imageI [OF finite_set]]
  obtain s1 s2 where s: "server_lru.run (Put k v # later) L = Some s1" "check_get k s1 = Some (Some v, s2)"
    using assms(2) L(3) by blast
  have "LRU_run (before @ Put k v # later) (LRU_Cache_new c) = Some s1"
    using L(1) s(1) unfolding LRU_run_run server_lru.run_append by simp
  moreover have "\<exists>L'. get k s1 = Some (v, L')"
    using s(2) by (auto simp: check_get_def split: if_splits option.splits)
  ultimately show ?thesis by blast
qed

theorem server_read_your_write_witness:
  "\<exists>L L'. LRU_run ([Get ''z''] @ Put ''a'' ''1'' # [Put ''b'' ''2'', Get ''b'']) (LRU_Cache_new 2) = Some L \<and>
     get ''a'' L = Some (''1'', L')"
  by (rule server_read_your_write) simp_all

end
