(* ===== verification/Lru_Threads.thy ===== *)
theory Lru_Threads
  imports Lru_Server
begin

text \<open>
  \<open>LRU_Cache::get\<close> reads \<open>node->val\<close> after it has released the mutex.  Its two halves are two
  steps here, \<open>get_locked\<close> and \<open>node_val\<close>, and other threads run whole operations between
  them (each of those holds the mutex until it has ended, or is the first half of another \<open>get\<close>).
\<close>

section \<open>The two halves of get\<close>

definition get_locked :: "string \<Rightarrow> LRU_Cache \<Rightarrow> (nat option \<times> LRU_Cache) option" where
  "get_locked key L =
     (case lmap L key of
        Some node \<Rightarrow> do { h \<leftarrow> move2head (lhead L) node (lheap L); Some (Some node, L\<lparr>lheap := h\<rparr>) }
      | None \<Rightarrow> Some (None, L))"

definition node_val :: "nat \<Rightarrow> LRU_Cache \<Rightarrow> string option" where
  "node_val node L = map_option d_val (lheap L node)"

lemma get_halves:
  "get key L = do { (n, L1) \<leftarrow> get_locked key L;
     case n of None \<Rightarrow> Some ('''', L1) | Some node \<Rightarrow> map_option (\<lambda>v. (v, L1)) (node_val node L1) }"
  by (auto simp: get_def get_locked_def node_val_def bind_eq_Some_conv split: option.splits bind_splits)

lemma node_val_repr:
  assumes "lru_repr L es" "lmap L k = Some u"
  shows "node_val u L = map_of es k \<and> map_of es k \<noteq> None"
proof -
  from assms(1) obtain ns where rep: "lru_rep L ns" and es: "es = map (entry (lheap L)) ns" by (auto simp: lru_repr_def)
  have "u \<in> set ns" using rep assms(2) by (auto simp: lru_rep_def)
  then have "u \<in> dom (lheap L)" using rep by (auto simp: lru_rep_def list_on_def)
  then show ?thesis using repr_map_of [OF rep assms(2)] es by (auto simp: node_val_def entry_def)
qed

section \<open>The node between the two halves\<close>

text \<open>
  \<open>u\<close> is the node of \<open>k\<close> and of no other key, until \<open>k\<close> is evicted; nodes are never allocated
  twice.
\<close>

definition owns :: "string \<Rightarrow> nat \<Rightarrow> LRU_Cache \<Rightarrow> bool" where
  "owns k u L \<longleftrightarrow> u < lfresh L \<and> u \<noteq> lhead L \<and> u \<noteq> ltail L \<and> (\<forall>k'. lmap L k' = Some u \<longrightarrow> k' = k)"

lemma owns_repr:
  assumes "lru_repr L es" "lmap L k = Some u"
  shows "owns k u L"
proof -
  from assms(1) obtain ns where rep: "lru_rep L ns" by (auto simp: lru_repr_def)
  then have "u \<in> set ns" "u \<in> dom (lheap L)" using assms(2) by (auto simp: lru_rep_def list_on_def)
  then show ?thesis using rep assms(2) by (auto simp: owns_def lru_rep_def list_on_def)
qed

lemma put_table:
  assumes "put k' v L = Some (e, L')"
  shows "owns k u L \<Longrightarrow> owns k u L'" "lmap L k = Some u \<Longrightarrow> lmap L' k = Some u \<or> lmap L' k = None \<or> lmap L' k = Some (lfresh L)"
    "lmap L k = Some u \<Longrightarrow> lmap L' k = Some u \<or> lmap L' k = None"
  using assms by (auto simp: put_def owns_def Let_def split: option.splits if_splits bind_splits)

lemma check_get_table: "check_get k' L = Some (r, L') \<Longrightarrow> lmap L' = lmap L \<and> lfresh L' = lfresh L \<and> lhead L' = lhead L \<and> ltail L' = ltail L"
  by (auto simp: check_get_def get_def split: option.splits if_splits bind_splits)

lemma run_table:
  assumes "LRU_run ops L = Some L'" "owns k u L"
  shows "owns k u L'"
  using assms
proof (induction ops L rule: LRU_run.induct)
  case (2 k' v ops L)
  then show ?case using put_table(1) by (auto split: bind_splits)
next
  case (3 k' ops L)
  then show ?case using check_get_table by (fastforce simp: owns_def split: bind_splits)
qed simp

text \<open>A node whose key is gone has been freed.\<close>

lemma freed:
  assumes "lru_repr L es" "owns k u L" "lmap L k = None"
  shows "node_val u L = None"
proof -
  from assms(1) obtain ns where rep: "lru_rep L ns" by (auto simp: lru_repr_def)
  have "u \<notin> set ns"
  proof
    assume "u \<in> set ns"
    then have "lmap L (fst (entry (lheap L) u)) = Some u" using rep by (simp add: lru_rep_def)
    moreover from this have "fst (entry (lheap L) u) = k" using assms(2) by (simp add: owns_def)
    ultimately show False using assms(3) by simp
  qed
  moreover have "dom (lheap L) = set (lhead L # ns @ [ltail L])" using rep unfolding lru_rep_def list_on_def by blast
  ultimately have "u \<notin> dom (lheap L)" using assms(2) by (auto simp: owns_def)
  then show ?thesis by (auto simp: node_val_def)
qed

section \<open>How long the node stays\<close>

text \<open>An operation on the key itself brings it to the front again, maybe with a new value.\<close>

lemma shielded_any_step:
  assumes "shielded K k v es" "op_key p \<in> insert k K" "k \<notin> K" "finite K" "int (card K) < cap"
  shows "\<exists>v'. shielded K k v' (lru_step cap p es)"
proof (cases "op_key p = k")
  case False
  then show ?thesis using shielded_step [OF assms(1) _ assms(3-5), of p] assms(2) by auto
next
  case True
  have d: "distinct (map fst es)" using assms(1) by (simp add: shielded_def)
  have m: "map_of es k = Some v" using assms(1) by (rule shielded_map_of)
  have touched: "shielded K k w ((k, w) # del_key k es)" for w
  proof -
    have "distinct (map fst ((k, w) # del_key k es))"
      using distinct_del_key [OF d, of k] by (auto simp: image_iff del_key_def)
    then show ?thesis unfolding shielded_def by (intro conjI exI [of _ "[]"] exI [of _ "del_key k es"]) simp_all
  qed
  have "k \<in> fst ` set es" using m by (metis domI dom_map_of_conv_image_fst)
  then show ?thesis using True touched m by (cases p) (auto simp: lru_put_def lru_touch_def)
qed

lemma still_there:
  assumes "lru_repr L es" "shielded K k v es" "lmap L k = Some u" "op_key ` set ops \<subseteq> insert k K" "k \<notin> K" "finite K"
    "int (card K) < lcapacity L"
  shows "\<exists>L'. LRU_run ops L = Some L' \<and> lru_repr L' (lru_run (lcapacity L) ops es) \<and> lmap L' k = Some u"
  using assms
proof (induction ops arbitrary: L es v)
  case (Cons p ops)
  let ?cap = "lcapacity L"
  obtain L1 where L1: "server_lru.step p L = Some L1" "lru_repr L1 (lru_step ?cap p es)" "lcapacity L1 = ?cap"
    using server_lru.step_repr [OF Cons.prems(1), of p] by blast
  obtain v1 where v1: "shielded K k v1 (lru_step ?cap p es)"
    using shielded_any_step [OF Cons.prems(2) _ Cons.prems(5,6,7), of p] Cons.prems(4) by auto
  have "lmap L1 k \<noteq> None"
    using check_iff [OF L1(2), of k] shielded_map_of [OF v1] by (metis check_def domI dom_map_of_conv_image_fst)
  moreover have "lmap L1 k = Some u \<or> lmap L1 k = None"
  proof (cases p)
    case (Put k' w)
    with L1(1) obtain e where "put k' w L = Some (e, L1)" by auto
    from put_table(3) [OF this Cons.prems(3)] show ?thesis .
  next
    case (Get k')
    with L1(1) obtain r where "check_get k' L = Some (r, L1)" by auto
    from check_get_table [OF this] Cons.prems(3) show ?thesis by simp
  qed
  ultimately have "lmap L1 k = Some u" by auto
  with Cons.IH [OF L1(2) v1] Cons.prems(4-7) L1(3) obtain L' where
    "LRU_run ops L1 = Some L'" "lru_repr L' (lru_run ?cap ops (lru_step ?cap p es))" "lmap L' k = Some u" by auto
  moreover have "LRU_run (p # ops) L = LRU_run ops L1"
    using L1(1) by (cases p) (auto split: bind_splits)
  ultimately show ?case by simp
qed simp

text \<open>Puts of as many other keys as the store holds drive a key out.\<close>

lemma puts_present:
  assumes "distinct (map fst es)" "distinct ks" "int (length ks) \<le> cap"
  shows "set ks \<subseteq> fst ` set (lru_run cap (map (\<lambda>k. Put k w) ks) es)"
proof
  fix x assume "x \<in> set ks"
  then obtain ks1 ks2 where ks: "ks = ks1 @ x # ks2" by (meson split_list)
  let ?es1 = "lru_run cap (map (\<lambda>k. Put k w) ks1) es"
  have d: "distinct (map fst ?es1)" using assms(1)
    by (induction ks1 arbitrary: es) (simp_all add: lru_put_distinct)
  have cap: "0 < cap" "int (card (set ks2)) < cap" using assms(2,3) ks by (auto simp: distinct_card)
  have "shielded (set ks2) x w (lru_put cap x w ?es1)" using shielded_mono [OF shielded_after_put [OF d cap(1)]] by simp
  moreover have "op_key ` set (map (\<lambda>k. Put k w) ks2) \<subseteq> set ks2" by auto
  moreover have "x \<notin> set ks2" using assms(2) ks by simp
  ultimately have "shielded (set ks2) x w (lru_run cap (map (\<lambda>k. Put k w) ks2) (lru_put cap x w ?es1))"
    using cap(2) by (intro shielded_run) simp_all
  from shielded_map_of [OF this] have "map_of (lru_run cap (map (\<lambda>k. Put k w) ks) es) x = Some w"
    by (simp add: ks lru_run_append)
  then show "x \<in> fst ` set (lru_run cap (map (\<lambda>k. Put k w) ks) es)" by (metis domI dom_map_of_conv_image_fst)
qed

lemma get_locked_hit:
  assumes "lru_repr L es" "get_locked k L = Some (Some u, L1)"
  shows "lru_repr L1 (lru_touch k es)" "lmap L1 k = Some u" "lcapacity L1 = lcapacity L" "shielded {} k (the (map_of es k)) (lru_touch k es)"
proof -
  from assms(2) have u: "lmap L k = Some u" and L1: "\<exists>h. L1 = L\<lparr>lheap := h\<rparr>" by (auto simp: get_locked_def split: option.splits bind_splits)
  from assms(1) obtain v where v: "map_of es k = Some v" using node_val_repr [OF assms(1) u] by auto
  obtain L' where L': "get k L = Some (v, L')" "lru_repr L' (lru_touch k es)" using get_hit [OF assms(1) v] by blast
  moreover have "L' = L1" using L'(1) assms(2) by (auto simp: get_halves bind_eq_Some_conv)
  ultimately show r: "lru_repr L1 (lru_touch k es)" by simp
  show "lmap L1 k = Some u" "lcapacity L1 = lcapacity L" using L1 u by auto
  show "shielded {} k (the (map_of es k)) (lru_touch k es)"
    using lru_repr_distinct [OF r] v unfolding shielded_def
    by (intro conjI exI [of _ "[]"] exI [of _ "del_key k es"]) (simp_all add: lru_touch_def)
qed

section \<open>Properties\<close>

text \<open>
  C17. The read of \<open>get\<close> behind the mutex is safe as long as the other threads use fewer other keys
  than the store holds before it happens: it yields the value the key has by then.  It is a read
  of freed memory as soon as they have stored as many other keys: a hit can be a use after free.
\<close>

theorem get_reads_behind_mutex:
  assumes "lru_repr L es" "get_locked k L = Some (Some node, L1)"
  shows "(\<forall>ops. int (card (op_key ` set ops - {k})) < lcapacity L \<longrightarrow>
      (\<exists>L2 v. LRU_run ops L1 = Some L2 \<and> node_val node L2 = Some v \<and>
        map_of (lru_run (lcapacity L) ops (lru_touch k es)) k = Some v)) \<and>
    (\<forall>ks w. distinct ks \<and> k \<notin> set ks \<and> int (length ks) = lcapacity L \<and> length es \<le> length ks \<longrightarrow>
      (\<exists>L2. LRU_run (map (\<lambda>k. Put k w) ks) L1 = Some L2 \<and> node_val node L2 = None))"
proof (intro conjI allI impI; (elim conjE)?)
  note hit = get_locked_hit [OF assms]
  fix ops :: "(string, string) lru_op list"
  let ?K = "op_key ` set ops - {k}"
  assume "int (card ?K) < lcapacity L"
  then obtain L2 where L2: "LRU_run ops L1 = Some L2" "lru_repr L2 (lru_run (lcapacity L) ops (lru_touch k es))" "lmap L2 k = Some node"
    using still_there [OF hit(1) shielded_mono [OF hit(4), of ?K] hit(2), of ops] hit(3) by auto
  with node_val_repr [OF L2(2,3)] show "\<exists>L2 v. LRU_run ops L1 = Some L2 \<and> node_val node L2 = Some v \<and>
      map_of (lru_run (lcapacity L) ops (lru_touch k es)) k = Some v" by auto
next
  note hit = get_locked_hit [OF assms]
  fix ks :: "string list" and w :: string
  let ?ops = "map (\<lambda>k. Put k w) ks" and ?es = "lru_touch k es"
  assume ks: "distinct ks" "k \<notin> set ks" "int (length ks) = lcapacity L" "length es \<le> length ks"
  obtain L2 where L2: "LRU_run ?ops L1 = Some L2" "lru_repr L2 (lru_run (lcapacity L) ?ops ?es)"
    using server_lru.run_repr [OF hit(1), of ?ops] hit(3) LRU_run_run by auto
  let ?fs = "lru_run (lcapacity L) ?ops ?es"
  have d: "distinct (map fst ?es)" "distinct (map fst ?fs)" using lru_repr_distinct hit(1) L2(2) by auto
  have "distinct (map fst es)" using lru_repr_distinct [OF assms(1)] .
  then have "int (length ?es) \<le> max (lcapacity L) (int (length es))"
    using lru_step_length [of es "lcapacity L" "Get k"] by simp
  then have "int (length ?fs) \<le> lcapacity L" using lru_run_length [OF d(1), of "lcapacity L" ?ops] ks(3,4) by simp
  moreover have "set ks \<subseteq> fst ` set ?fs" using puts_present [OF d(1) ks(1), of "lcapacity L" w] ks(3) by simp
  moreover have "card (fst ` set ?fs) = length ?fs" using distinct_card [OF d(2)] by simp
  ultimately have "set ks = fst ` set ?fs" using distinct_card [OF ks(1)] ks(3) by (intro card_seteq) auto
  then have "lmap L2 k = None" using check_iff [OF L2(2), of k] ks(2) by (simp add: check_def)
  with freed [OF L2(2) run_table [OF L2(1) owns_repr [OF hit(1,2)]]] L2(1)
  show "\<exists>L2. LRU_run ?ops L1 = Some L2 \<and> node_val node L2 = None" by blast
qed

theorem get_reads_behind_mutex_witness:
  "\<exists>node L1 L2. get_locked ''a'' (snd (the (put ''a'' ''1'' (LRU_Cache_new 1)))) = Some (Some node, L1) \<and>
     LRU_run [Put ''b'' ''2''] L1 = Some L2 \<and> node_val node L2 = None"
proof -
  let ?L = "snd (the (put ''a'' ''1'' (LRU_Cache_new 1)))"
  have r: "lru_repr ?L [(''a'', ''1'')]" "lcapacity ?L = 1"
    using put_spec [OF lru_repr_new [of 1], of "''a''" "''1''"] by (auto simp: lru_put_def LRU_Cache_new_def)
  from get_hit [OF r(1), of "''a''" "''1''"] obtain node L1 where g: "get_locked ''a'' ?L = Some (Some node, L1)"
    using check_iff [OF r(1), of "''a''"] by (auto simp: get_halves check_def get_locked_def bind_eq_Some_conv split: option.splits)
  then show ?thesis
    using get_reads_behind_mutex [OF r(1) g, THEN conjunct2, rule_format, of "[''b'']" "''2''"] r(2) by auto
qed

end
