(* ===== verification/Std_Map.thy ===== *)
theory Std_Map
  imports Prelude
begin

text \<open>
  \<open>std::map\<close> as the program uses it: an associative container whose iteration order is the
  order of its keys.  The container is the list of its entries in iteration order; \<open>insert\<close>
  keeps an existing entry, \<open>operator[]\<close> assignment overwrites it, \<open>find\<close> followed by
  \<open>erase(it)\<close> removes it, \<open>lower_bound\<close> is the first entry whose key is not less than the
  argument.  The locale \<open>ordered_map\<close> states the laws of the container that
  its clients rely on; the interpretation discharges them for this model.
\<close>

type_synonym ('k, 'v) smap = "('k \<times> 'v) list"

fun map_insert :: "'k::linorder \<Rightarrow> 'v \<Rightarrow> ('k, 'v) smap \<Rightarrow> ('k, 'v) smap" where
  "map_insert k v [] = [(k, v)]"
| "map_insert k v ((k', v') # m) =
     (if k < k' then (k, v) # (k', v') # m
      else if k = k' then (k', v') # m
      else (k', v') # map_insert k v m)"

fun map_assign :: "'k::linorder \<Rightarrow> 'v \<Rightarrow> ('k, 'v) smap \<Rightarrow> ('k, 'v) smap" where
  "map_assign k v [] = [(k, v)]"
| "map_assign k v ((k', v') # m) =
     (if k < k' then (k, v) # (k', v') # m
      else if k = k' then (k, v) # m
      else (k', v') # map_assign k v m)"

fun map_erase :: "'k::linorder \<Rightarrow> ('k, 'v) smap \<Rightarrow> ('k, 'v) smap" where
  "map_erase k [] = []"
| "map_erase k ((k', v') # m) = (if k = k' then m else (k', v') # map_erase k m)"

fun lower_bound :: "'k::linorder \<Rightarrow> ('k, 'v) smap \<Rightarrow> ('k \<times> 'v) option" where
  "lower_bound k [] = None"
| "lower_bound k ((k', v') # m) = (if k \<le> k' then Some (k', v') else lower_bound k m)"

definition smap_ok :: "('k::linorder, 'v) smap \<Rightarrow> bool" where
  "smap_ok m \<longleftrightarrow> sorted_wrt (<) (map fst m)"

lemma smap_ok_Nil [simp]: "smap_ok []"
  by (simp add: smap_ok_def)

lemma smap_ok_Cons [simp]:
  "smap_ok ((k, v) # m) \<longleftrightarrow> (\<forall>k' \<in> fst ` set m. k < k') \<and> smap_ok m"
  by (auto simp: smap_ok_def)

lemma smap_ok_distinct: "smap_ok m \<Longrightarrow> distinct (map fst m)"
  by (simp add: smap_ok_def strict_sorted_iff)

lemma map_of_below: "\<forall>e \<in> set m. k' < fst e \<Longrightarrow> k \<le> k' \<Longrightarrow> map_of m (k::'k::linorder) = None"
  by (auto simp: map_of_eq_None_iff)

lemma dom_map_insert: "fst ` set (map_insert k v m) = insert k (fst ` set m)"
  by (induction k v m rule: map_insert.induct) auto

lemma dom_map_assign: "fst ` set (map_assign k v m) = insert k (fst ` set m)"
  by (induction k v m rule: map_assign.induct) auto

lemma set_map_erase_subset: "set (map_erase k m) \<subseteq> set m"
  by (induction k m rule: map_erase.induct) auto

lemma smap_ok_insert: "smap_ok m \<Longrightarrow> smap_ok (map_insert k v m)"
  by (induction k v m rule: map_insert.induct) (auto simp: dom_map_insert)

lemma smap_ok_assign: "smap_ok m \<Longrightarrow> smap_ok (map_assign k v m)"
  by (induction k v m rule: map_assign.induct) (auto simp: dom_map_assign)

lemma smap_ok_erase: "smap_ok m \<Longrightarrow> smap_ok (map_erase k m)"
  by (induction k m rule: map_erase.induct) (use set_map_erase_subset in fastforce)+

lemma map_of_insert:
  "smap_ok m \<Longrightarrow> map_of (map_insert k v m) =
     (case map_of m k of None \<Rightarrow> (map_of m)(k \<mapsto> v) | Some _ \<Rightarrow> map_of m)"
  by (induction k v m rule: map_insert.induct)
    (auto simp: fun_eq_iff map_of_below split: option.splits)

lemma map_of_assign: "smap_ok m \<Longrightarrow> map_of (map_assign k v m) = (map_of m)(k \<mapsto> v)"
  by (induction k v m rule: map_assign.induct) (auto simp: fun_eq_iff)

lemma map_of_erase: "smap_ok m \<Longrightarrow> map_of (map_erase k m) = (map_of m)(k := None)"
  by (induction k m rule: map_erase.induct) (auto simp: fun_eq_iff map_of_below)

lemma lower_bound_mem: "lower_bound x m = Some e \<Longrightarrow> e \<in> set m \<and> x \<le> fst e"
  by (induction x m rule: lower_bound.induct) (auto split: if_splits)

lemma lower_bound_least:
  "smap_ok m \<Longrightarrow> lower_bound x m = Some e \<Longrightarrow> e' \<in> set m \<Longrightarrow> x \<le> fst e' \<Longrightarrow> fst e \<le> fst e'"
  by (induction x m rule: lower_bound.induct) (force split: if_splits)+

lemma lower_bound_exists:
  "e \<in> set m \<Longrightarrow> x \<le> fst e \<Longrightarrow> \<exists>e'. lower_bound x m = Some e'"
  by (induction x m rule: lower_bound.induct) auto

lemma lower_bound_Some:
  assumes ok: "smap_ok m"
  shows "lower_bound x m = Some (k, v) \<longleftrightarrow>
     x \<le> k \<and> map_of m k = Some v \<and> (\<forall>k' \<in> dom (map_of m). x \<le> k' \<longrightarrow> k \<le> k')"
    (is "?l \<longleftrightarrow> ?r")
proof
  have d: "distinct (map fst m)"
    using ok by (rule smap_ok_distinct)
  show ?r if l: ?l
    using lower_bound_mem [OF l] lower_bound_least [OF ok l] d
    by (auto simp: dom_map_of_conv_image_fst)
  show ?l if r: ?r
  proof -
    from r have mem: "(k, v) \<in> set m" by (auto dest: map_of_SomeD)
    with r obtain e where e: "lower_bound x m = Some e"
      using lower_bound_exists [OF mem, of x] by auto
    have "fst e \<le> k"
      using lower_bound_least [OF ok e mem] r by simp
    moreover have "k \<le> fst e"
      using r lower_bound_mem [OF e] by (auto simp: dom_map_of_conv_image_fst)
    ultimately have "fst e = k" by simp
    with lower_bound_mem [OF e] mem d have "e = (k, v)"
      by (metis eq_key_imp_eq_value prod.collapse)
    with e show ?l by simp
  qed
qed

lemma lower_bound_None:
  "smap_ok m \<Longrightarrow> lower_bound x m = None \<longleftrightarrow> (\<forall>k' \<in> dom (map_of m). k' < x)"
  by (induction x m rule: lower_bound.induct) (auto simp: dom_map_of_conv_image_fst)

section \<open>The container contract\<close>

locale ordered_map =
  fixes lookup :: "'m \<Rightarrow> 'k::linorder \<Rightarrow> 'v option"
    and ins :: "'k \<Rightarrow> 'v \<Rightarrow> 'm \<Rightarrow> 'm"
    and assign :: "'k \<Rightarrow> 'v \<Rightarrow> 'm \<Rightarrow> 'm"
    and erase :: "'k \<Rightarrow> 'm \<Rightarrow> 'm"
    and lbound :: "'k \<Rightarrow> 'm \<Rightarrow> ('k \<times> 'v) option"
    and invar :: "'m \<Rightarrow> bool"
  assumes invar_ins: "invar m \<Longrightarrow> invar (ins k v m)"
    and invar_assign: "invar m \<Longrightarrow> invar (assign k v m)"
    and invar_erase: "invar m \<Longrightarrow> invar (erase k m)"
    and lookup_ins: "invar m \<Longrightarrow> lookup (ins k v m) =
          (case lookup m k of None \<Rightarrow> (lookup m)(k \<mapsto> v) | Some _ \<Rightarrow> lookup m)"
    and lookup_assign: "invar m \<Longrightarrow> lookup (assign k v m) = (lookup m)(k \<mapsto> v)"
    and lookup_erase: "invar m \<Longrightarrow> lookup (erase k m) = (lookup m)(k := None)"
    and lbound_Some: "invar m \<Longrightarrow> lbound x m = Some (k, v) \<longleftrightarrow>
          x \<le> k \<and> lookup m k = Some v \<and> (\<forall>k' \<in> dom (lookup m). x \<le> k' \<longrightarrow> k \<le> k')"
    and lbound_None: "invar m \<Longrightarrow> lbound x m = None \<longleftrightarrow> (\<forall>k' \<in> dom (lookup m). k' < x)"
    and extensional: "invar m \<Longrightarrow> invar m' \<Longrightarrow> lookup m = lookup m' \<Longrightarrow> m = m'"
begin

text \<open>Loops that insert, assign or erase a list of keys.\<close>

lemma invar_fold_ins: "invar m \<Longrightarrow> invar (fold (\<lambda>x. ins (f x) (g x)) xs m)"
  by (induction xs arbitrary: m) (auto intro: invar_ins)

lemma invar_fold_assign: "invar m \<Longrightarrow> invar (fold (\<lambda>x. assign (f x) (g x)) xs m)"
  by (induction xs arbitrary: m) (auto intro: invar_assign)

lemma invar_fold_erase: "invar m \<Longrightarrow> invar (fold (\<lambda>x. erase (f x)) xs m)"
  by (induction xs arbitrary: m) (auto intro: invar_erase)

lemma lookup_fold_erase:
  "invar m \<Longrightarrow> lookup (fold (\<lambda>x. erase (f x)) xs m) k =
     (if k \<in> f ` set xs then None else lookup m k)"
  by (induction xs arbitrary: m) (auto simp: lookup_erase invar_erase)

lemma lookup_fold_assign_const:
  "invar m \<Longrightarrow> lookup (fold (\<lambda>x. assign (f x) v) xs m) k =
     (if k \<in> f ` set xs then Some v else lookup m k)"
  by (induction xs arbitrary: m) (auto simp: lookup_assign invar_assign)

lemma lookup_fold_ins_const:
  "invar m \<Longrightarrow> lookup (fold (\<lambda>x. ins (f x) v) xs m) k =
     (case lookup m k of Some w \<Rightarrow> Some w | None \<Rightarrow> if k \<in> f ` set xs then Some v else None)"
  by (induction xs arbitrary: m)
    (auto simp: lookup_ins invar_ins split: option.splits if_splits)

text \<open>
  The clockwise search of a hash ring: the first entry at or after a position, else the
  first entry of all (the least key).
\<close>

definition ring_succ :: "'m \<Rightarrow> 'k \<Rightarrow> 'k \<Rightarrow> bool" where
  "ring_succ m x k \<longleftrightarrow> k \<in> dom (lookup m) \<and>
     (if \<exists>k' \<in> dom (lookup m). x \<le> k'
      then x \<le> k \<and> (\<forall>k' \<in> dom (lookup m). x \<le> k' \<longrightarrow> k \<le> k')
      else (\<forall>k' \<in> dom (lookup m). k \<le> k'))"

lemma ring_succ_unique: "ring_succ m x k \<Longrightarrow> ring_succ m x k' \<Longrightarrow> k = k'"
  by (rule antisym) (auto simp: ring_succ_def split: if_splits)

text \<open>Adding points to the ring: the successor is an old successor or a new point.\<close>

lemma ring_succ_superset:
  assumes succ: "ring_succ m' x k'"
    and sub: "dom (lookup m) \<subseteq> dom (lookup m')"
    and old: "k' \<in> dom (lookup m)"
  shows "ring_succ m x k'"
  using assms unfolding ring_succ_def by (auto split: if_splits)

end

lemma smap_ext: "smap_ok m \<Longrightarrow> smap_ok m' \<Longrightarrow> map_of m = map_of m' \<Longrightarrow> m = m'"
proof -
  assume ok: "smap_ok m" "smap_ok m'" and eq: "map_of m = map_of m'"
  have d: "distinct (map fst m)" "distinct (map fst m')"
    using ok by (simp_all add: smap_ok_distinct)
  have "set m = set m'"
    using d eq by (simp add: map_of_inject_set)
  moreover have "sorted (map fst m)" "sorted (map fst m')"
    using ok by (simp_all add: smap_ok_def strict_sorted_iff)
  ultimately show "m = m'"
    using d by (intro map_sorted_distinct_set_unique [where f = fst]) (auto simp: distinct_map)
qed

interpretation sm: ordered_map map_of map_insert map_assign map_erase lower_bound smap_ok
  by unfold_locales
    (auto simp: smap_ok_insert smap_ok_assign smap_ok_erase map_of_insert map_of_assign
       map_of_erase lower_bound_Some lower_bound_None intro: smap_ext)

lemma map_insert_nonempty: "map_insert k v m \<noteq> []"
  using dom_map_insert [of k v m] by auto

lemma fold_insert_nonempty: "fold (\<lambda>j. map_insert (f j) v) xs m \<noteq> [] \<longleftrightarrow> xs \<noteq> [] \<or> m \<noteq> []"
proof (induction xs arbitrary: m)
  case (Cons x xs)
  have "map_insert (f x) v m \<noteq> []" by (rule map_insert_nonempty)
  with Cons.IH [of "map_insert (f x) v m"] show ?case by simp
qed simp

end
