(* ===== verification/Consistent_Hash.thy ===== *)
theory Consistent_Hash
  imports Std_Map
begin

unbundle bit_operations_syntax

text \<open>
  \<open>cache/src/ConsistentHash.cpp\<close> (the master carries a copy of it): the 32-bit string
  hash, the ring of virtual nodes \<open>key2Index\<close> and its operations \<open>initialize\<close>, \<open>GetServer\<close>,
  \<open>addNode\<close> and \<open>deleteNode\<close>.  The ring is a \<open>std::map<uint32_t, size_t>\<close> (theory
  \<open>Std_Map\<close>); the theorems are the bounds of the index it returns and the two
  minimal-disruption laws of consistent hashing.
\<close>

type_synonym u32 = "32 word"

section \<open>The hash function\<close>

text \<open>
  \<open>hash ^ s[idx]\<close>: the \<open>char\<close> is signed (x86), promoted to \<open>int\<close> and then converted to
  \<open>uint32_t\<close>, so bytes above 127 are sign-extended.
\<close>

definition hash_byte :: "u32 \<Rightarrow> char \<Rightarrow> u32" where
  "hash_byte hash c = (hash XOR scast (of_char c :: 8 word)) * 16777619"

definition hash_mix :: "u32 \<Rightarrow> u32" where
  "hash_mix h0 =
     (let h1 = h0 + push_bit 13 h0;
          h2 = h1 XOR drop_bit 7 h1;
          h3 = h2 + push_bit 3 h2;
          h4 = h3 XOR drop_bit 17 h3;
          h5 = h4 + push_bit 5 h4
      in if h5 < 0 then - h5 else h5)"

definition murmur3_32 :: "string \<Rightarrow> u32" where
  "murmur3_32 s = hash_mix (foldl hash_byte 2166136261 s)"

section \<open>The ring\<close>

record ConsistentHash =
  key2Index :: "(u32, nat) smap"
  ch_nodes :: int
  ch_v_nodes :: int

text \<open>\<open>s << "SHARD-" << i << "NODE-" << j\<close> and its hash\<close>

definition shard_name :: "int \<Rightarrow> int \<Rightarrow> string" where
  "shard_name i j = ''SHARD-'' @ show_int i @ ''NODE-'' @ show_int j"

definition shard_key :: "int \<Rightarrow> int \<Rightarrow> u32" where
  "shard_key i j = murmur3_32 (shard_name i j)"

text \<open>\<open>for(int j = 0; j < v_nodes; ++j)\<close>\<close>

definition int_range :: "int \<Rightarrow> int \<Rightarrow> int list" where
  "int_range a b = [a..b - 1]"

definition insert_shard :: "int \<Rightarrow> int \<Rightarrow> (u32, nat) smap \<Rightarrow> (u32, nat) smap" where
  "insert_shard v i m = fold (\<lambda>j. map_insert (shard_key i j) (nat i)) (int_range 0 v) m"

definition initialize :: "int \<Rightarrow> int \<Rightarrow> ConsistentHash \<Rightarrow> ConsistentHash" where
  "initialize n v ch =
     ch\<lparr>ch_nodes := n, ch_v_nodes := v,
        key2Index := fold (insert_shard v) (int_range 0 n) (key2Index ch)\<rparr>"

text \<open>
  \<open>GetServer\<close> returns the ring position that serves a key; \<open>key2Index[GetServer(k)]\<close> is the
  server.  On an empty ring \<open>begin()->first\<close> dereferences the end iterator: undefined.
\<close>

definition ring_search :: "u32 \<Rightarrow> (u32, nat) smap \<Rightarrow> (u32 \<times> nat) result" where
  "ring_search x m =
     (case lower_bound x m of
        Some e \<Rightarrow> Inr e
      | None \<Rightarrow> (case m of [] \<Rightarrow> Inl Undefined | e # _ \<Rightarrow> Inr e))"

definition GetServer :: "ConsistentHash \<Rightarrow> string \<Rightarrow> u32 result" where
  "GetServer ch key = andThen (ring_search (murmur3_32 key) (key2Index ch)) (\<lambda>e. Inr (fst e))"

text \<open>
  The diagnostic \<open>cout << it->first\<close> before the test against \<open>end()\<close> reads through the end
  iterator for exactly these keys.  The value read is only printed; the model of
  \<open>GetServer\<close> leaves the read out and this predicate says when it happens.
\<close>

definition GetServer_prints_end :: "ConsistentHash \<Rightarrow> string \<Rightarrow> bool" where
  "GetServer_prints_end ch key \<longleftrightarrow> lower_bound (murmur3_32 key) (key2Index ch) = None"

text \<open>\<open>key2Index[GetServer(key)]\<close>, as both the master and a dying cache use it.\<close>

definition server_index :: "ConsistentHash \<Rightarrow> string \<Rightarrow> nat result" where
  "server_index ch key =
     andThen (GetServer ch key) (\<lambda>k. Inr (case map_of (key2Index ch) k of Some i \<Rightarrow> i | None \<Rightarrow> 0))"

definition deleteNode :: "nat \<Rightarrow> ConsistentHash \<Rightarrow> ConsistentHash" where
  "deleteNode index ch =
     (let m1 = fold (\<lambda>i. map_erase (shard_key (ch_nodes ch - 1) i))
                 (int_range 0 (ch_v_nodes ch)) (key2Index ch);
          n = ch_nodes ch - 1;
          m2 = fold (\<lambda>i m. fold (\<lambda>j. map_assign (shard_key i j) (nat i))
                              (int_range 0 (ch_v_nodes ch)) m)
                 (int_range (int index) n) m1
      in ch\<lparr>ch_nodes := n, key2Index := m2\<rparr>)"

definition addNode :: "nat \<Rightarrow> ConsistentHash \<Rightarrow> ConsistentHash" where
  "addNode index ch =
     ch\<lparr>key2Index := insert_shard (ch_v_nodes ch) (int index) (key2Index ch),
        ch_nodes := ch_nodes ch + 1\<rparr>"


section \<open>Injectivity of the hash steps\<close>

lemma mult_odd_inj:
  fixes x y c d :: u32
  assumes "c * d = 1" and "x * c = y * c"
  shows "x = y"
proof -
  have "x * (c * d) = y * (c * d)"
    using assms(2) by (metis mult.assoc)
  with assms(1) show ?thesis by simp
qed

lemma xorshift_zero:
  fixes z :: u32
  assumes "0 < n" and "z XOR drop_bit n z = 0"
  shows "z = 0"
proof -
  have "z = drop_bit n z"
    using assms(2) by (metis bit.xor_left_self xor.right_neutral)
  then have "unat z = unat z div 2 ^ n"
    by (metis unat_drop_bit_eq drop_bit_eq_div)
  with assms(1) have "unat z = 0"
    by (metis div_eq_dividend_iff neq0_conv one_less_power less_2_cases_iff nat_less_le one_less_numeral_iff semiring_norm(76))
  then show ?thesis by (simp add: unat_eq_zero)
qed

lemma xorshift_inj:
  fixes x y :: u32
  assumes "0 < n" and "x XOR drop_bit n x = y XOR drop_bit n y"
  shows "x = y"
proof -
  have "(x XOR y) XOR drop_bit n (x XOR y) = (x XOR drop_bit n x) XOR (y XOR drop_bit n y)"
    by (simp add: drop_bit_xor ac_simps)
  with assms(2) have "(x XOR y) XOR drop_bit n (x XOR y) = 0" by simp
  with assms(1) have "x XOR y = 0" by (rule xorshift_zero)
  then show ?thesis by (metis bit.xor_left_self xor.right_neutral)
qed

lemma addshift_mult: "(h::u32) + push_bit n h = h * (1 + 2 ^ n)"
  by (simp add: push_bit_eq_mult algebra_simps)

lemma hash_mix_inj: "hash_mix x = hash_mix y \<Longrightarrow> x = y"
proof -
  assume "hash_mix x = hash_mix y"
  then have eq: "(let h1 = x * (1 + 2 ^ 13); h2 = h1 XOR drop_bit 7 h1; h3 = h2 * (1 + 2 ^ 3);
                  h4 = h3 XOR drop_bit 17 h3 in h4 * (1 + 2 ^ 5)) =
             (let h1 = y * (1 + 2 ^ 13); h2 = h1 XOR drop_bit 7 h1; h3 = h2 * (1 + 2 ^ 3);
                  h4 = h3 XOR drop_bit 17 h3 in h4 * (1 + 2 ^ 5))"
    by (simp add: hash_mix_def Let_def addshift_mult)
  have i5: "(1 + 2 ^ 5 :: u32) * 1041204193 = 1" and i3: "(1 + 2 ^ 3 :: u32) * 954437177 = 1"
    and i13: "(1 + 2 ^ 13 :: u32) * 67100673 = 1"
    by simp_all
  show "x = y"
    using eq unfolding Let_def
    by (metis mult_odd_inj [OF i5] mult_odd_inj [OF i3] mult_odd_inj [OF i13]
          xorshift_inj [of 7] xorshift_inj [of 17] zero_less_numeral)
qed

lemma fnv_prime_unit: "(16777619 :: u32) * 899433627 = 1"
  by simp

lemma xor_right_cancel: "x XOR a = y XOR a \<Longrightarrow> x = (y :: u32)"
proof -
  assume "x XOR a = y XOR a"
  then have "(x XOR a) XOR a = (y XOR a) XOR a" by simp
  then show ?thesis by (simp add: xor.assoc)
qed

lemma xor_left_cancel: "a XOR x = a XOR y \<Longrightarrow> x = (y :: u32)"
  by (metis xor_right_cancel xor.commute)

lemma hash_byte_inj_hash: "hash_byte x c = hash_byte y c \<Longrightarrow> x = y"
  unfolding hash_byte_def
  by (drule mult_odd_inj [OF fnv_prime_unit]) (rule xor_right_cancel)

lemma scast_u8_inj:
  assumes "(scast (a :: 8 word) :: u32) = scast b"
  shows "a = b"
proof -
  have "sint (scast a :: u32) = sint a" for a :: "8 word"
    by (rule sint_up_scast) (simp add: is_up)
  with assms have "sint a = sint b" by metis
  then show ?thesis by (rule signed_word_eqI)
qed

lemma of_char_u8_inj: "(of_char c :: 8 word) = of_char d \<Longrightarrow> c = d"
proof -
  assume eq: "(of_char c :: 8 word) = of_char d"
  have u: "unat (of_char c :: 8 word) = of_char c" for c
  proof -
    have "unat (of_nat (of_char c) :: 8 word) = of_char c"
      by (simp only: unat_of_nat) simp
    then show ?thesis by (simp only: of_nat_of_char)
  qed
  from eq have "(of_char c :: nat) = of_char d"
    by (metis u)
  then show "c = d" by simp
qed

lemma hash_byte_inj_char: "hash_byte x c = hash_byte x d \<Longrightarrow> c = d"
  unfolding hash_byte_def
  by (drule mult_odd_inj [OF fnv_prime_unit])
    (blast dest: xor_left_cancel scast_u8_inj of_char_u8_inj)

lemma foldl_hash_inj: "foldl hash_byte x s = foldl hash_byte y s \<Longrightarrow> x = y"
  by (induction s arbitrary: x y) (auto dest: hash_byte_inj_hash)


section \<open>Searching the ring\<close>

lemma int_range_iff [simp]: "j \<in> set (int_range a b) \<longleftrightarrow> a \<le> j \<and> j < b"
  by (auto simp: int_range_def)

lemma int_range_snoc: "a \<le> b \<Longrightarrow> int_range a (b + 1) = int_range a b @ [b]"
  by (simp add: int_range_def upto_rec2)

lemma int_range_empty [simp]: "b \<le> a \<Longrightarrow> int_range a b = []"
  by (simp add: int_range_def)

lemma ring_search_Inr:
  assumes ok: "smap_ok m"
  shows "ring_search x m = Inr (k, v) \<longleftrightarrow> sm.ring_succ m x k \<and> map_of m k = Some v"
proof (cases "lower_bound x m")
  case (Some e)
  obtain k' v' where e: "e = (k', v')" by (cases e)
  with Some have lb: "x \<le> k' \<and> map_of m k' = Some v' \<and>
      (\<forall>k'' \<in> dom (map_of m). x \<le> k'' \<longrightarrow> k' \<le> k'')"
    using lower_bound_Some [OF ok] by simp
  then have succ: "sm.ring_succ m x k'"
    by (auto simp: sm.ring_succ_def)
  have "ring_search x m = Inr (k', v')"
    using Some e by (simp add: ring_search_def)
  with succ lb show ?thesis by (auto dest: sm.ring_succ_unique)
next
  case None
  then have none: "\<forall>k' \<in> dom (map_of m). k' < x"
    using lower_bound_None [OF ok] by simp
  show ?thesis
  proof (cases m)
    case Nil
    then show ?thesis using None by (auto simp: ring_search_def sm.ring_succ_def)
  next
    case (Cons e m')
    obtain k' v' where e: "e = (k', v')" by (cases e)
    have hd: "map_of m k' = Some v'" "ring_search x m = Inr (k', v')"
      using Cons e None by (auto simp: ring_search_def)
    have "\<forall>k'' \<in> dom (map_of m). k' \<le> k''"
      using ok Cons e by (auto simp: dom_map_of_conv_image_fst)
    moreover have "\<not> (\<exists>k'' \<in> dom (map_of m). x \<le> k'')"
      using none leD by blast
    ultimately have "sm.ring_succ m x k'"
      using hd by (auto simp: sm.ring_succ_def)
    with hd show ?thesis by (auto dest: sm.ring_succ_unique)
  qed
qed

lemma ring_search_total: "m \<noteq> [] \<Longrightarrow> \<exists>k v. ring_search x m = Inr (k, v)"
  by (cases "lower_bound x m"; cases m) (auto simp: ring_search_def)

lemma ring_search_empty: "ring_search x [] = Inl Undefined"
  by (simp add: ring_search_def)

lemma server_index_alt:
  assumes ok: "smap_ok (key2Index ch)"
  shows "server_index ch key =
           andThen (ring_search (murmur3_32 key) (key2Index ch)) (\<lambda>e. Inr (snd e))"
proof (cases "ring_search (murmur3_32 key) (key2Index ch)")
  case (Inr e)
  obtain k v where e: "e = (k, v)" by (cases e)
  with Inr have "map_of (key2Index ch) k = Some v"
    using ring_search_Inr [OF ok] by auto
  with Inr e show ?thesis by (simp add: server_index_def GetServer_def)
qed (simp add: server_index_def GetServer_def)

lemma server_index_Inr:
  assumes "smap_ok (key2Index ch)"
  shows "server_index ch key = Inr i \<longleftrightarrow>
    (\<exists>k. sm.ring_succ (key2Index ch) (murmur3_32 key) k \<and> map_of (key2Index ch) k = Some i)"
  using ring_search_Inr [OF assms] by (auto simp: server_index_alt [OF assms] andThen_eq_Inr_iff)

lemma server_index_total:
  assumes "smap_ok (key2Index ch)" "key2Index ch \<noteq> []"
  shows "\<exists>i. server_index ch key = Inr i"
proof -
  obtain k v where "ring_search (murmur3_32 key) (key2Index ch) = Inr (k, v)"
    using ring_search_total [OF assms(2)] by blast
  then show ?thesis by (simp add: server_index_alt [OF assms(1)])
qed

section \<open>The well-formedness invariant of a ring\<close>

definition shard_points :: "ConsistentHash \<Rightarrow> int \<Rightarrow> u32 set" where
  "shard_points ch i = shard_key i ` {0..<ch_v_nodes ch}"

definition ring_ok :: "ConsistentHash \<Rightarrow> bool" where
  "ring_ok ch \<longleftrightarrow> smap_ok (key2Index ch) \<and>
     (\<forall>k i. map_of (key2Index ch) k = Some i \<longrightarrow>
        int i < ch_nodes ch \<and> k \<in> shard_points ch (int i))"

text \<open>
  The ring is exact when no two virtual nodes share a position: then every virtual node of
  every server is present and owned by its server.
\<close>

definition ring_exact :: "ConsistentHash \<Rightarrow> bool" where
  "ring_exact ch \<longleftrightarrow> ring_ok ch \<and>
     (\<forall>i j. 0 \<le> i \<and> i < ch_nodes ch \<and> 0 \<le> j \<and> j < ch_v_nodes ch \<longrightarrow>
        map_of (key2Index ch) (shard_key i j) = Some (nat i))"

definition empty_ring :: "int \<Rightarrow> ConsistentHash" where
  "empty_ring v = initialize 0 v \<lparr>key2Index = [], ch_nodes = 0, ch_v_nodes = 0\<rparr>"

lemma smap_ok_insert_shard: "smap_ok m \<Longrightarrow> smap_ok (insert_shard v i m)"
  unfolding insert_shard_def by (rule sm.invar_fold_ins)

lemma map_of_insert_shard:
  "smap_ok m \<Longrightarrow> map_of (insert_shard v i m) k =
     (case map_of m k of Some w \<Rightarrow> Some w
      | None \<Rightarrow> if k \<in> shard_key i ` {0..<v} then Some (nat i) else None)"
  unfolding insert_shard_def
  by (subst sm.lookup_fold_ins_const) (auto simp: atLeastLessThan_def int_range_def split: option.splits)

lemma addNode_sel [simp]:
  "ch_nodes (addNode i ch) = ch_nodes ch + 1" "ch_v_nodes (addNode i ch) = ch_v_nodes ch"
  "shard_points (addNode i ch) = shard_points ch"
  "key2Index (addNode i ch) = insert_shard (ch_v_nodes ch) (int i) (key2Index ch)"
  by (simp_all add: addNode_def shard_points_def fun_eq_iff)

lemma deleteNode_sel [simp]:
  "ch_nodes (deleteNode i ch) = ch_nodes ch - 1" "ch_v_nodes (deleteNode i ch) = ch_v_nodes ch"
  "shard_points (deleteNode i ch) = shard_points ch"
  by (simp_all add: deleteNode_def Let_def shard_points_def fun_eq_iff)

lemma ring_ok_empty: "ring_ok (empty_ring v)"
  by (simp add: empty_ring_def initialize_def ring_ok_def)

lemma ring_ok_addNode: "ring_ok ch \<Longrightarrow> int index = ch_nodes ch \<Longrightarrow> ring_ok (addNode index ch)"
  unfolding ring_ok_def
  by (fastforce simp: smap_ok_insert_shard map_of_insert_shard shard_points_def [of ch]
       split: option.splits if_splits)

text \<open>The two loops of \<open>deleteNode\<close>.\<close>

definition erase_last :: "ConsistentHash \<Rightarrow> (u32, nat) smap" where
  "erase_last ch = fold (\<lambda>i. map_erase (shard_key (ch_nodes ch - 1) i))
                     (int_range 0 (ch_v_nodes ch)) (key2Index ch)"

definition reassign :: "int \<Rightarrow> int list \<Rightarrow> (u32, nat) smap \<Rightarrow> (u32, nat) smap" where
  "reassign v is m = fold (\<lambda>i m. fold (\<lambda>j. map_assign (shard_key i j) (nat i)) (int_range 0 v) m) is m"

lemma key2Index_deleteNode:
  "key2Index (deleteNode index ch) =
     reassign (ch_v_nodes ch) (int_range (int index) (ch_nodes ch - 1)) (erase_last ch)"
  by (simp add: deleteNode_def Let_def reassign_def erase_last_def)

lemma smap_ok_erase_last: "smap_ok (key2Index ch) \<Longrightarrow> smap_ok (erase_last ch)"
  unfolding erase_last_def by (rule sm.invar_fold_erase)

lemma map_of_erase_last:
  "smap_ok (key2Index ch) \<Longrightarrow> map_of (erase_last ch) k =
     (if k \<in> shard_points ch (ch_nodes ch - 1) then None else map_of (key2Index ch) k)"
  unfolding erase_last_def
  by (subst sm.lookup_fold_erase) (auto simp: shard_points_def int_range_def)

lemma reassign_simps [simp]:
  "reassign v [] m = m"
  "reassign v (i # is) m =
     reassign v is (fold (\<lambda>j. map_assign (shard_key i j) (nat i)) (int_range 0 v) m)"
  by (simp_all add: reassign_def)

lemma smap_ok_reassign: "smap_ok m \<Longrightarrow> smap_ok (reassign v is m)"
proof (induction "is" arbitrary: m)
  case (Cons i "is")
  then show ?case
    using sm.invar_fold_assign [of m "shard_key i" "\<lambda>_. nat i"] by simp
qed simp

text \<open>A position is either untouched by the second loop or owned by one of its servers.\<close>

lemma map_of_reassign:
  assumes "smap_ok m"
  shows "map_of (reassign v is m) k = map_of m k \<or>
    (\<exists>i \<in> set is. k \<in> shard_key i ` {0..<v} \<and> map_of (reassign v is m) k = Some (nat i))"
  using assms
proof (induction "is" arbitrary: m)
  case (Cons i "is")
  let ?m = "fold (\<lambda>j. map_assign (shard_key i j) (nat i)) (int_range 0 v) m"
  have ok: "smap_ok ?m"
    using Cons.prems by (rule sm.invar_fold_assign)
  have "map_of ?m k = (if k \<in> shard_key i ` {0..<v} then Some (nat i) else map_of m k)"
    using Cons.prems by (subst sm.lookup_fold_assign_const) (auto simp: int_range_def)
  with Cons.IH [OF ok] show ?case by (auto split: if_splits)
qed simp

lemma ring_ok_deleteNode:
  assumes ok: "ring_ok ch"
  shows "ring_ok (deleteNode index ch)"
proof -
  have m: "smap_ok (key2Index ch)" and old: "\<And>k i. map_of (key2Index ch) k = Some i \<Longrightarrow>
      int i < ch_nodes ch \<and> k \<in> shard_points ch (int i)"
    using ok by (auto simp: ring_ok_def)
  have erased: "int i < ch_nodes ch - 1 \<and> k \<in> shard_points ch (int i)"
    if "map_of (erase_last ch) k = Some i" for k i
  proof -
    have k: "k \<notin> shard_points ch (ch_nodes ch - 1)" "map_of (key2Index ch) k = Some i"
      using that by (auto simp: map_of_erase_last [OF m] split: if_splits)
    with old [of k i] have "int i \<noteq> ch_nodes ch - 1" by auto
    with old [OF k(2)] show ?thesis by simp
  qed
  have "int i < ch_nodes ch - 1 \<and> k \<in> shard_points ch (int i)"
    if "map_of (key2Index (deleteNode index ch)) k = Some i" for k i
    using that map_of_reassign [OF smap_ok_erase_last [OF m], of "ch_v_nodes ch"
        "int_range (int index) (ch_nodes ch - 1)" k] erased [of k i]
    by (auto simp: key2Index_deleteNode shard_points_def)
  with m show ?thesis
    by (simp add: ring_ok_def key2Index_deleteNode smap_ok_reassign smap_ok_erase_last)
qed


section \<open>Exact rings\<close>

lemma ring_exact_map_of:
  assumes "ring_exact ch"
  shows "map_of (key2Index ch) k = Some i \<longleftrightarrow> int i < ch_nodes ch \<and> k \<in> shard_points ch (int i)"
  using assms by (force simp: ring_exact_def ring_ok_def shard_points_def)

lemma ring_exact_disjoint:
  assumes "ring_exact ch" "0 \<le> i" "i < ch_nodes ch" "0 \<le> i'" "i' < ch_nodes ch"
    "k \<in> shard_points ch i" "k \<in> shard_points ch i'"
  shows "i = i'"
proof -
  have "map_of (key2Index ch) k = Some (nat i)" "map_of (key2Index ch) k = Some (nat i')"
    using assms ring_exact_map_of [OF assms(1)] by auto
  with assms show ?thesis by simp
qed

text \<open>Under exactness the second loop of \<open>deleteNode\<close> rewrites what is already there.\<close>

lemma reassign_idle:
  assumes ok: "smap_ok m"
    and same: "\<And>i j. i \<in> set is \<Longrightarrow> 0 \<le> j \<Longrightarrow> j < v \<Longrightarrow> map_of m (shard_key i j) = Some (nat i)"
  shows "reassign v is m = m"
  using same
proof (induction "is")
  case (Cons i "is")
  let ?m = "fold (\<lambda>j. map_assign (shard_key i j) (nat i)) (int_range 0 v) m"
  have "map_of ?m k = map_of m k" for k
    using Cons.prems [of i] by (subst sm.lookup_fold_assign_const [OF ok]) auto
  then have "?m = m"
    using ok by (intro smap_ext sm.invar_fold_assign) auto
  with Cons show ?case by simp
qed simp

lemma key2Index_deleteNode_exact:
  assumes ex: "ring_exact ch"
  shows "key2Index (deleteNode index ch) = erase_last ch"
proof -
  have m: "smap_ok (key2Index ch)" using ex by (simp add: ring_exact_def ring_ok_def)
  have "map_of (erase_last ch) (shard_key i j) = Some (nat i)"
    if "i \<in> set (int_range (int index) (ch_nodes ch - 1))" "0 \<le> j" "j < ch_v_nodes ch" for i j
  proof -
    have i: "0 \<le> i" "i < ch_nodes ch - 1" using that by auto
    have pt: "shard_key i j \<in> shard_points ch i"
      using that by (simp add: shard_points_def)
    then have "shard_key i j \<notin> shard_points ch (ch_nodes ch - 1)"
      using ring_exact_disjoint [OF ex, of i "ch_nodes ch - 1" "shard_key i j"] i by auto
    with i that ex show ?thesis
      by (simp add: map_of_erase_last [OF m] ring_exact_def)
  qed
  then show ?thesis
    unfolding key2Index_deleteNode by (rule reassign_idle [OF smap_ok_erase_last [OF m]])
qed

lemma ring_exact_deleteNode:
  assumes ex: "ring_exact ch"
  shows "ring_exact (deleteNode index ch)"
proof -
  have m: "smap_ok (key2Index ch)" using ex by (simp add: ring_exact_def ring_ok_def)
  have "map_of (erase_last ch) (shard_key i j) = Some (nat i)"
    if "0 \<le> i" "i < ch_nodes ch - 1" "0 \<le> j" "j < ch_v_nodes ch" for i j
    using that ex ring_exact_disjoint [OF ex, of i "ch_nodes ch - 1" "shard_key i j"]
    by (auto simp: map_of_erase_last [OF m] ring_exact_def shard_points_def)
  with ex ring_ok_deleteNode show ?thesis
    by (simp add: ring_exact_def key2Index_deleteNode_exact [OF ex])
qed

text \<open>The virtual nodes of \<open>n\<close> servers have pairwise distinct positions.\<close>

definition shards_distinct :: "int \<Rightarrow> int \<Rightarrow> bool" where
  "shards_distinct n v \<longleftrightarrow>
     distinct (map (\<lambda>(i, j). shard_key i j) (List.product (int_range 0 n) (int_range 0 v)))"

lemma shards_distinctD:
  assumes "shards_distinct n v" "0 \<le> i" "i < n" "0 \<le> j" "j < v" "0 \<le> i'" "i' < n" "0 \<le> j'" "j' < v"
    "shard_key i j = shard_key i' j'"
  shows "i = i' \<and> j = j'"
proof -
  have "inj_on (\<lambda>(i, j). shard_key i j) (set (List.product (int_range 0 n) (int_range 0 v)))"
    using assms(1) unfolding shards_distinct_def by (simp only: distinct_map)
  then show ?thesis
    using assms(2-) inj_onD [of "\<lambda>(i, j). shard_key i j" _ "(i, j)" "(i', j')"] by auto
qed

text \<open>It is enough that no two servers share a position.\<close>

definition shards_apart :: "int \<Rightarrow> int \<Rightarrow> bool" where
  "shards_apart n v \<longleftrightarrow> (\<forall>i \<in> set (int_range 0 n). \<forall>i' \<in> set (int_range 0 n).
     \<forall>j \<in> set (int_range 0 v). \<forall>j' \<in> set (int_range 0 v). shard_key i j = shard_key i' j' \<longrightarrow> i = i')"

lemma shards_distinct_apart: "shards_distinct n v \<Longrightarrow> shards_apart n v"
  unfolding shards_apart_def int_range_def by (auto dest: shards_distinctD)

lemma shards_apart_mono: "shards_apart n v \<Longrightarrow> m \<le> n \<Longrightarrow> shards_apart m v"
  unfolding shards_apart_def int_range_def by auto

lemma shards_collide: "\<not> shards_apart 1598 100"
proof -
  have "shard_key 1597 10 = shard_key 488 85" by code_simp
  then show ?thesis unfolding shards_apart_def by (fastforce simp: int_range_def)
qed

lemma shards_apart_one: "shards_apart 1 v"
  unfolding shards_apart_def int_range_def by auto

lemma ring_exact_empty: "ring_exact (empty_ring v)"
  using ring_ok_empty [of v] by (simp add: ring_exact_def empty_ring_def initialize_def)

lemma ring_exact_addNode:
  assumes ex: "ring_exact ch" and idx: "int index = ch_nodes ch"
    and fresh: "shards_apart (ch_nodes ch + 1) (ch_v_nodes ch)"
  shows "ring_exact (addNode index ch)"
proof -
  have m: "smap_ok (key2Index ch)" using ex by (simp add: ring_exact_def ring_ok_def)
  have new: "map_of (key2Index ch) (shard_key (ch_nodes ch) j) = None"
    if "0 \<le> j" "j < ch_v_nodes ch" for j
  proof (rule ccontr)
    assume "map_of (key2Index ch) (shard_key (ch_nodes ch) j) \<noteq> None"
    then obtain i where "map_of (key2Index ch) (shard_key (ch_nodes ch) j) = Some i" by auto
    then have "int i < ch_nodes ch \<and> shard_key (ch_nodes ch) j \<in> shard_points ch (int i)"
      using ring_exact_map_of [OF ex] by blast
    then obtain j' where "int i < ch_nodes ch" "0 \<le> j'" "j' < ch_v_nodes ch"
      "shard_key (ch_nodes ch) j = shard_key (int i) j'"
      by (auto simp: shard_points_def)
    then show False
      using fresh that idx unfolding shards_apart_def int_range_def by fastforce
  qed
  have old: "map_of (insert_shard (ch_v_nodes ch) (int index) (key2Index ch)) (shard_key i j)
      = Some (nat i)"
    if "0 \<le> i" "i < ch_nodes ch" "0 \<le> j" "j < ch_v_nodes ch" for i j
    using ex that by (simp add: ring_exact_def map_of_insert_shard [OF m])
  have "map_of (insert_shard (ch_v_nodes ch) (int index) (key2Index ch)) (shard_key i j)
      = Some (nat i)"
    if "0 \<le> i" "i < ch_nodes ch + 1" "0 \<le> j" "j < ch_v_nodes ch" for i j
  proof (cases "i = ch_nodes ch")
    case True
    with new that idx show ?thesis
      by (simp add: map_of_insert_shard [OF m])
  next
    case False
    with old that show ?thesis by simp
  qed
  moreover have "ring_ok (addNode index ch)"
    using ex idx by (simp add: ring_exact_def ring_ok_addNode)
  ultimately show ?thesis by (simp add: ring_exact_def)
qed

text \<open>An exact ring is determined by the number of its servers and of their virtual nodes.\<close>

lemma ring_exact_unique:
  assumes "ring_exact ch" "ring_exact ch'" "ch_nodes ch = ch_nodes ch'"
    "ch_v_nodes ch = ch_v_nodes ch'"
  shows "key2Index ch = key2Index ch'"
proof (rule smap_ext)
  show "smap_ok (key2Index ch)" "smap_ok (key2Index ch')"
    using assms by (simp_all add: ring_exact_def ring_ok_def)
  have "map_of (key2Index ch) k = Some i \<longleftrightarrow> map_of (key2Index ch') k = Some i" for k i
    using assms by (simp add: ring_exact_map_of shard_points_def)
  then show "map_of (key2Index ch) = map_of (key2Index ch')"
    by (intro ext) (metis not_None_eq)
qed

section \<open>initialize as a sequence of addNode\<close>

fun add_nodes :: "nat \<Rightarrow> int \<Rightarrow> ConsistentHash" where
  "add_nodes 0 v = empty_ring v"
| "add_nodes (Suc n) v = addNode n (add_nodes n v)"

lemma add_nodes_initialize:
  "add_nodes n v = initialize (int n) v \<lparr>key2Index = [], ch_nodes = 0, ch_v_nodes = 0\<rparr>"
proof (induction n)
  case (Suc n)
  then show ?case
    using int_range_snoc [of 0 "int n"] by (simp add: addNode_def initialize_def add.commute)
qed (simp add: empty_ring_def)

lemma add_nodes_sel [simp]: "ch_nodes (add_nodes n v) = int n" "ch_v_nodes (add_nodes n v) = v"
  by (simp_all add: add_nodes_initialize initialize_def)

lemma ring_ok_add_nodes: "ring_ok (add_nodes n v)"
  by (induction n) (auto simp: ring_ok_empty intro: ring_ok_addNode)

lemma ring_exact_add_nodes: "shards_apart (int n) v \<Longrightarrow> ring_exact (add_nodes n v)"
proof (induction n)
  case (Suc n)
  then have "ring_exact (add_nodes n v)"
    using shards_apart_mono [of "int (Suc n)" v "int n"] by simp
  with Suc.prems show ?case
    using ring_exact_addNode [of "add_nodes n v" n] by (simp add: add.commute)
qed (simp add: ring_exact_empty)

section \<open>Histories of ring operations\<close>

text \<open>
  The master adds at index \<open>fd_node.size() - 1\<close>, the number of servers before the addition,
  and deletes at an index of an existing server.
\<close>

datatype ring_op = Add_server | Delete_server nat

fun ring_step :: "ring_op \<Rightarrow> ConsistentHash \<Rightarrow> ConsistentHash" where
  "ring_step Add_server ch = addNode (nat (ch_nodes ch)) ch"
| "ring_step (Delete_server i) ch = (if int i < ch_nodes ch then deleteNode i ch else ch)"

definition ring_run :: "ring_op list \<Rightarrow> ConsistentHash \<Rightarrow> ConsistentHash" where
  "ring_run ops ch = fold ring_step ops ch"

lemma ring_run_simps [simp]:
  "ring_run [] ch = ch" "ring_run (p # ops) ch = ring_run ops (ring_step p ch)"
  by (simp_all add: ring_run_def)

lemma ring_step_nodes: "0 \<le> ch_nodes ch \<Longrightarrow> 0 \<le> ch_nodes (ring_step p ch)"
  by (cases p) auto

lemma ring_step_v_nodes [simp]: "ch_v_nodes (ring_step p ch) = ch_v_nodes ch"
  by (cases p) auto

lemma ring_step_ok: "ring_ok ch \<Longrightarrow> 0 \<le> ch_nodes ch \<Longrightarrow> ring_ok (ring_step p ch)"
  by (cases p) (auto intro: ring_ok_addNode ring_ok_deleteNode)

lemma ring_run_ok:
  "ring_ok ch \<Longrightarrow> 0 \<le> ch_nodes ch \<Longrightarrow>
     ring_ok (ring_run ops ch) \<and> 0 \<le> ch_nodes (ring_run ops ch) \<and>
     ch_v_nodes (ring_run ops ch) = ch_v_nodes ch"
  by (induction ops arbitrary: ch) (simp_all add: ring_step_ok ring_step_nodes)

lemma ring_run_exact:
  assumes "ring_exact ch" "0 \<le> ch_nodes ch" "shards_apart N (ch_v_nodes ch)"
    "\<forall>k \<le> length ops. ch_nodes (ring_run (take k ops) ch) \<le> N"
  shows "ring_exact (ring_run ops ch)"
  using assms
proof (induction ops arbitrary: ch)
  case (Cons p ops)
  have peak: "\<forall>k \<le> length ops. ch_nodes (ring_run (take k ops) (ring_step p ch)) \<le> N"
    using Cons.prems(4) by (metis Suc_le_mono length_Cons ring_run_simps(2) take_Suc_Cons)
  then have "ch_nodes (ring_step p ch) \<le> N" by (metis le0 ring_run_simps(1) take0)
  then have "ring_exact (ring_step p ch)"
    using Cons.prems(1-3) shards_apart_mono [OF Cons.prems(3)]
    by (cases p) (auto intro: ring_exact_addNode ring_exact_deleteNode)
  with Cons.IH [of "ring_step p ch"] Cons.prems(2,3) peak show ?case by (simp add: ring_step_nodes)
qed simp

section \<open>Minimal disruption\<close>

lemma server_index_bound:
  assumes "ring_ok ch" "server_index ch key = Inr i"
  shows "int i < ch_nodes ch"
proof -
  have "smap_ok (key2Index ch)" using assms(1) by (simp add: ring_ok_def)
  then obtain k where "map_of (key2Index ch) k = Some i"
    using assms(2) server_index_Inr by blast
  with assms(1) show ?thesis unfolding ring_ok_def by blast
qed

lemma addNode_disruption:
  assumes ok: "smap_ok (key2Index ch)" and new: "server_index (addNode n ch) key = Inr i"
    and old: "key2Index ch \<noteq> []"
  shows "i = n \<or> server_index ch key = Inr i"
proof -
  let ?m = "key2Index ch" and ?m' = "key2Index (addNode n ch)"
  have ok': "smap_ok ?m'" using ok by (simp add: smap_ok_insert_shard)
  obtain k where k: "sm.ring_succ ?m' (murmur3_32 key) k" "map_of ?m' k = Some i"
    using new server_index_Inr [OF ok'] by blast
  show ?thesis
  proof (cases "map_of ?m k")
    case None
    with k(2) show ?thesis by (simp add: map_of_insert_shard [OF ok] split: if_splits)
  next
    case (Some w)
    with k(2) have w: "w = i" by (simp add: map_of_insert_shard [OF ok])
    have "dom (map_of ?m) \<subseteq> dom (map_of ?m')"
      by (auto simp: map_of_insert_shard [OF ok] split: option.splits)
    moreover have "k \<in> dom (map_of ?m)" using Some by blast
    ultimately have "sm.ring_succ ?m (murmur3_32 key) k"
      by (rule sm.ring_succ_superset [OF k(1)])
    with Some w show ?thesis using server_index_Inr [OF ok] by blast
  qed
qed

lemma deleteNode_disruption:
  assumes ex: "ring_exact ch" and s: "server_index ch key = Inr i" and live: "int i \<noteq> ch_nodes ch - 1"
  shows "server_index (deleteNode index ch) key = Inr i"
proof -
  have ok: "smap_ok (key2Index ch)" using ex by (simp add: ring_exact_def ring_ok_def)
  let ?m' = "key2Index (deleteNode index ch)"
  have m': "map_of ?m' k = (if k \<in> shard_points ch (ch_nodes ch - 1) then None
      else map_of (key2Index ch) k)" for k
    by (simp add: key2Index_deleteNode_exact [OF ex] map_of_erase_last [OF ok])
  have ok': "smap_ok ?m'"
    unfolding key2Index_deleteNode_exact [OF ex] by (rule smap_ok_erase_last [OF ok])
  obtain k where k: "sm.ring_succ (key2Index ch) (murmur3_32 key) k"
      "map_of (key2Index ch) k = Some i"
    using s server_index_Inr [OF ok] by blast
  have "int i < ch_nodes ch" "k \<in> shard_points ch (int i)"
    using k(2) ring_exact_map_of [OF ex] by auto
  then have keep: "k \<notin> shard_points ch (ch_nodes ch - 1)"
    using ring_exact_disjoint [OF ex, of "int i" "ch_nodes ch - 1" k] live by auto
  have "sm.ring_succ ?m' (murmur3_32 key) k"
  proof (rule sm.ring_succ_superset [OF k(1)])
    show "dom (map_of ?m') \<subseteq> dom (map_of (key2Index ch))"
      by (auto simp: m' split: if_splits)
    show "k \<in> dom (map_of ?m')" using keep k(2) by (simp add: m' dom_def)
  qed
  moreover have "map_of ?m' k = Some i"
    using keep k(2) by (simp add: m')
  ultimately show ?thesis
    using server_index_Inr [OF ok'] by blast
qed


section \<open>A concrete ring for the witnesses\<close>

text \<open>Three servers with two virtual nodes each, and two keys.\<close>

lemma demo_shard_keys:
  "shard_key 0 0 = 495835069"
  "shard_key 0 1 = 1318847792"
  "shard_key 1 0 = 1306020829"
  "shard_key 1 1 = 1629961922"
  "shard_key 2 0 = 2581598373"
  "shard_key 2 1 = 1767115205"
  by code_simp+

lemma demo_keys:
  "murmur3_32 ''b'' = 1612769824"
  "murmur3_32 ''c'' = 1857025631"
  by code_simp+

lemma demo_ranges:
  "int_range 0 2 = [0, 1]" "int_range 0 3 = [0, 1, 2]" "int_range 0 1 = [0]"
  by code_simp+

lemmas demo_ring = demo_shard_keys [simplified] demo_keys demo_ranges empty_ring_def initialize_def
  addNode_def deleteNode_def insert_shard_def server_index_def GetServer_def ring_search_def Let_def

lemma demo_distinct: "shards_distinct 3 2"
  by (simp add: shards_distinct_def demo_ring)

lemma demo_apart: "shards_apart 3 2"
  by (rule shards_distinct_apart [OF demo_distinct])

lemma demo_peak:
  "\<forall>k \<le> length [Add_server, Add_server, Add_server].
     ch_nodes (ring_run (take k [Add_server, Add_server, Add_server]) (empty_ring 2)) \<le> 3"
  by (auto simp: le_Suc_eq empty_ring_def initialize_def)

lemma demo_exact: "ring_exact (ring_run [Add_server, Add_server, Add_server] (empty_ring 2))"
  using ring_run_exact [OF ring_exact_empty _ _ demo_peak] demo_apart by (simp add: empty_ring_def initialize_def)

section \<open>Properties\<close>

text \<open>
  Two strings of equal length that differ in one byte only never collide: every step of
  the hash is injective both in the running hash and in the byte, and the final mixing is a
  bijection of the 32-bit words.
\<close>

theorem murmur3_one_byte:
  "murmur3_32 (xs @ c # ys) = murmur3_32 (xs @ d # ys) \<longleftrightarrow> c = d"
  by (auto simp: murmur3_32_def dest!: hash_mix_inj foldl_hash_inj hash_byte_inj_char)

text \<open>
  C13. After any history of additions and deletions the index that the ring yields for any key
  is the index of an existing server, so that \<open>fd_node[index]\<close> and \<open>caches[idx]\<close> are in
  range; no hypothesis on collisions is needed.
\<close>

theorem ring_index_in_bounds:
  assumes "server_index (ring_run ops (empty_ring v)) key = Inr i"
  shows "int i < ch_nodes (ring_run ops (empty_ring v))"
  using server_index_bound [OF _ assms] ring_run_ok [of "empty_ring v" ops] ring_ok_empty [of v]
  by (simp add: empty_ring_def initialize_def)

theorem ring_index_in_bounds_witness:
  "server_index (ring_run [Add_server, Add_server, Add_server, Delete_server 0] (empty_ring 2)) ''b'' = Inr 1
   \<and> (1::int) < ch_nodes (ring_run [Add_server, Add_server, Add_server, Delete_server 0] (empty_ring 2))"
proof -
  have "server_index (ring_run [Add_server, Add_server, Add_server, Delete_server 0] (empty_ring 2)) ''b'' = Inr 1"
    by (simp add: demo_ring)
  with ring_index_in_bounds [OF this] show ?thesis by simp
qed

text \<open>
  C14. Scaling out moves keys to the new server only: a key that the enlarged ring does not
  send to the new server is sent where it was before.
\<close>

theorem scale_out_disruption:
  assumes "key2Index (ring_run ops (empty_ring v)) \<noteq> []"
    and "server_index (addNode n (ring_run ops (empty_ring v))) key = Inr i"
  shows "i = n \<or> server_index (ring_run ops (empty_ring v)) key = Inr i"
proof -
  have "ring_ok (ring_run ops (empty_ring v))"
    using ring_run_ok [of "empty_ring v" ops] ring_ok_empty [of v]
    by (simp add: empty_ring_def initialize_def)
  then show ?thesis
    using addNode_disruption [OF _ assms(2,1)] by (simp add: ring_ok_def)
qed

theorem scale_out_disruption_witness:
  "server_index (addNode 2 (ring_run [Add_server, Add_server] (empty_ring 2))) ''c'' = Inr 2 \<and>
   server_index (addNode 2 (ring_run [Add_server, Add_server] (empty_ring 2))) ''b'' = Inr 1 \<and>
   server_index (ring_run [Add_server, Add_server] (empty_ring 2)) ''b'' = Inr 1"
proof -
  have ne: "key2Index (ring_run [Add_server, Add_server] (empty_ring 2)) \<noteq> []"
    by (simp add: demo_ring)
  have k: "server_index (addNode 2 (ring_run [Add_server, Add_server] (empty_ring 2))) ''c'' = Inr 2"
    by (simp add: demo_ring)
  have a: "server_index (addNode 2 (ring_run [Add_server, Add_server] (empty_ring 2))) ''b'' = Inr 1"
    by (simp add: demo_ring)
  from scale_out_disruption [OF ne a] k a show ?thesis by simp
qed

text \<open>
  Deleting a server, whatever its index, removes the virtual nodes of the last server:
  every key of every other server keeps its index.
\<close>

theorem delete_disruption:
  assumes "shards_apart N v" "\<forall>k \<le> length ops. ch_nodes (ring_run (take k ops) (empty_ring v)) \<le> N"
    and "server_index (ring_run ops (empty_ring v)) key = Inr i"
    and "int i \<noteq> ch_nodes (ring_run ops (empty_ring v)) - 1"
  shows "server_index (deleteNode index (ring_run ops (empty_ring v))) key = Inr i"
  using deleteNode_disruption [OF ring_run_exact [OF ring_exact_empty] assms(3,4)] assms(1,2)
  by (simp add: empty_ring_def initialize_def)

theorem delete_disruption_witness:
  "server_index (deleteNode 0 (ring_run [Add_server, Add_server, Add_server] (empty_ring 2))) ''b'' = Inr 1"
proof -
  have a: "server_index (ring_run [Add_server, Add_server, Add_server] (empty_ring 2)) ''b'' = Inr 1"
    by (simp add: demo_ring)
  have l: "int 1 \<noteq> ch_nodes (ring_run [Add_server, Add_server, Add_server] (empty_ring 2)) - 1"
    by (simp add: demo_ring)
  show ?thesis by (rule delete_disruption [OF demo_apart demo_peak a l])
qed

text \<open>
  C22. The ring depends on the number of servers only, not on the history: whatever was added and deleted,
  in however many operations, it is the ring that \<open>initialize\<close> builds, provided that there are never more than
  \<open>N\<close> servers at a time and no two of the first \<open>N\<close> servers share a position on the ring (with the 100
  virtual nodes of the code two do from \<open>N\<close> = 1598 on, lemma \<open>shards_collide\<close>).  The coordinator (which adds
  and deletes) and a leaving server (which calls \<open>initialize\<close>) then agree on the index of every key.
\<close>

theorem ring_history_canonical:
  assumes "shards_apart N v" and "\<forall>k \<le> length ops. ch_nodes (ring_run (take k ops) (empty_ring v)) \<le> N"
    and "n = nat (ch_nodes (ring_run ops (empty_ring v)))"
  shows "key2Index (ring_run ops (empty_ring v)) =
         key2Index (initialize (int n) v \<lparr>key2Index = [], ch_nodes = 0, ch_v_nodes = 0\<rparr>)"
proof -
  have e: "ch_nodes (empty_ring v) = 0" "ch_v_nodes (empty_ring v) = v"
    by (simp_all add: empty_ring_def initialize_def)
  have n: "ch_nodes (ring_run ops (empty_ring v)) = int n" "ch_v_nodes (ring_run ops (empty_ring v)) = v"
    using ring_run_ok [of "empty_ring v" ops] ring_ok_empty [of v] assms(3) e by simp_all
  then have "int n \<le> N" using assms(2) [rule_format, of "length ops"] by simp
  then have "ring_exact (add_nodes n v)"
    using assms(1) by (intro ring_exact_add_nodes) (rule shards_apart_mono)
  moreover have "ring_exact (ring_run ops (empty_ring v))"
    using assms(1,2) e by (intro ring_run_exact ring_exact_empty) simp_all
  ultimately have "key2Index (ring_run ops (empty_ring v)) = key2Index (add_nodes n v)"
    using n by (intro ring_exact_unique) simp_all
  then show ?thesis by (simp only: add_nodes_initialize)
qed

theorem ring_history_canonical_witness:
  "key2Index (ring_run [Add_server, Add_server, Delete_server 0] (empty_ring 2)) =
   key2Index (initialize (int 1) 2 \<lparr>key2Index = [], ch_nodes = 0, ch_v_nodes = 0\<rparr>)"
proof -
  have d: "shards_apart 2 2" by (rule shards_apart_mono [OF demo_apart]) simp
  have n: "1 = nat (ch_nodes (ring_run [Add_server, Add_server, Delete_server 0] (empty_ring 2)))"
    by (simp add: demo_ring)
  have "\<forall>k \<le> length [Add_server, Add_server, Delete_server 0].
      ch_nodes (ring_run (take k [Add_server, Add_server, Delete_server 0]) (empty_ring 2)) \<le> 2"
    by (auto simp: le_Suc_eq empty_ring_def initialize_def)
  from ring_history_canonical [OF d this n] show ?thesis .
qed
end
