(* ===== verification/Wire.thy ===== *)
theory Wire
  imports Prelude
begin

text \<open>
  The text protocols.  Every message is a line of fields separated by \<open>#\<close> (an address inside
  a field uses \<open>:\<close>).  The three processes take messages apart in different ways: the master
  with \<open>split\<close> of \<open>master/mastertry/master.h\<close> (runs of separators count as one), the client
  with \<open>split\<close> of \<open>Client/src/tools.cpp\<close> (\<open>std::getline\<close>), the cache server with the
  hand-written loops of \<open>cache/src/cache.cpp\<close>.  The locale \<open>tokenizer\<close> is what a reader of
  well-formed messages needs of a splitter; both splitters meet it.  Also here: what a reader takes for the
  text of a buffer (\<open>c_str\<close>, and \<open>frame_text\<close> when some of its bytes are indeterminate).
\<close>

text \<open>The buffer size of \<open>cache.h\<close> and \<open>master.h\<close>\<close>

definition BUF_SIZE :: nat where
  "BUF_SIZE = 65535"

section \<open>Buffers\<close>

text \<open>The text in a buffer ends at its first NUL.\<close>

abbreviation NUL :: char where "NUL \<equiv> CHR 0x00"

definition c_str :: "string \<Rightarrow> string" where
  "c_str buf = takeWhile (\<lambda>x. x \<noteq> NUL) buf"

lemma c_str_append: "NUL \<notin> set msg \<Longrightarrow> c_str (msg @ NUL # rest) = msg"
  by (induction msg) (auto simp: c_str_def)

lemma c_str_free: "NUL \<notin> set msg \<Longrightarrow> c_str msg = msg"
  by (simp add: c_str_def takeWhile_eq_all_conv)

text \<open>
  The bytes of a buffer that need not be initialised; \<open>None\<close> is a byte of indeterminate value.  Its text
  is determined when a NUL comes before the first such byte.
\<close>

type_synonym frame = "char option list"

definition frame_text :: "frame \<Rightarrow> string option" where
  "frame_text buf =
     (let bytes = takeWhile (\<lambda>b. b \<noteq> Some NUL) buf
      in if None \<in> set bytes then None else Some (map the bytes))"

text \<open>A text, and one value in all the bytes behind it\<close>

definition padded :: "char option \<Rightarrow> string \<Rightarrow> frame" where
  "padded rest msg = map Some msg @ replicate (BUF_SIZE - length msg) rest"

lemma takeWhile_Some: "NUL \<notin> set msg \<Longrightarrow> takeWhile (\<lambda>b. b \<noteq> Some NUL) (map Some msg @ bs) =
    map Some msg @ takeWhile (\<lambda>b. b \<noteq> Some NUL) bs"
  by (induction msg) auto

lemma takeWhile_NULs: "takeWhile (\<lambda>b. b \<noteq> Some NUL) (replicate n (Some NUL)) = []"
  by (cases n) simp_all

lemma frame_text_padded:
  assumes "NUL \<notin> set msg"
  shows "frame_text (padded (Some NUL) msg) = Some msg"
    and "length msg < BUF_SIZE \<Longrightarrow> frame_text (padded None msg) = None"
proof -
  show "frame_text (padded (Some NUL) msg) = Some msg"
    using assms by (auto simp: frame_text_def padded_def takeWhile_Some takeWhile_NULs comp_def)
  assume "length msg < BUF_SIZE"
  then have "BUF_SIZE - length msg \<noteq> 0" by simp
  then show "frame_text (padded None msg) = None"
    using assms by (simp add: frame_text_def padded_def takeWhile_Some)
qed

section \<open>Joining fields\<close>

fun join :: "char \<Rightarrow> string list \<Rightarrow> string" where
  "join c [] = []"
| "join c [t] = t"
| "join c (t # u # ts) = t @ c # join c (u # ts)"

definition field_ok :: "char \<Rightarrow> string \<Rightarrow> bool" where
  "field_ok c t \<longleftrightarrow> t \<noteq> [] \<and> c \<notin> set t"

lemma join_eq_Nil: "\<forall>t \<in> set ts. t \<noteq> [] \<Longrightarrow> join c ts = [] \<longleftrightarrow> ts = []"
  by (cases "(c, ts)" rule: join.cases) auto

section \<open>split of master.h\<close>

text \<open>The first inner loop skips separators, the second scans to the next one.\<close>

fun skip_separators :: "string \<Rightarrow> string \<Rightarrow> string" where
  "skip_separators seps [] = []"
| "skip_separators seps (x # s) = (if x \<in> set seps then skip_separators seps s else x # s)"

fun scan_token :: "string \<Rightarrow> string \<Rightarrow> string \<times> string" where
  "scan_token seps [] = ([], [])"
| "scan_token seps (x # s) =
     (if x \<in> set seps then ([], x # s)
      else (x # fst (scan_token seps s), snd (scan_token seps s)))"

lemma skip_separators_length: "length (skip_separators seps s) \<le> length s"
  by (induction seps s rule: skip_separators.induct) auto

lemma skip_separators_hd: "skip_separators seps s = x # r \<Longrightarrow> x \<notin> set seps"
  by (induction seps s rule: skip_separators.induct) (auto split: if_splits)

lemma scan_token_append: "fst (scan_token seps s) @ snd (scan_token seps s) = s"
  by (induction seps s rule: scan_token.induct) (auto split: prod.splits)

function master_split :: "string \<Rightarrow> string \<Rightarrow> string list" where
  "master_split s seps =
     (if s = [] then []
      else let p = scan_token seps (skip_separators seps s)
           in if fst p \<noteq> [] then fst p # master_split (snd p) seps else [])"
  by pat_completeness auto
termination
proof (relation "measure (\<lambda>(s, seps). length s)", simp_all, goal_cases)
  case (1 s seps)
  have "length (fst (scan_token seps (skip_separators seps s))) +
      length (snd (scan_token seps (skip_separators seps s))) = length (skip_separators seps s)"
    by (metis length_append scan_token_append)
  with 1 skip_separators_length [of seps s] show ?case
    by (cases "fst (scan_token seps (skip_separators seps s))") auto
qed

declare master_split.simps [simp del]

text \<open>When no token is left after the separators, the index has reached the end of the string
  and the outer loop stops: the \<open>else []\<close> above is this case.\<close>

lemma scan_token_Nil:
  assumes "fst (scan_token seps (skip_separators seps s)) = []"
  shows "skip_separators seps s = []"
proof (cases "skip_separators seps s")
  case (Cons x r)
  then have "x \<notin> set seps" by (rule skip_separators_hd)
  with Cons assms show ?thesis by (simp split: prod.splits)
qed

lemma skip_separators_none: "x \<notin> set seps \<Longrightarrow> skip_separators seps (x # s) = x # s"
  by simp

lemma scan_token_field:
  "c \<notin> set t \<Longrightarrow> scan_token [c] (t @ c # r) = (t, c # r)"
  "c \<notin> set t \<Longrightarrow> scan_token [c] t = (t, [])"
  by (induction t) auto

lemma master_split_Nil [simp]: "master_split [] seps = []"
  by (simp add: master_split.simps)

lemma master_split_sep: "master_split (c # s) [c] = master_split s [c]"
  by (subst (1 2) master_split.simps) (auto simp: Let_def split: prod.splits)

lemma master_split_field:
  assumes "field_ok c t"
  shows "master_split (t @ c # r) [c] = t # master_split r [c]" "master_split t [c] = [t]"
proof -
  obtain x t' where t: "t = x # t'" "x \<noteq> c" using assms by (cases t) (auto simp: field_ok_def)
  have c: "c \<notin> set t" using assms by (simp add: field_ok_def)
  have "skip_separators [c] (t @ c # r) = t @ c # r" "skip_separators [c] t = t"
    using t by simp_all
  then show "master_split (t @ c # r) [c] = t # master_split r [c]" "master_split t [c] = [t]"
    using scan_token_field [OF c] t(1) master_split_sep [of c r]
    by (subst master_split.simps, simp)+
qed

section \<open>split of tools.cpp\<close>

text \<open>\<open>while (getline(iss, temp, flag)) sv.push_back(temp)\<close>: an empty rest yields no token.\<close>

function client_split :: "char \<Rightarrow> string \<Rightarrow> string list" where
  "client_split c s =
     (if s = [] then []
      else takeWhile (\<lambda>x. x \<noteq> c) s # client_split c (drop (Suc (length (takeWhile (\<lambda>x. x \<noteq> c) s))) s))"
  by pat_completeness auto
termination
  by (relation "measure (\<lambda>(c, s). length s)") auto

declare client_split.simps [simp del]

lemma client_split_Nil [simp]: "client_split c [] = []"
  by (simp add: client_split.simps)

lemma client_split_field:
  assumes "c \<notin> set t"
  shows "client_split c (t @ c # r) = t # client_split c r" "t \<noteq> [] \<Longrightarrow> client_split c t = [t]"
  using assms by (subst client_split.simps, simp add: str_simps)+

section \<open>The tokenizer contract\<close>

locale tokenizer =
  fixes tok :: "char \<Rightarrow> string \<Rightarrow> string list"
  assumes tok_last: "field_ok c t \<Longrightarrow> tok c t = [t]"
    and tok_cons: "field_ok c t \<Longrightarrow> r \<noteq> [] \<Longrightarrow> tok c (t @ c # r) = t # tok c r"
begin

lemma tok_join: "\<forall>t \<in> set ts. field_ok c t \<Longrightarrow> ts \<noteq> [] \<Longrightarrow> tok c (join c ts) = ts"
proof (induction c ts rule: join.induct)
  case (3 c t u ts)
  have "\<forall>t \<in> set (u # ts). t \<noteq> []" using "3.prems" by (auto simp: field_ok_def)
  then have "join c (u # ts) \<noteq> []" using join_eq_Nil [of "u # ts" c] by simp
  with 3 show ?case by (simp add: tok_cons)
qed (simp_all add: tok_last)

lemma tok_two: "field_ok c a \<Longrightarrow> field_ok c b \<Longrightarrow> tok c (a @ c # b) = [a, b]"
  using tok_join [of "[a, b]" c] by simp

lemma tok_three:
  "field_ok c x \<Longrightarrow> field_ok c y \<Longrightarrow> field_ok c z \<Longrightarrow> tok c (x @ c # y @ c # z) = [x, y, z]"
  using tok_join [of "[x, y, z]" c] by simp

lemma tok_four:
  "field_ok c x \<Longrightarrow> field_ok c y \<Longrightarrow> field_ok c z \<Longrightarrow> field_ok c w \<Longrightarrow>
     tok c (x @ c # y @ c # z @ c # w) = [x, y, z, w]"
  using tok_join [of "[x, y, z, w]" c] by simp

lemma tok_five:
  "field_ok c v \<Longrightarrow> field_ok c w \<Longrightarrow> field_ok c x \<Longrightarrow> field_ok c y \<Longrightarrow> field_ok c z \<Longrightarrow>
     tok c (v @ c # w @ c # x @ c # y @ c # z) = [v, w, x, y, z]"
  using tok_join [of "[v, w, x, y, z]" c] by simp

end

interpretation master_tok: tokenizer "\<lambda>c s. master_split s [c]"
  by unfold_locales (simp_all add: master_split_field)

interpretation client_tok: tokenizer client_split
  by unfold_locales (auto simp: client_split_field field_ok_def)

text \<open>Outside well-formed messages the two splitters differ: on empty fields.\<close>

lemma splitters_differ:
  "master_split ''a##b'' ''#'' = [''a'', ''b'']" "client_split CHR ''#'' ''a##b'' = [''a'', '''', ''b'']"
  by (simp_all add: master_split.simps client_split.simps)

section \<open>slice of cache.cpp\<close>

text \<open>Without a separator the second \<open>substr\<close> starts past the end and throws.\<close>

definition slice :: "string \<Rightarrow> (string \<times> string) result" where
  "slice message =
     (let spear = spear_loop CHR ''#'' message 0
      in andThen (substr message 0 spear) (\<lambda>key.
         andThen (substr message (spear + 1) (length message - spear - 1)) (\<lambda>val.
         Inr (key, val))))"

lemma slice_pair: "CHR ''#'' \<notin> set k \<Longrightarrow> slice (k @ CHR ''#'' # v) = Inr (k, v)"
  by (simp add: slice_def Let_def str_simps)

lemma slice_throws: "CHR ''#'' \<notin> set m \<Longrightarrow> slice m = Inl Out_of_range"
  by (simp add: slice_def Let_def str_simps)

section \<open>The address-list loop of initial and replica_cache\<close>

text \<open>
  Fields go to \<open>ip\<close> and \<open>port\<close> alternately as their separator is met; what remains after the
  last separator is pushed to \<open>port\<close>.
\<close>

fun addr_loop :: "string \<Rightarrow> string \<Rightarrow> nat \<Rightarrow> string list \<Rightarrow> string list \<Rightarrow> string list \<times> string list" where
  "addr_loop [] tmp count ip port = (ip, port @ [tmp])"
| "addr_loop (single # s) tmp count ip port =
     (if single \<noteq> CHR ''#'' then addr_loop s (tmp @ [single]) count ip port
      else if count mod 2 = 0 then addr_loop s [] (count + 1) (ip @ [tmp]) port
      else addr_loop s [] (count + 1) ip (port @ [tmp]))"

lemma addr_loop_field:
  "CHR ''#'' \<notin> set t \<Longrightarrow> addr_loop (t @ s) tmp n ip port = addr_loop s (tmp @ t) n ip port"
  by (induction t arbitrary: tmp) auto

lemma addr_loop_pair:
  assumes "CHR ''#'' \<notin> set a" "CHR ''#'' \<notin> set p" "n mod 2 = 0"
  shows "addr_loop (a @ CHR ''#'' # p @ CHR ''#'' # s) [] n ip port =
    addr_loop s [] (n + 2) (ip @ [a]) (port @ [p])"
  using assms by (simp add: addr_loop_field mod_Suc)

text \<open>The list format \<open>ip1#port1#ip2#port2#...\<close> of the master.\<close>

definition addr_fields :: "(string \<times> string) list \<Rightarrow> string" where
  "addr_fields as = join CHR ''#'' (concat (map (\<lambda>(a, p). [a, p]) as))"

lemma addr_loop_list:
  assumes "\<forall>(a, p) \<in> set as. CHR ''#'' \<notin> set a \<and> CHR ''#'' \<notin> set p" "as \<noteq> []" "n mod 2 = 0"
  shows "addr_loop (addr_fields as) [] n ip port = (ip @ map fst as, port @ map snd as)"
  using assms
proof (induction as arbitrary: n ip port)
  case (Cons e as)
  obtain a p where e: "e = (a, p)" by (cases e)
  have ap: "CHR ''#'' \<notin> set a" "CHR ''#'' \<notin> set p" using Cons.prems e by auto
  show ?case
  proof (cases as)
    case Nil
    have "addr_fields (e # as) = a @ CHR ''#'' # p" by (simp add: addr_fields_def e Nil)
    then show ?thesis
      using ap Cons.prems(3) addr_loop_field [OF ap(1), of "CHR ''#'' # p" "[]" n ip port]
        addr_loop_field [OF ap(2), of "[]"] e Nil by simp
  next
    case (Cons e' as')
    obtain a' p' where e': "e' = (a', p')" by (cases e')
    have "addr_fields (e # as) = a @ CHR ''#'' # p @ CHR ''#'' # addr_fields as"
      by (simp add: addr_fields_def e Cons e')
    then show ?thesis
      using addr_loop_pair [OF ap Cons.prems(3)] Cons.IH [of "n + 2"] Cons.prems Cons e by simp
  qed
qed simp

end
