(* ===== verification/Sockets.thy ===== *)
theory Sockets
  imports Wire
begin

text \<open>
  Setting up connections: \<open>server_socket\<close>, \<open>client_socket\<close> and \<open>addfd\<close> of \<open>cache.cpp\<close>, the
  listeners of \<open>master.cpp\<close> and \<open>connect_master\<close> of \<open>client.cpp\<close>.  What the system calls return
  is a record of numbers, an argument of each definition.
\<close>

section \<open>std::stoi and std::to_string\<close>

text \<open>White space, a sign, then digits; the rest of the string is ignored.\<close>

definition is_space :: "char \<Rightarrow> bool" where
  "is_space x \<longleftrightarrow> (of_char x :: nat) = 32 \<or> 9 \<le> (of_char x :: nat) \<and> (of_char x :: nat) \<le> 13"

definition is_digit :: "char \<Rightarrow> bool" where
  "is_digit x \<longleftrightarrow> 48 \<le> (of_char x :: nat) \<and> (of_char x :: nat) \<le> 57"

definition digits_value :: "string \<Rightarrow> int" where
  "digits_value ds = foldl (\<lambda>n d. 10 * n + (int (of_char d) - 48)) 0 ds"

definition stoi :: "string \<Rightarrow> int result" where
  "stoi s =
     (let s1 = dropWhile is_space s;
          neg = (take 1 s1 = ''-'');
          s2 = (if take 1 s1 = ''-'' \<or> take 1 s1 = ''+'' then drop 1 s1 else s1);
          ds = takeWhile is_digit s2;
          n = (if neg then - digits_value ds else digits_value ds)
      in if ds = '''' then Inl Invalid_argument
         else if n < - (2 ^ 31) \<or> 2 ^ 31 \<le> n then Inl Out_of_range
         else Inr n)"

text \<open>\<open>std::to_string(std::stoi(port) + 1)\<close>; the addition may overflow.\<close>

definition port_for_replica :: "string \<Rightarrow> string result" where
  "port_for_replica port =
     andThen (stoi port) (\<lambda>p. if p = 2 ^ 31 - 1 then Inl Undefined else Inr (show_int (p + 1)))"

section \<open>System calls\<close>

record syscalls =
  sys_socket :: int
  sys_setsockopt :: int
  sys_bind :: int
  sys_listen :: int
  sys_connect :: int
  sys_epoll :: int

definition check_call :: "bool \<Rightarrow> int \<Rightarrow> 'a result \<Rightarrow> 'a result" where
  "check_call failed code k = (if failed then Inl (Exit_process code) else k)"

text \<open>\<open>htons\<close> keeps the low 16 bits of the port.\<close>

definition host_port :: "string \<Rightarrow> nat result" where
  "host_port port = andThen (stoi port) (\<lambda>p. Inr (nat (p mod 65536)))"

definition server_socket :: "syscalls \<Rightarrow> string \<Rightarrow> string \<Rightarrow> (int \<times> nat) result" where
  "server_socket sys ip port =
     check_call (sys_socket sys = -1) 1
       (if BUF_SIZE \<le> length ip then Inl Undefined
        else andThen (host_port port) (\<lambda>p.
          check_call (sys_setsockopt sys < 0) 1
            (check_call (sys_bind sys = -1) 1
              (check_call (sys_listen sys = -1) 1 (Inr (sys_socket sys, p))))))"

definition client_socket :: "syscalls \<Rightarrow> string \<Rightarrow> string \<Rightarrow> (int \<times> nat) result" where
  "client_socket sys ip port =
     check_call (sys_socket sys = -1) 1
       (if BUF_SIZE \<le> length ip then Inl Undefined
        else andThen (host_port port) (\<lambda>p.
          check_call (sys_connect sys = -1) 1 (Inr (sys_socket sys, p))))"

text \<open>The listeners of the master, for clients and for caches: \<open>start_client\<close>, \<open>start_cache\<close>\<close>

definition client_listener :: "syscalls \<Rightarrow> int result" where
  "client_listener sys =
     check_call (sys_socket sys < 0) (-1)
       (check_call (sys_setsockopt sys < 0) 1
         (check_call (sys_bind sys < 0) (-1)
           (check_call (sys_listen sys < 0) (-1)
             (check_call (sys_epoll sys < 0) (-1) (Inr (sys_socket sys))))))"

definition cache_listener :: "syscalls \<Rightarrow> int result" where
  "cache_listener sys =
     check_call (sys_socket sys < 0) (-1)
       (check_call (sys_setsockopt sys < 0) 1
         (check_call (sys_bind sys < 0) (-1)
           (check_call (sys_listen sys < 0) (-1)
             (check_call (sys_epoll sys < 0) (-1) (Inr (sys_socket sys))))))"

definition connect_master :: "syscalls \<Rightarrow> int result" where
  "connect_master sys =
     check_call (sys_socket sys = -1) 1 (check_call (sys_connect sys = -1) 1 (Inr (sys_socket sys)))"

text \<open>
  \<open>addfd\<close>: the events registered, and the file flags set.  The flags come from \<open>F_GETFD\<close>, the
  descriptor flags, not from \<open>F_GETFL\<close>: the file status flags of the socket are lost.
\<close>

datatype epoll_flag = EPOLLIN | EPOLLET

record fd_flags =
  status_flags :: "string set"
  descriptor_flags :: "string set"

definition addfd :: "bool \<Rightarrow> fd_flags \<Rightarrow> epoll_flag list \<times> fd_flags" where
  "addfd enable_et f =
     (if enable_et then [EPOLLIN, EPOLLET] else [EPOLLIN],
      f\<lparr>status_flags := insert ''O_NONBLOCK'' (descriptor_flags f)\<rparr>)"

section \<open>Ports round trip\<close>

lemma digits_value_snoc: "digits_value (ds @ [d]) = 10 * digits_value ds + (int (of_char d) - 48)"
  by (simp add: digits_value_def)

lemma dec_digits_value: "digits_value (dec_digits n) = int n"
proof (induction n rule: dec_digits.induct)
  case (1 n)
  show ?case
  proof (cases "n < 10")
    case True
    then show ?thesis by (simp add: digits_value_def dec_digits.simps [of n])
  next
    case False
    have "10 * int (n div 10) + int (n mod 10) = int n" by presburger
    with 1 False show ?thesis by (simp add: digits_value_snoc dec_digits.simps [of n])
  qed
qed

lemma dec_digits_is_digit: "x \<in> set (dec_digits n) \<Longrightarrow> is_digit x"
  using dec_digits_are_digits by (auto simp: is_digit_def)

text \<open>A number printed by \<open>std::to_string\<close> is read back, so the port of the replica link is the port
  of the peer link plus one on both sides.\<close>

lemma stoi_dec_digits:
  assumes "int n < 2 ^ 31"
  shows "stoi (dec_digits n) = Inr (int n)"
proof -
  obtain d ds where d: "dec_digits n = d # ds" using dec_digits_nonempty [of n] by (cases "dec_digits n") auto
  then have "48 \<le> (of_char d :: nat)" using dec_digits_are_digits [of d n] by simp
  then have "\<not> is_space d" "d \<noteq> CHR ''-''" "d \<noteq> CHR ''+''" by (auto simp: is_space_def)
  moreover have "takeWhile is_digit (dec_digits n) = dec_digits n"
    by (rule takeWhile_eq_all_conv [THEN iffD2]) (simp add: dec_digits_is_digit)
  ultimately show ?thesis using assms d dec_digits_value [of n]
    by (simp add: stoi_def Let_def)
qed

lemma port_for_replica_dec:
  "int n < 2 ^ 31 - 1 \<Longrightarrow> port_for_replica (dec_digits n) = Inr (dec_digits (n + 1))"
  by (simp add: port_for_replica_def stoi_dec_digits show_int_def nat_add_distrib)

lemma server_port:
  assumes "n < 65536" "length ip < BUF_SIZE" "sys_socket sys \<noteq> -1" "0 \<le> sys_setsockopt sys"
    "sys_bind sys \<noteq> -1" "sys_listen sys \<noteq> -1"
  shows "server_socket sys ip (dec_digits n) = Inr (sys_socket sys, n)"
  using assms by (simp add: server_socket_def check_call_def host_port_def stoi_dec_digits)

lemma client_port:
  assumes "n < 65536" "length ip < BUF_SIZE" "sys_socket sys \<noteq> -1" "sys_connect sys \<noteq> -1"
  shows "client_socket sys ip (dec_digits n) = Inr (sys_socket sys, n)"
  using assms by (simp add: client_socket_def check_call_def host_port_def stoi_dec_digits)

end
