(* ===== verification/Cache_Server.thy ===== *)
theory Cache_Server
  imports Lru_Server Consistent_Hash Wire Sockets
begin

text \<open>
  \<open>cache/src/cache.cpp\<close>: the state of a cache server and the body of each of its threads as
  a transition: one heartbeat (\<open>Heartbeat\<close>, \<open>initial\<close>, \<open>ReadFromMaster\<close>), one client request
  (\<open>Client_chat\<close>), one turn of the scale-in thread (\<open>cache_pass\<close>, \<open>cal_hash_key\<close>,
  \<open>to_single_cache\<close>, \<open>from_single_cache\<close>) and one turn of the replication loops
  (\<open>primary_cache\<close>, \<open>replica_cache\<close>).  Sockets are events: what a \<open>recv\<close> delivers is an
  argument, what is sent is a result, and what the system calls of a new connection return is
  a function \<open>net\<close> of the address.  The reply to a client is the whole send buffer, as it is sent.
\<close>

section \<open>State\<close>

text \<open>
  The members of the class; \<open>send_buff_client\<close> is the array of that name, a local variable of
  \<open>Client_chat\<close> that lives as long as the thread and has no initial value.
\<close>

record Cache =
  MainCache :: LRU_Cache
  cache_size_local :: int
  status :: string
  pr_status :: string
  local_cache_IP :: string
  port_for_client :: string
  port_for_cache :: string
  target_IP :: string
  target_port :: string
  cache_list :: "(string \<times> string) list"
  cache_list_update_flag :: bool
  kv_to_replica :: string
  kv_update_flag :: bool
  is_initialed :: int
  initial_flag :: bool
  dying_cache_IP :: string
  dying_cache_Port :: string
  otherIP :: "string list"
  otherPort :: "string list"
  out_key :: "string list"
  pt :: "string set"
  send_buff_client :: "nat \<Rightarrow> char option"

definition Cache_new :: "int \<Rightarrow> string \<Rightarrow> string \<Rightarrow> string \<Rightarrow> string \<Rightarrow> Cache" where
  "Cache_new sz st ip client_port cache_port =
     \<lparr>MainCache = LRU_Cache_default, cache_size_local = sz,
      status = st, pr_status = st, local_cache_IP = ip,
      port_for_client = client_port, port_for_cache = cache_port,
      target_IP = ''None'', target_port = ''None'', cache_list = [],
      cache_list_update_flag = False, kv_to_replica = '''', kv_update_flag = False,
      is_initialed = 0, initial_flag = (st = ''R''),
      dying_cache_IP = '''', dying_cache_Port = '''', otherIP = [], otherPort = [], out_key = [],
      pt = {}, send_buff_client = (\<lambda>_. None)\<rparr>"

section \<open>initial\<close>

text \<open>The lambda \<open>is_not_init\<close>; on an empty message \<open>message[0]\<close> is the terminating NUL.\<close>

definition is_not_init :: "string \<Rightarrow> bool" where
  "is_not_init message =
     (if length message \<noteq> 0 then False
      else if \<not> (of_char (CHR 0x00) \<ge> (48::nat) \<and> of_char (CHR 0x00) \<le> (48::nat)) then False
      else True)"

text \<open>\<open>while (is_not_init(buf)) recv(...)\<close>; \<open>later\<close> are the messages the socket delivers.\<close>

fun await_init :: "string \<Rightarrow> string list \<Rightarrow> string" where
  "await_init buf [] = buf"
| "await_init buf (m # later) = (if is_not_init buf then await_init m later else buf)"

text \<open>\<open>NO_INIT\<close> is 0, \<open>SUCCESS_INIT\<close> is 1, \<open>ERROR_INIT\<close> is 2.\<close>

definition initial :: "string \<Rightarrow> string list \<Rightarrow> Cache \<Rightarrow> Cache" where
  "initial recv_buff later c =
     (let buf = await_init recv_buff later
      in if length buf = 0 then c\<lparr>is_initialed := 2\<rparr>
         else let (ip, port) = addr_loop buf [] 0 [] []
              in if length ip \<noteq> length port then c\<lparr>is_initialed := 2\<rparr>
                 else c\<lparr>cache_list := cache_list c @ zip ip port, is_initialed := 1\<rparr>)"

section \<open>ReadFromMaster and update_cache\<close>

text \<open>\<open>find_if\<close> followed by \<open>erase(it)\<close>: erasing the end iterator is undefined.\<close>

definition erase_found :: "'a \<Rightarrow> 'a list \<Rightarrow> 'a list result" where
  "erase_found x xs = (if x \<in> set xs then Inr (remove1 x xs) else Inl Undefined)"

definition update_cache :: "string \<Rightarrow> string \<Rightarrow> string \<Rightarrow> Cache \<Rightarrow> Cache result" where
  "update_cache IP port st c =
     andThen
       (if st = ''N'' then
          Inr (if IP \<noteq> local_cache_IP c \<or> port \<noteq> port_for_cache c
               then c\<lparr>cache_list := cache_list c @ [(IP, port)]\<rparr> else c)
        else if st = ''K'' then
          andThen (erase_found (IP, port) (cache_list c)) (\<lambda>l.
            Inr (c\<lparr>dying_cache_IP := IP, dying_cache_Port := port, cache_list := l\<rparr>))
        else Inr c)
       (\<lambda>c'. Inr (c'\<lparr>cache_list_update_flag := True\<rparr>))"

text \<open>The scan starts at index 2; for a message of one byte it reads past the terminator.\<close>

definition master_spear :: "string \<Rightarrow> nat result" where
  "master_spear message =
     (if message = [] then Inr 2
      else if length message < 2 then Inl Undefined
      else Inr (spear_loop CHR ''#'' (drop 2 message) 2))"

text \<open>The lambda \<open>part\<close>\<close>

definition part :: "string \<Rightarrow> nat \<Rightarrow> nat \<Rightarrow> string result" where
  "part str spear part_num =
     (if part_num = 1 then substr str 2 (spear - 2)
      else if part_num = 2 then substr str (spear + 1) (length str - spear - 1)
      else Inl Undefined)"

definition parts :: "string \<Rightarrow> nat \<Rightarrow> (string \<times> string) result" where
  "parts str spear = andThen (part str spear 1) (\<lambda>a. andThen (part str spear 2) (\<lambda>b. Inr (a, b)))"

text \<open>The common tail of the branches \<open>P\<close> and \<open>R\<close>\<close>

definition set_target :: "string \<Rightarrow> nat \<Rightarrow> Cache \<Rightarrow> Cache result" where
  "set_target message spear c =
     andThen (substr message 2 (length message - 2)) (\<lambda>rest.
       if rest = ''None'' then Inr (c\<lparr>target_IP := ''None'', target_port := ''None''\<rparr>)
       else andThen (parts message spear) (\<lambda>(ip, port).
              Inr (c\<lparr>target_IP := ip, target_port := port\<rparr>)))"

text \<open>
  In branch \<open>C\<close> the lambda \<open>slice\<close> has no return statement: flowing off its end is undefined
  behaviour, so no execution of this branch has a defined result.
\<close>

definition ReadFromMaster :: "string \<Rightarrow> Cache \<Rightarrow> Cache result" where
  "ReadFromMaster message c =
     andThen (master_spear message) (\<lambda>spear.
     andThen (substr message 0 1) (\<lambda>head.
       if status c = ''K'' then Inr c
       else if head = ''K'' then
         andThen (parts message spear) (\<lambda>(ip, port).
         andThen (update_cache ip port ''K''
                   (c\<lparr>dying_cache_IP := ip, dying_cache_Port := port\<rparr>)) (\<lambda>c'.
           Inr (if ip = local_cache_IP c' \<and> port = port_for_cache c'
                then c'\<lparr>status := ''K''\<rparr> else c')))
       else if head = ''N'' then
         andThen (parts message spear) (\<lambda>(ip, port). update_cache ip port ''N'' c)
       else if head = ''P'' then
         set_target message spear (c\<lparr>status := ''P'', pr_status := ''P''\<rparr>)
       else if head = ''R'' then
         set_target message spear (c\<lparr>status := ''R''\<rparr>)
       else if head = ''C'' then
         andThen (parts message spear) (\<lambda>_. Inl Undefined)
       else if head = ''D'' then
         andThen (parts message spear) (\<lambda>dead.
         andThen (erase_found dead (cache_list c)) (\<lambda>l. Inr (c\<lparr>cache_list := l\<rparr>)))
       else Inr c))"

section \<open>Heartbeat\<close>

text \<open>What the non-blocking \<open>recv\<close> yields: nothing yet (-1), end of stream (0), a message.\<close>

datatype recv_result = Would_block | Closed | Received string

fun recv_text :: "recv_result \<Rightarrow> string" where
  "recv_text (Received m) = m"
| "recv_text _ = ''''"

definition heart_message :: "Cache \<Rightarrow> string" where
  "heart_message c = ''x#'' @ local_cache_IP c @ ''#'' @ port_for_client c @ ''#'' @
     port_for_cache c @ ''#'' @ pr_status c"

definition Heartbeat :: "recv_result \<Rightarrow> string list \<Rightarrow> Cache \<Rightarrow> (string \<times> Cache) result" where
  "Heartbeat r later c =
     andThen (if r \<noteq> Closed \<and> initial_flag c then ReadFromMaster (recv_text r) c else Inr c) (\<lambda>c1.
     andThen (if \<not> initial_flag c1 \<and> r \<noteq> Closed \<and> r \<noteq> Would_block
              then let c2 = initial (recv_text r) later c1
                   in if is_initialed c2 = 0 \<or> is_initialed c2 = 2 then Inl (Exit_process 1)
                      else Inr (c2\<lparr>initial_flag := True\<rparr>)
              else Inr c1) (\<lambda>c3.
     Inr (heart_message c, c3)))"

section \<open>Client_chat\<close>

definition local_addr :: "Cache \<Rightarrow> string" where
  "local_addr c = local_cache_IP c @ '':'' @ port_for_client c"

text \<open>\<open>LRU_handle_task\<close>: the reply it leaves in \<open>buffer\<close> and the new cache\<close>

definition LRU_handle_task :: "string \<Rightarrow> Cache \<Rightarrow> (string \<times> Cache) result" where
  "LRU_handle_task message c =
     (let spear = spear_loop CHR ''#'' message 0
      in if spear = length message then
           let key = message
           in if check key (MainCache c) then
                andThen (deref_opt (get key (MainCache c))) (\<lambda>(res, m).
                  Inr (''SUCCESS#'' @ key @ ''#'' @ local_addr c @ ''#'' @ res, c\<lparr>MainCache := m\<rparr>))
              else Inr (''FAILED#'' @ key @ ''#'' @ local_addr c, c)
         else
           andThen (substr message 0 spear) (\<lambda>key.
           andThen (substr message (spear + 1) (length message)) (\<lambda>val.
           andThen (deref_opt (put key val (MainCache c))) (\<lambda>(_, m).
             Inr (''SUCCESS#'' @ key @ ''#'' @ local_addr c, c\<lparr>MainCache := m\<rparr>)))))"

text \<open>
  \<open>memcpy(send_buff_client, buffer.c_str(), buffer.size())\<close>, whatever the size: the terminating NUL is
  not copied.  \<open>bzero\<close> clears the array.
\<close>

definition memcpy :: "string \<Rightarrow> (nat \<Rightarrow> char option) \<Rightarrow> (nat \<Rightarrow> char option) result" where
  "memcpy buffer buf =
     (if BUF_SIZE < length buffer then Inl Undefined
      else Inr (\<lambda>i. if i < length buffer then Some (buffer ! i) else buf i))"

definition bzero :: "nat \<Rightarrow> char option" where
  "bzero = (\<lambda>_. Some NUL)"

text \<open>
  One readable client socket: the \<open>BUF_SIZE\<close> bytes that are sent, if any.  The buffer is cleared after
  every event, a closed connection included, and not before the first; the request is left for the
  replica.
\<close>

definition Client_chat :: "recv_result \<Rightarrow> Cache \<Rightarrow> (frame option \<times> Cache) result" where
  "Client_chat r c =
     (if r = Closed then Inr (None, c\<lparr>send_buff_client := bzero\<rparr>)
      else andThen (LRU_handle_task (recv_text r) c) (\<lambda>(buffer, c').
           andThen (memcpy buffer (send_buff_client c')) (\<lambda>buf.
           Inr (Some (map buf [0..<BUF_SIZE]),
                c'\<lparr>kv_update_flag := True, kv_to_replica := recv_text r, send_buff_client := bzero\<rparr>))))"

section \<open>Scale-in\<close>

text \<open>
  \<open>to_single_cache\<close>: the message goes to \<open>ip:port\<close>; a failed connection ends the process
  (\<open>client_socket\<close>), and \<open>strcpy\<close> needs room for the NUL.
\<close>

definition to_single_cache :: "(string \<Rightarrow> string \<Rightarrow> syscalls) \<Rightarrow> string \<Rightarrow> string \<Rightarrow> string \<Rightarrow> Cache \<Rightarrow>
    ((string \<times> string \<times> string) \<times> Cache) result" where
  "to_single_cache net ip port key c =
     andThen (client_socket (net ip port) ip port) (\<lambda>_.
     andThen (deref_opt (get key (MainCache c))) (\<lambda>(val, m).
       let message = key @ ''#'' @ val
       in if BUF_SIZE \<le> length message then Inl Undefined
          else Inr ((ip, port, message), c\<lparr>MainCache := m\<rparr>)))"

text \<open>\<open>to_single_cache2\<close> sends over a socket that is open already (it is not called).\<close>

definition to_single_cache2 :: "string \<Rightarrow> Cache \<Rightarrow> (string \<times> Cache) result" where
  "to_single_cache2 key c =
     andThen (deref_opt (get key (MainCache c))) (\<lambda>(val, m).
       let message = key @ ''#'' @ val
       in if BUF_SIZE \<le> length message then Inl Undefined
          else Inr (message, c\<lparr>MainCache := m\<rparr>))"

text \<open>
  What a peer sends is stored as a write; a leaving server does not listen.  \<open>sys\<close> is what the calls for
  the listening socket return, \<open>received\<close> what \<open>recv\<close> delivers: when \<open>accept\<close> or \<open>recv\<close> fails, which
  is not checked, the buffer is read although nothing has been written to it.
\<close>

definition from_single_cache :: "syscalls \<Rightarrow> string option \<Rightarrow> Cache \<Rightarrow> Cache result" where
  "from_single_cache sys received c =
     (if status c = ''K'' then Inr c
      else andThen (server_socket sys (local_cache_IP c) (port_for_cache c)) (\<lambda>_.
           andThen (deref_opt received) (\<lambda>recv_buff.
           andThen (slice recv_buff) (\<lambda>(key, val).
           andThen (deref_opt (put key val (MainCache c))) (\<lambda>(_, m). Inr (c\<lparr>MainCache := m\<rparr>))))))"

text \<open>The target of one key: the ring over the current \<open>cache_list\<close> with 100 virtual nodes.\<close>

definition local_ring :: "Cache \<Rightarrow> ConsistentHash" where
  "local_ring c = initialize (int (length (cache_list c))) 100
                    \<lparr>key2Index = [], ch_nodes = 0, ch_v_nodes = 0\<rparr>"

definition key_target :: "ConsistentHash \<Rightarrow> string list \<Rightarrow> string \<Rightarrow> (string \<times> string) result" where
  "key_target ring caches key =
     andThen (server_index ring key) (\<lambda>idx. andThen (vec_at caches idx) slice)"

fun key_targets :: "ConsistentHash \<Rightarrow> string list \<Rightarrow> string list \<Rightarrow> (string \<times> string) list result" where
  "key_targets ring caches [] = Inr []"
| "key_targets ring caches (key # keys) =
     andThen (key_target ring caches key) (\<lambda>t.
     andThen (key_targets ring caches keys) (\<lambda>ts. Inr (t # ts)))"

text \<open>\<open>order\<close> is the iteration order of the hash table of the local store.\<close>

definition cal_hash_key :: "string list \<Rightarrow> Cache \<Rightarrow> Cache result" where
  "cal_hash_key order c =
     (let caches = map (\<lambda>(ip, port). ip @ ''#'' @ port) (cache_list c);
          all_keys = all_key order (MainCache c)
      in andThen (key_targets (local_ring c) caches all_keys) (\<lambda>ts.
         Inr (c\<lparr>otherIP := map fst ts, otherPort := map snd ts,
                pt := pt c \<union> snd ` set ts, out_key := all_keys\<rparr>)))"

fun send_all :: "(string \<Rightarrow> string \<Rightarrow> syscalls) \<Rightarrow> (string \<times> string \<times> string) list \<Rightarrow> Cache \<Rightarrow>
    ((string \<times> string \<times> string) list \<times> Cache) result" where
  "send_all net [] c = Inr ([], c)"
| "send_all net ((ip, port, key) # rest) c =
     andThen (to_single_cache net ip port key c) (\<lambda>(m, c1).
     andThen (send_all net rest c1) (\<lambda>(ms, c2). Inr (m # ms, c2)))"

text \<open>
  One turn of the loop of \<open>cache_pass\<close>: it goes on, the thread returns, or the process exits
  after the transfers.  \<open>received\<close> is what a peer sends, if the turn listens.
\<close>

datatype pass_outcome = Pass_continue | Pass_return | Pass_exit "(string \<times> string \<times> string) list"

definition cache_pass :: "(string \<Rightarrow> string \<Rightarrow> syscalls) \<Rightarrow> string list \<Rightarrow> string option \<Rightarrow> Cache \<Rightarrow> (pass_outcome \<times> Cache) result" where
  "cache_pass net order received c =
     (if status c = ''K'' then
        if length (cache_list c) = 0 then Inr (Pass_return, c)
        else andThen (cal_hash_key order c) (\<lambda>c1.
             andThen (send_all net (zip (otherIP c1) (zip (otherPort c1) (out_key c1))) c1) (\<lambda>(ms, c2).
             Inr (Pass_exit ms, c2)))
      else if status c = ''P'' then
        if length (dying_cache_IP c) = 0 \<or> length (dying_cache_Port c) = 0
        then Inr (Pass_continue, c)
        else andThen (from_single_cache (net (local_cache_IP c) (port_for_cache c)) received c) (\<lambda>c1.
             Inr (Pass_continue, c1\<lparr>cache_list_update_flag := True\<rparr>))
      else if status c = ''R'' then
        andThen (from_single_cache (net (local_cache_IP c) (port_for_cache c)) received c) (\<lambda>c1. Inr (Pass_continue, c1))
      else Inr (Pass_continue, c))"

section \<open>Replication\<close>

text \<open>The cache list as \<open>primary_cache\<close> writes it: no separator between the entries.\<close>

definition replica_list_message :: "(string \<times> string) list \<Rightarrow> string" where
  "replica_list_message l = ''#'' @ concat (map (\<lambda>(ip, port). ip @ ''#'' @ port) l)"

text \<open>
  One turn of the loops of \<open>primary_cache\<close>: the outer loop waits until a replica is known;
  once \<open>entered\<close>, the inner loop never looks at the target again.  \<open>strcpy\<close> copies each message
  into a buffer of \<open>BUF_SIZE\<close> bytes.
\<close>

definition primary_cache :: "bool \<Rightarrow> Cache \<Rightarrow> (bool \<times> string list \<times> Cache) result" where
  "primary_cache entered c =
     (if \<not> entered \<and> target_port c = ''None'' then Inr (False, [], c)
      else let out = (if cache_list_update_flag c then [replica_list_message (cache_list c)] else []) @
                     (if kv_update_flag c then [kv_to_replica c] else [])
           in if \<exists>m \<in> set out. BUF_SIZE \<le> length m then Inl Undefined
              else Inr (True, out, c\<lparr>cache_list_update_flag := False, kv_update_flag := False\<rparr>))"

text \<open>One turn of \<open>replica_cache\<close>; \<open>None\<close> is the end of the loop (the replica was promoted).\<close>

definition replica_cache :: "string \<Rightarrow> Cache \<Rightarrow> Cache option result" where
  "replica_cache recv_message c =
     (if pr_status c \<noteq> ''R'' then Inr None
      else if take 1 recv_message = ''#'' then
        let (ip, port) = addr_loop (drop 1 recv_message) [] 0 [] [];
            c1 = (if length ip \<noteq> length port then c
                  else c\<lparr>cache_list := cache_list c @ zip ip port\<rparr>)
        in if (target_IP c1, target_port c1) \<in> set (cache_list c1) then Inr (Some c1)
           else Inl (Exit_process 0)
      else
        let spear = spear_loop CHR ''#'' recv_message 0
        in if spear = length recv_message then
             if check recv_message (MainCache c) then
               andThen (deref_opt (get recv_message (MainCache c))) (\<lambda>(_, m).
                 Inr (Some (c\<lparr>MainCache := m\<rparr>)))
             else Inr (Some c)
           else
             andThen (substr recv_message 0 spear) (\<lambda>key.
             andThen (substr recv_message (spear + 1) (length recv_message)) (\<lambda>val.
             andThen (deref_opt (put key val (MainCache c))) (\<lambda>(_, m).
               Inr (Some (c\<lparr>MainCache := m\<rparr>))))))"

text \<open>
  \<open>replica_chat\<close> as a state machine; \<open>recv_message\<close> is what the primary sends, if read.  The two
  loops are entered once the socket of the link is open, on the port that follows the port for caches;
  the result of \<open>accept\<close> is not looked at.
\<close>

datatype replica_phase = Chat_start | Chat_wait | Chat_replica | Chat_primary bool | Chat_end

definition enter_primary :: "(string \<Rightarrow> string \<Rightarrow> syscalls) \<Rightarrow> Cache \<Rightarrow> replica_phase result" where
  "enter_primary net c =
     andThen (port_for_replica (port_for_cache c)) (\<lambda>port.
     andThen (server_socket (net (local_cache_IP c) port) (local_cache_IP c) port) (\<lambda>_.
       Inr (Chat_primary False)))"

definition enter_replica :: "(string \<Rightarrow> string \<Rightarrow> syscalls) \<Rightarrow> Cache \<Rightarrow> replica_phase result" where
  "enter_replica net c =
     andThen (port_for_replica (target_port c)) (\<lambda>port.
     andThen (client_socket (net (target_IP c) port) (target_IP c) port) (\<lambda>_. Inr Chat_replica))"

fun replica_chat :: "(string \<Rightarrow> string \<Rightarrow> syscalls) \<Rightarrow> replica_phase \<Rightarrow> string \<Rightarrow> Cache \<Rightarrow>
    (replica_phase \<times> string list \<times> Cache) result" where
  "replica_chat net Chat_start recv_message c =
     andThen (if pr_status c = ''P'' then enter_primary net c else Inr Chat_wait) (\<lambda>ph. Inr (ph, [], c))"
| "replica_chat net Chat_wait recv_message c =
     andThen (if target_port c = ''None'' then Inr Chat_wait else enter_replica net c) (\<lambda>ph. Inr (ph, [], c))"
| "replica_chat net Chat_replica recv_message c =
     andThen (replica_cache recv_message c) (\<lambda>r.
       case r of
         None \<Rightarrow> andThen (if pr_status c = ''P'' then enter_primary net c else Inr Chat_end) (\<lambda>ph. Inr (ph, [], c))
       | Some c' \<Rightarrow> Inr (Chat_replica, [], c'))"
| "replica_chat net (Chat_primary entered) recv_message c =
     andThen (primary_cache entered c) (\<lambda>(e, ms, c'). Inr (Chat_primary e, ms, c'))"
| "replica_chat net Chat_end recv_message c = Inr (Chat_end, [], c)"

section \<open>Start and main\<close>

text \<open>The thread of \<open>replica_chat\<close> is commented out in \<open>Start\<close>.\<close>

datatype cache_thread = Heartbeat_thread | Client_chat_thread | Cache_pass_thread | Replica_chat_thread

definition Cache_Start :: "cache_thread list" where
  "Cache_Start = [Heartbeat_thread, Client_chat_thread, Cache_pass_thread]"

definition cache_main :: "string list \<Rightarrow> (Cache \<times> cache_thread list) result" where
  "cache_main argv =
     (if length argv \<noteq> 5 then Inl (Exit_process (-1))
      else Inr (Cache_new 10 (argv ! 1) (argv ! 2) (argv ! 3) (argv ! 4), Cache_Start))"

end
