(* ===== verification/Cache_Facts.thy ===== *)
theory Cache_Facts
  imports Cache_Server
begin

text \<open>
  What the threads of a cache server guarantee (model in theory \<open>Cache_Server\<close>): the client
  protocol refines the recency list of \<open>Lru_Spec\<close> with the documented replies, the commands
  of the master have the documented effect, a dying cache hands over every entry, and a
  replica that receives the requests of its primary stays equal to it.
\<close>

section \<open>The client protocol\<close>

text \<open>A request is a read (\<open>key\<close>) or a write (\<open>key#value\<close>).\<close>

definition req_key :: "string \<Rightarrow> string" where
  "req_key m = takeWhile (\<lambda>x. x \<noteq> CHR ''#'') m"

definition req_val :: "string \<Rightarrow> string" where
  "req_val m = drop (Suc (length (req_key m))) m"

definition req_op :: "string \<Rightarrow> (string, string) lru_op" where
  "req_op m = (if CHR ''#'' \<in> set m then Put (req_key m) (req_val m) else Get m)"

text \<open>The reply of \<open>cache/Readme.md\<close> and of the protocol document, over the abstract store.\<close>

definition spec_reply :: "string \<Rightarrow> (string, string) recency \<Rightarrow> string \<Rightarrow> string" where
  "spec_reply addr es m =
     (if CHR ''#'' \<in> set m then ''SUCCESS#'' @ req_key m @ ''#'' @ addr
      else case map_of es m of
             Some v \<Rightarrow> ''SUCCESS#'' @ m @ ''#'' @ addr @ ''#'' @ v
           | None \<Rightarrow> ''FAILED#'' @ m @ ''#'' @ addr)"

fun spec_replies :: "int \<Rightarrow> string \<Rightarrow> (string, string) recency \<Rightarrow> string list \<Rightarrow> string list" where
  "spec_replies cap addr es [] = []"
| "spec_replies cap addr es (m # ms) =
     spec_reply addr es m # spec_replies cap addr (lru_step cap (req_op m) es) ms"

text \<open>
  What is sent for the replies: \<open>rest\<close> is in the bytes of the send buffer that the first one leaves
  alone, NULs behind all the others.
\<close>

fun spec_frames :: "char option \<Rightarrow> string list \<Rightarrow> frame list" where
  "spec_frames rest [] = []"
| "spec_frames rest (t # ts) = padded rest t # spec_frames (Some NUL) ts"

text \<open>Client requests handled one after the other.\<close>

fun chat_run :: "string list \<Rightarrow> Cache \<Rightarrow> (frame option list \<times> Cache) result" where
  "chat_run [] c = Inr ([], c)"
| "chat_run (m # ms) c =
     andThen (Client_chat (Received m) c) (\<lambda>(r, c1).
     andThen (chat_run ms c1) (\<lambda>(rs, c2). Inr (r # rs, c2)))"

lemma spear_full: "spear_loop CHR ''#'' m 0 = length m \<longleftrightarrow> CHR ''#'' \<notin> set m"
  by (induction m) (auto simp: spear_loop_takeWhile)

lemma spear_req: "spear_loop CHR ''#'' m 0 = length (req_key m)"
  by (simp add: spear_loop_takeWhile req_key_def)

lemma req_key_take: "take (length (req_key m)) m = req_key m"
  by (simp add: req_key_def flip: takeWhile_eq_take)

lemma req_key_length: "CHR ''#'' \<in> set m \<Longrightarrow> Suc (length (req_key m)) \<le> length m"
  unfolding req_key_def by (induction m) auto

lemma handle_write:
  assumes "lru_repr (MainCache c) es" "CHR ''#'' \<in> set m"
  shows "\<exists>L. LRU_handle_task m c = Inr (spec_reply (local_addr c) es m, c\<lparr>MainCache := L\<rparr>) \<and>
    lru_repr L (lru_step (lcapacity (MainCache c)) (req_op m) es) \<and> lcapacity L = lcapacity (MainCache c)"
proof -
  from put_spec [OF assms(1), of "req_key m" "req_val m"] obtain L e where
    L: "put (req_key m) (req_val m) (MainCache c) = Some (e, L)"
      "lru_repr L (lru_put (lcapacity (MainCache c)) (req_key m) (req_val m) es)"
      "lcapacity L = lcapacity (MainCache c)" by blast
  have len: "Suc (length (req_key m)) \<le> length m" using assms(2) by (rule req_key_length)
  have val: "drop (Suc (length (req_key m))) m = req_val m" "take (length m) (req_val m) = req_val m"
    by (simp_all add: req_val_def)
  have "spear_loop CHR ''#'' m 0 \<noteq> length m" using assms(2) spear_full by blast
  then show ?thesis
    using L len val req_key_take [of m] assms(2)
    by (intro exI [of _ L]) (simp add: LRU_handle_task_def Let_def spear_req str_simps spec_reply_def req_op_def)
qed

lemma handle_read:
  assumes r: "lru_repr (MainCache c) es" and m: "CHR ''#'' \<notin> set m"
  shows "\<exists>L. LRU_handle_task m c = Inr (spec_reply (local_addr c) es m, c\<lparr>MainCache := L\<rparr>) \<and>
    lru_repr L (lru_step (lcapacity (MainCache c)) (req_op m) es) \<and> lcapacity L = lcapacity (MainCache c)"
proof (cases "map_of es m")
  case None
  have "\<not> check m (MainCache c)" using check_iff [OF r, of m] None by (simp add: map_of_eq_None_iff)
  with None m r show ?thesis
    by (intro exI [of _ "MainCache c"])
      (simp add: LRU_handle_task_def Let_def spear_full [THEN iffD2] spec_reply_def req_op_def lru_touch_def)
next
  case (Some v)
  then have "check m (MainCache c)" using r by (metis check_iff domI dom_map_of_conv_image_fst)
  with Some m get_hit [OF r Some] show ?thesis
    by (auto simp: LRU_handle_task_def Let_def spear_full [THEN iffD2] spec_reply_def req_op_def)
qed

lemma handle_spec:
  assumes "lru_repr (MainCache c) es"
  obtains L where "LRU_handle_task m c = Inr (spec_reply (local_addr c) es m, c\<lparr>MainCache := L\<rparr>)"
    "lru_repr L (lru_step (lcapacity (MainCache c)) (req_op m) es)" "lcapacity L = lcapacity (MainCache c)"
  using handle_write [OF assms, of m] handle_read [OF assms, of m] by blast

text \<open>Bounds that keep every reply inside the send buffer.\<close>

definition vals_bounded :: "nat \<Rightarrow> (string, string) recency \<Rightarrow> bool" where
  "vals_bounded b es \<longleftrightarrow> (\<forall>(k, v) \<in> set es. length v \<le> b)"

lemma set_lru_step: "set (lru_step cap p es) \<subseteq> set es \<union> (case p of Put k v \<Rightarrow> {(k, v)} | Get k \<Rightarrow> {})"
proof (cases p)
  case (Put k v)
  have "set (butlast ((k, v) # es)) \<subseteq> insert (k, v) (set es)"
    by (auto dest: in_set_butlastD)
  moreover have "set ((k, v) # del_key k es) \<subseteq> insert (k, v) (set es)"
    by (auto simp: del_key_def)
  moreover have "set ((k, v) # es) \<subseteq> insert (k, v) (set es)" by simp
  moreover have "lru_put cap k v es = (k, v) # del_key k es \<or>
      lru_put cap k v es = butlast ((k, v) # es) \<or> lru_put cap k v es = (k, v) # es"
    unfolding lru_put_def by metis
  ultimately have "set (lru_put cap k v es) \<subseteq> insert (k, v) (set es)" by metis
  with Put show ?thesis by simp
next
  case (Get k)
  then show ?thesis
    by (auto simp: lru_touch_def del_key_def dest: map_of_SomeD split: option.splits)
qed

lemma vals_bounded_step:
  assumes "vals_bounded b es" "length m \<le> b"
  shows "vals_bounded b (lru_step cap (req_op m) es)"
proof -
  have "length (req_val m) \<le> b" using assms(2) by (simp add: req_val_def)
  then show ?thesis
    using set_lru_step [of cap "req_op m" es] assms(1)
    unfolding vals_bounded_def by (fastforce simp: req_op_def split: if_splits)
qed

lemma spec_reply_length:
  assumes "vals_bounded b es" "length m \<le> b"
  shows "length (spec_reply addr es m) \<le> 2 * b + length addr + 10"
proof -
  have k: "length (req_key m) \<le> b"
    using assms(2) length_takeWhile_le [of "\<lambda>x. x \<noteq> CHR ''#''" m] by (simp add: req_key_def)
  have v: "length v \<le> b" if "map_of es m = Some v" for v
    using that assms(1) by (auto simp: vals_bounded_def dest: map_of_SomeD)
  show ?thesis using k v assms(2) by (fastforce simp: spec_reply_def split: option.splits)
qed

text \<open>The frame of a reply over what the buffer held before\<close>

definition over_buffer :: "(nat \<Rightarrow> char option) \<Rightarrow> string \<Rightarrow> frame" where
  "over_buffer buf msg = map (\<lambda>i. if i < length msg then Some (msg ! i) else buf i) [0..<BUF_SIZE]"

lemma over_buffer_padded:
  assumes "length msg \<le> BUF_SIZE"
  shows "over_buffer (\<lambda>_. rest) msg = padded rest msg"
proof (rule nth_equalityI)
  show "length (over_buffer (\<lambda>_. rest) msg) = length (padded rest msg)"
    using assms by (simp add: over_buffer_def padded_def)
  show "over_buffer (\<lambda>_. rest) msg ! i = padded rest msg ! i" if "i < length (over_buffer (\<lambda>_. rest) msg)" for i
    using that by (simp add: over_buffer_def padded_def nth_append)
qed

lemma chat_step:
  assumes r: "lru_repr (MainCache c) es" and b: "vals_bounded b es" "length m \<le> b"
    and fits: "2 * b + length (local_addr c) + 10 \<le> BUF_SIZE"
  obtains L where "Client_chat (Received m) c = Inr (Some (over_buffer (send_buff_client c) (spec_reply (local_addr c) es m)),
      c\<lparr>MainCache := L, kv_update_flag := True, kv_to_replica := m, send_buff_client := bzero\<rparr>)"
    "lru_repr L (lru_step (lcapacity (MainCache c)) (req_op m) es)" "lcapacity L = lcapacity (MainCache c)"
proof -
  from handle_spec [OF r, of m] obtain L where
    L: "LRU_handle_task m c = Inr (spec_reply (local_addr c) es m, c\<lparr>MainCache := L\<rparr>)"
      "lru_repr L (lru_step (lcapacity (MainCache c)) (req_op m) es)" "lcapacity L = lcapacity (MainCache c)"
    by metis
  have "\<not> BUF_SIZE < length (spec_reply (local_addr c) es m)"
    using spec_reply_length [OF b, of "local_addr c"] fits by simp
  with L that show thesis by (simp add: Client_chat_def memcpy_def over_buffer_def)
qed

lemma chat_step_padded:
  assumes "lru_repr (MainCache c) es" "vals_bounded b es" "length m \<le> b"
    "2 * b + length (local_addr c) + 10 \<le> BUF_SIZE" "send_buff_client c = (\<lambda>_. rest)"
  obtains L where "Client_chat (Received m) c = Inr (Some (padded rest (spec_reply (local_addr c) es m)),
      c\<lparr>MainCache := L, kv_update_flag := True, kv_to_replica := m, send_buff_client := bzero\<rparr>)"
    "lru_repr L (lru_step (lcapacity (MainCache c)) (req_op m) es)" "lcapacity L = lcapacity (MainCache c)"
proof -
  have "length (spec_reply (local_addr c) es m) \<le> BUF_SIZE"
    using spec_reply_length [OF assms(2,3), of "local_addr c"] assms(4) by simp
  from over_buffer_padded [OF this, of rest] chat_step [OF assms(1-4)] assms(5) that show thesis by metis
qed

lemma chat_run_spec:
  assumes "lru_repr (MainCache c) es" "vals_bounded b es" "\<forall>m \<in> set ms. length m \<le> b"
    "2 * b + length (local_addr c) + 10 \<le> BUF_SIZE" "send_buff_client c = (\<lambda>_. rest)"
  shows "\<exists>c'. chat_run ms c =
      Inr (map Some (spec_frames rest (spec_replies (lcapacity (MainCache c)) (local_addr c) es ms)), c') \<and>
    lru_repr (MainCache c') (lru_run (lcapacity (MainCache c)) (map req_op ms) es)"
  using assms
proof (induction ms arbitrary: c es rest)
  case (Cons m ms)
  have m: "length m \<le> b" using Cons.prems(3) by simp
  obtain L where
    L: "Client_chat (Received m) c = Inr (Some (padded rest (spec_reply (local_addr c) es m)),
        c\<lparr>MainCache := L, kv_update_flag := True, kv_to_replica := m, send_buff_client := bzero\<rparr>)"
      "lru_repr L (lru_step (lcapacity (MainCache c)) (req_op m) es)" "lcapacity L = lcapacity (MainCache c)"
    by (rule chat_step_padded [OF Cons.prems(1,2) m Cons.prems(4,5)])
  let ?c = "c\<lparr>MainCache := L, kv_update_flag := True, kv_to_replica := m, send_buff_client := bzero\<rparr>"
  have "vals_bounded b (lru_step (lcapacity (MainCache c)) (req_op m) es)"
    using Cons.prems(2) m by (rule vals_bounded_step)
  moreover have "local_addr ?c = local_addr c" by (simp add: local_addr_def)
  ultimately show ?case
    using Cons.IH [of ?c "lru_step (lcapacity (MainCache c)) (req_op m) es" "Some NUL"] L Cons.prems(3,4)
    by (fastforce simp: bzero_def)
qed simp

lemma lru_repr_Cache_new:
  "lru_repr (MainCache (Cache_new n st ip cp pp)) []" "lcapacity (MainCache (Cache_new n st ip cp pp)) = 10"
  using lru_repr_new [of 10] by (simp_all add: Cache_new_def LRU_Cache_default_def) (simp add: LRU_Cache_new_def)

section \<open>Commands of the master\<close>

text \<open>The commands of the protocol document and the text that carries them.\<close>

datatype command =
    New_cache string string
  | Kill_cache string string
  | Dead_cache string string
  | As_primary "(string \<times> string) option"
  | As_replica "(string \<times> string) option"

fun target_text :: "(string \<times> string) option \<Rightarrow> string" where
  "target_text None = ''None''"
| "target_text (Some (ip, port)) = ip @ ''#'' @ port"

fun command_text :: "command \<Rightarrow> string" where
  "command_text (New_cache ip port) = ''N#'' @ ip @ ''#'' @ port"
| "command_text (Kill_cache ip port) = ''K#'' @ ip @ ''#'' @ port"
| "command_text (Dead_cache ip port) = ''D#'' @ ip @ ''#'' @ port"
| "command_text (As_primary t) = ''P#'' @ target_text t"
| "command_text (As_replica t) = ''R#'' @ target_text t"

fun target_pair :: "(string \<times> string) option \<Rightarrow> string \<times> string" where
  "target_pair None = (''None'', ''None'')"
| "target_pair (Some a) = a"

definition self_addr :: "Cache \<Rightarrow> string \<times> string" where
  "self_addr c = (local_cache_IP c, port_for_cache c)"

text \<open>The documented effect on the state.\<close>

fun command_effect :: "command \<Rightarrow> Cache \<Rightarrow> Cache" where
  "command_effect (New_cache ip port) c =
     c\<lparr>cache_list := cache_list c @ (if (ip, port) = self_addr c then [] else [(ip, port)]),
       cache_list_update_flag := True\<rparr>"
| "command_effect (Kill_cache ip port) c =
     c\<lparr>cache_list := remove1 (ip, port) (cache_list c), cache_list_update_flag := True,
       dying_cache_IP := ip, dying_cache_Port := port,
       status := (if (ip, port) = self_addr c then ''K'' else status c)\<rparr>"
| "command_effect (Dead_cache ip port) c = c\<lparr>cache_list := remove1 (ip, port) (cache_list c)\<rparr>"
| "command_effect (As_primary t) c =
     c\<lparr>status := ''P'', pr_status := ''P'', target_IP := fst (target_pair t), target_port := snd (target_pair t)\<rparr>"
| "command_effect (As_replica t) c =
     c\<lparr>status := ''R'', target_IP := fst (target_pair t), target_port := snd (target_pair t)\<rparr>"

text \<open>Addresses hold no separator; a cache that is removed is in the list.\<close>

fun command_ok :: "command \<Rightarrow> Cache \<Rightarrow> bool" where
  "command_ok (New_cache ip port) c \<longleftrightarrow> CHR ''#'' \<notin> set ip"
| "command_ok (Kill_cache ip port) c \<longleftrightarrow> CHR ''#'' \<notin> set ip \<and> (ip, port) \<in> set (cache_list c)"
| "command_ok (Dead_cache ip port) c \<longleftrightarrow> CHR ''#'' \<notin> set ip \<and> (ip, port) \<in> set (cache_list c)"
| "command_ok (As_primary t) c \<longleftrightarrow> (case t of None \<Rightarrow> True | Some (ip, port) \<Rightarrow> CHR ''#'' \<notin> set ip)"
| "command_ok (As_replica t) c \<longleftrightarrow> (case t of None \<Rightarrow> True | Some (ip, port) \<Rightarrow> CHR ''#'' \<notin> set ip)"

lemma master_spear_pair:
  "CHR ''#'' \<notin> set ip \<Longrightarrow> master_spear (h # CHR ''#'' # ip @ CHR ''#'' # port) = Inr (2 + length ip)"
  by (simp add: master_spear_def str_simps)

lemma master_spear_ok: "2 \<le> length m \<Longrightarrow> \<exists>n. master_spear m = Inr n"
  by (auto simp: master_spear_def)

lemma parts_pair:
  "parts (h # CHR ''#'' # ip @ CHR ''#'' # port) (2 + length ip) = Inr (ip, port)"
  by (simp add: parts_def part_def substr_def)

lemma pair_not_None: "CHR ''#'' \<notin> set ip \<Longrightarrow> ip @ CHR ''#'' # port \<noteq> ''None''"
proof
  assume "ip @ CHR ''#'' # port = ''None''"
  then have "CHR ''#'' \<in> set ''None''" by (metis in_set_conv_decomp)
  then show False by simp
qed

lemma set_target_pair:
  assumes "CHR ''#'' \<notin> set ip"
  shows "set_target (h # CHR ''#'' # ip @ CHR ''#'' # port) (2 + length ip) c =
    Inr (c\<lparr>target_IP := ip, target_port := port\<rparr>)"
  using pair_not_None [OF assms, of port] parts_pair [of h ip port]
  by (simp add: set_target_def substr_def)

lemma set_target_None:
  "set_target (h # ''#None'') n c = Inr (c\<lparr>target_IP := ''None'', target_port := ''None''\<rparr>)"
  by (simp add: set_target_def substr_def)

lemma ReadFromMaster_command:
  assumes "status c \<noteq> ''K''" and "command_ok p c"
  shows "ReadFromMaster (command_text p) c = Inr (command_effect p c)"
proof (cases p)
  case (New_cache ip port)
  with assms show ?thesis
    by (simp add: ReadFromMaster_def master_spear_pair parts_pair [simplified] substr_def update_cache_def self_addr_def)
next
  case (Kill_cache ip port)
  with assms show ?thesis
    by (simp add: ReadFromMaster_def master_spear_pair parts_pair [simplified] substr_def update_cache_def
        self_addr_def erase_found_def)
next
  case (Dead_cache ip port)
  with assms show ?thesis
    by (simp add: ReadFromMaster_def master_spear_pair parts_pair [simplified] substr_def erase_found_def)
next
  case (As_primary t)
  with assms show ?thesis
  proof (cases t)
    case None
    then show ?thesis using As_primary assms
      by (simp add: ReadFromMaster_def master_spear_def substr_def set_target_None [simplified])
  next
    case (Some a)
    then show ?thesis using As_primary assms
      by (cases a) (simp add: ReadFromMaster_def master_spear_pair substr_def set_target_pair [simplified])
  qed
next
  case (As_replica t)
  with assms show ?thesis
  proof (cases t)
    case None
    then show ?thesis using As_replica assms
      by (simp add: ReadFromMaster_def master_spear_def substr_def set_target_None [simplified])
  next
    case (Some a)
    then show ?thesis using As_replica assms
      by (cases a) (simp add: ReadFromMaster_def master_spear_pair substr_def set_target_pair [simplified])
  qed
qed

section \<open>Scale-in\<close>

lemma local_ring_ok:
  shows "ring_ok (local_ring c)" "ch_nodes (local_ring c) = int (length (cache_list c))"
  using ring_ok_add_nodes [of "length (cache_list c)" 100] add_nodes_sel [of "length (cache_list c)" 100]
  by (simp_all add: local_ring_def add_nodes_initialize)

lemma add_nodes_nonempty: "0 < v \<Longrightarrow> key2Index (add_nodes n v) = [] \<longleftrightarrow> n = 0"
proof (induction n)
  case (Suc n)
  have "int_range 0 v \<noteq> []" using Suc.prems by (simp add: int_range_def)
  then show ?case
    using fold_insert_nonempty [of "shard_key (int n)" "nat (int n)" "int_range 0 v"]
    by (simp add: insert_shard_def)
qed (simp add: empty_ring_def initialize_def)

lemma local_ring_nonempty: "cache_list c \<noteq> [] \<Longrightarrow> key2Index (local_ring c) \<noteq> []"
  using add_nodes_nonempty [of 100 "length (cache_list c)"] by (simp add: local_ring_def add_nodes_initialize)

lemma local_ring_index:
  assumes "cache_list c \<noteq> []"
  obtains i where "server_index (local_ring c) key = Inr i" "i < length (cache_list c)"
proof -
  have "smap_ok (key2Index (local_ring c))" using local_ring_ok(1) by (simp add: ring_ok_def)
  then obtain i where i: "server_index (local_ring c) key = Inr i"
    using server_index_total local_ring_nonempty [OF assms] by blast
  with server_index_bound [OF local_ring_ok(1) i] local_ring_ok(2) [of c] that show thesis by simp
qed

text \<open>The peer a key goes to, as a function.\<close>

definition peer_of :: "Cache \<Rightarrow> string \<Rightarrow> string \<times> string" where
  "peer_of c key = (case server_index (local_ring c) key of
     Inr i \<Rightarrow> cache_list c ! i | Inl _ \<Rightarrow> ('''', ''''))"

definition addrs_ok :: "Cache \<Rightarrow> bool" where
  "addrs_ok c \<longleftrightarrow> (\<forall>(ip, port) \<in> set (cache_list c). CHR ''#'' \<notin> set ip)"

lemma peer_of_in_list:
  assumes "cache_list c \<noteq> []"
  shows "peer_of c key \<in> set (cache_list c)"
  by (rule local_ring_index [OF assms, of key]) (simp add: peer_of_def)

lemma key_target_peer:
  assumes "cache_list c \<noteq> []" "addrs_ok c"
  shows "key_target (local_ring c) (map (\<lambda>(ip, port). ip @ ''#'' @ port) (cache_list c)) key = Inr (peer_of c key)"
proof -
  obtain i where i: "server_index (local_ring c) key = Inr i" "i < length (cache_list c)"
    using local_ring_index [OF assms(1)] by blast
  obtain ip port where a: "cache_list c ! i = (ip, port)" by (cases "cache_list c ! i")
  have "(ip, port) \<in> set (cache_list c)" using i(2) a by (metis nth_mem)
  then have "CHR ''#'' \<notin> set ip" using assms(2) by (auto simp: addrs_ok_def)
  with i a show ?thesis by (simp add: key_target_def vec_at_def slice_pair peer_of_def)
qed

lemma key_targets_peers:
  assumes "cache_list c \<noteq> []" "addrs_ok c"
  shows "key_targets (local_ring c) (map (\<lambda>(ip, port). ip @ ''#'' @ port) (cache_list c)) keys =
    Inr (map (peer_of c) keys)"
  by (induction keys) (simp_all add: key_target_peer [OF assms, simplified])

lemma lru_touch_map_of: "distinct (map fst es) \<Longrightarrow> map_of (lru_touch k es) = map_of es"
  by (auto simp: lru_touch_def fun_eq_iff split: option.splits)

definition can_connect :: "(string \<Rightarrow> string \<Rightarrow> syscalls) \<Rightarrow> string \<times> string \<Rightarrow> bool" where
  "can_connect net peer \<longleftrightarrow>
     (\<exists>s. client_socket (net (fst peer) (snd peer)) (fst peer) (snd peer) = Inr s)"

text \<open>The transfers of a list of stored keys: each key is sent once, with its value.\<close>

lemma send_all_spec:
  assumes "lru_repr (MainCache c) es" and "\<forall>(ip, port, k) \<in> set xs. can_connect net (ip, port)"
    and "\<forall>(ip, port, k) \<in> set xs. \<exists>v. map_of es k = Some v \<and> length k + length v + 1 < BUF_SIZE"
  shows "\<exists>c' es'. send_all net xs c =
      Inr (map (\<lambda>(ip, port, k). (ip, port, k @ ''#'' @ the (map_of es k))) xs, c') \<and>
    lru_repr (MainCache c') es' \<and> map_of es' = map_of es"
  using assms
proof (induction xs arbitrary: c es)
  case (Cons x xs)
  obtain ip port k where x: "x = (ip, port, k)" by (cases x)
  with Cons.prems obtain v where v: "map_of es k = Some v" "length k + length v + 1 < BUF_SIZE" by auto
  from get_hit [OF Cons.prems(1) v(1)] obtain L where
    L: "get k (MainCache c) = Some (v, L)" "lru_repr L (lru_touch k es)" by blast
  let ?c = "c\<lparr>MainCache := L\<rparr>"
  have same: "map_of (lru_touch k es) = map_of es"
    using lru_repr_distinct [OF Cons.prems(1)] by (rule lru_touch_map_of)
  from Cons.IH [of ?c "lru_touch k es"] L(2) Cons.prems(2,3) same obtain c' es' where
    IH: "send_all net xs ?c =
        Inr (map (\<lambda>(ip, port, k). (ip, port, k @ ''#'' @ the (map_of es k))) xs, c')"
      "lru_repr (MainCache c') es'" "map_of es' = map_of es" by auto
  have "\<exists>s. client_socket (net ip port) ip port = Inr s"
    using Cons.prems(2) x by (simp add: can_connect_def)
  then have "to_single_cache net ip port k c = Inr ((ip, port, k @ ''#'' @ v), ?c)"
    using L(1) v(2) by (auto simp: to_single_cache_def Let_def)
  with IH v(1) x show ?case by auto
qed auto

lemma all_key_order:
  assumes "lru_repr L es" "set order = fst ` set es"
  shows "all_key order L = order"
proof -
  have "lmap L k \<noteq> None" if "k \<in> set order" for k
    using that assms check_iff [OF assms(1), of k] by (simp add: check_def)
  then show ?thesis unfolding all_key_def by (simp add: filter_id_conv)
qed

lemma scale_in_spec:
  assumes dying: "status c = ''K''" and peers: "cache_list c \<noteq> []" "addrs_ok c"
    and store: "lru_repr (MainCache c) es" and order: "set order = fst ` set es"
    and fits: "\<forall>(k, v) \<in> set es. length k + length v + 1 < BUF_SIZE"
    and up: "\<forall>peer \<in> set (cache_list c). can_connect net peer"
  shows "\<exists>c'. cache_pass net order received c =
    Inr (Pass_exit (map (\<lambda>k. (fst (peer_of c k), snd (peer_of c k), k @ ''#'' @ the (map_of es k))) order), c')"
proof -
  let ?c = "c\<lparr>otherIP := map fst (map (peer_of c) order), otherPort := map snd (map (peer_of c) order),
     pt := pt c \<union> snd ` set (map (peer_of c) order), out_key := order\<rparr>"
  have cal: "cal_hash_key order c = Inr ?c"
    by (simp add: cal_hash_key_def Let_def all_key_order [OF store order] key_targets_peers [OF peers, simplified])
  have z: "zip (otherIP ?c) (zip (otherPort ?c) (out_key ?c)) =
      map (\<lambda>k. (fst (peer_of c k), snd (peer_of c k), k)) order"
    by (induction order) auto
  have ok: "\<exists>v. map_of es k = Some v \<and> length k + length v + 1 < BUF_SIZE" if "k \<in> set order" for k
  proof -
    have "map_of es k \<noteq> None" using that order by (simp add: map_of_eq_None_iff)
    then obtain v where "map_of es k = Some v" by blast
    with fits show ?thesis by (auto dest: map_of_SomeD)
  qed
  have "lru_repr (MainCache ?c) es" using store by simp
  moreover have "\<forall>(ip, port, k) \<in> set (map (\<lambda>k. (fst (peer_of c k), snd (peer_of c k), k)) order).
      \<exists>v. map_of es k = Some v \<and> length k + length v + 1 < BUF_SIZE" using ok by simp
  moreover have "\<forall>(ip, port, k) \<in> set (map (\<lambda>k. (fst (peer_of c k), snd (peer_of c k), k)) order).
      can_connect net (ip, port)" using up peer_of_in_list [OF peers(1)] by simp
  ultimately
  obtain c' where c': "send_all net (map (\<lambda>k. (fst (peer_of c k), snd (peer_of c k), k)) order) ?c =
      Inr (map (\<lambda>(ip, port, k). (ip, port, k @ ''#'' @ the (map_of es k)))
             (map (\<lambda>k. (fst (peer_of c k), snd (peer_of c k), k)) order), c')"
    using send_all_spec [where c = ?c and es = es and net = net and xs = "map (\<lambda>k. (fst (peer_of c k), snd (peer_of c k), k)) order"] by blast
  have m: "map (\<lambda>(ip, port, k). (ip, port, k @ ''#'' @ the (map_of es k)))
             (map (\<lambda>k. (fst (peer_of c k), snd (peer_of c k), k)) order) =
           map (\<lambda>k. (fst (peer_of c k), snd (peer_of c k), k @ ''#'' @ the (map_of es k))) order"
    by simp
  have "cache_pass net order received c = Inr (Pass_exit
      (map (\<lambda>k. (fst (peer_of c k), snd (peer_of c k), k @ ''#'' @ the (map_of es k))) order), c')"
    unfolding cache_pass_def
    by (simp only: dying peers(1) cal c' z m length_0_conv andThen_Inr prod.case simp_thms if_True if_False)
  then show ?thesis by blast
qed

end
