(* ===== verification/Cache_Properties.thy ===== *)
theory Cache_Properties
  imports Cache_Facts
begin

text \<open>
  The threads of a cache server together: every interleaving of their steps as a step relation
  (\<open>cache_step\<close>, \<open>cache_reachable\<close>) with its invariants, the link between a primary and its
  replica, and the properties of the server.
\<close>

section \<open>Interleavings of the threads\<close>

inductive cache_step :: "Cache \<Rightarrow> Cache \<Rightarrow> bool" where
  heartbeat: "Heartbeat r later c = Inr (m, c') \<Longrightarrow> cache_step c c'"
| client: "Client_chat r c = Inr (reply, c') \<Longrightarrow> cache_step c c'"
| pass: "cache_pass net order received c = Inr (out, c') \<Longrightarrow> cache_step c c'"
| replica: "replica_chat net phase m c = Inr (phase', ms, c') \<Longrightarrow> cache_step c c'"

inductive_cases cache_step_elim: "cache_step c c'"

inductive cache_reachable :: "string list \<Rightarrow> Cache \<Rightarrow> bool" for argv where
  start: "cache_main argv = Inr (c, threads) \<Longrightarrow> cache_reachable argv c"
| more: "cache_reachable argv c \<Longrightarrow> cache_step c c' \<Longrightarrow> cache_reachable argv c'"

text \<open>The store of the server is a recency list of at most \<open>LRU_CAPACITY\<close> entries.\<close>

definition store_ok :: "LRU_Cache \<Rightarrow> bool" where
  "store_ok L \<longleftrightarrow> (\<exists>es. lru_repr L es \<and> lcapacity L = 10 \<and> length es \<le> 10)"

lemma store_ok_get: "store_ok L \<Longrightarrow> get k L = Some (v, L') \<Longrightarrow> store_ok L'"
  unfolding store_ok_def
proof (elim exE conjE)
  fix es
  assume r: "lru_repr L es" "lcapacity L = 10" "length es \<le> 10" and g: "get k L = Some (v, L')"
  show "\<exists>es. lru_repr L' es \<and> lcapacity L' = 10 \<and> length es \<le> 10"
  proof (cases "map_of es k")
    case None
    with get_miss [OF r(1) None] g r show ?thesis by auto
  next
    case (Some w)
    have "length (lru_step 10 (Get k) es) \<le> 10"
      using lru_step_length [OF lru_repr_distinct [OF r(1)], of 10 "Get k"] r(3) by simp
    with get_hit [OF r(1) Some] g r show ?thesis by auto
  qed
qed

lemma store_ok_put: "store_ok L \<Longrightarrow> put k v L = Some (e, L') \<Longrightarrow> store_ok L'"
  unfolding store_ok_def
proof (elim exE conjE)
  fix es
  assume r: "lru_repr L es" "lcapacity L = 10" "length es \<le> 10" and p: "put k v L = Some (e, L')"
  have "length (lru_step 10 (Put k v) es) \<le> 10"
    using lru_step_length [OF lru_repr_distinct [OF r(1)], of 10 "Put k v"] r(3) by simp
  with put_spec [OF r(1), of k v] p r show "\<exists>es. lru_repr L' es \<and> lcapacity L' = 10 \<and> length es \<le> 10"
    by auto
qed

text \<open>
  What every thread keeps: the store, the send buffer (which holds one value in all its bytes between
  two events), the addresses of the server, the role of a primary and the state of a dying server.
\<close>

definition buffer_ok :: "Cache \<Rightarrow> bool" where
  "buffer_ok c \<longleftrightarrow> (\<exists>x. send_buff_client c = (\<lambda>_. x))"

definition keeps :: "Cache \<Rightarrow> Cache \<Rightarrow> bool" where
  "keeps c c' \<longleftrightarrow> (store_ok (MainCache c) \<longrightarrow> store_ok (MainCache c')) \<and> (buffer_ok c \<longrightarrow> buffer_ok c') \<and>
     local_cache_IP c' = local_cache_IP c \<and> port_for_client c' = port_for_client c \<and>
     port_for_cache c' = port_for_cache c \<and> (pr_status c = ''P'' \<longrightarrow> pr_status c' = ''P'') \<and>
     (status c = ''K'' \<longrightarrow> status c' = ''K'')"

lemma keeps_refl [simp, intro]: "keeps c c"
  by (simp add: keeps_def)

lemma keeps_trans: "keeps a b \<Longrightarrow> keeps b c \<Longrightarrow> keeps a c"
  unfolding keeps_def by metis

lemma keeps_get: "deref_opt (get k (MainCache c)) = Inr (v, L) \<Longrightarrow> keeps c (c\<lparr>MainCache := L\<rparr>)"
  by (auto simp: keeps_def buffer_ok_def deref_opt_def dest: store_ok_get split: option.splits)

lemma keeps_put: "deref_opt (put k v (MainCache c)) = Inr (e, L) \<Longrightarrow> keeps c (c\<lparr>MainCache := L\<rparr>)"
  by (auto simp: keeps_def buffer_ok_def deref_opt_def dest: store_ok_put split: option.splits)

lemma keeps_update_cache: "update_cache ip port st c = Inr c' \<Longrightarrow> keeps c c'"
  by (auto simp: update_cache_def andThen_eq_Inr_iff erase_found_def keeps_def buffer_ok_def split: if_splits)

lemma keeps_set_target: "set_target m n c = Inr c' \<Longrightarrow> keeps c c'"
  by (auto simp: set_target_def andThen_eq_Inr_iff keeps_def buffer_ok_def split: if_splits)

lemma keeps_kill:
  assumes "update_cache ip port ''K'' (c\<lparr>dying_cache_IP := ip, dying_cache_Port := port\<rparr>) = Inr c'"
  shows "keeps c c'" "keeps c (c'\<lparr>status := ''K''\<rparr>)"
  using keeps_update_cache [OF assms] by (auto simp: keeps_def buffer_ok_def)

lemma keeps_ReadFromMaster:
  assumes "ReadFromMaster m c = Inr c'"
  shows "keeps c c'"
proof (cases "status c = ''K''")
  case True
  with assms show ?thesis by (auto simp: ReadFromMaster_def andThen_eq_Inr_iff)
next
  case False
  from assms obtain spear hd' where s: "master_spear m = Inr spear" "substr m 0 1 = Inr hd'"
    by (auto simp: ReadFromMaster_def andThen_eq_Inr_iff)
  note R = assms [unfolded ReadFromMaster_def s andThen_Inr if_not_P [OF False]]
  show ?thesis
  proof (cases "hd' = ''K''")
    case True
    with R obtain ip port c1 where
      "update_cache ip port ''K'' (c\<lparr>dying_cache_IP := ip, dying_cache_Port := port\<rparr>) = Inr c1"
      "c' = c1 \<or> c' = c1\<lparr>status := ''K''\<rparr>"
      by (auto simp: andThen_eq_Inr_iff split: if_splits)
    with keeps_kill show ?thesis by blast
  next
    case k: False
    consider "hd' = ''N''" | "hd' = ''P''" | "hd' = ''R''" | "hd' = ''C''" | "hd' = ''D''"
      | "hd' \<notin> {''N'', ''P'', ''R'', ''C'', ''D''}" by blast
    then show ?thesis
    proof cases
      case 1
      with R show ?thesis by (auto simp: andThen_eq_Inr_iff dest: keeps_update_cache)
    next
      case 2
      with R have "keeps (c\<lparr>status := ''P'', pr_status := ''P''\<rparr>) c'" by (simp add: keeps_set_target)
      then show ?thesis using False by (simp add: keeps_def buffer_ok_def)
    next
      case 3
      with R have "keeps (c\<lparr>status := ''R''\<rparr>) c'" by (simp add: keeps_set_target)
      then show ?thesis using False by (simp add: keeps_def buffer_ok_def)
    next
      case 4
      with R show ?thesis by (simp add: andThen_eq_Inr_iff)
    next
      case 5
      with R show ?thesis by (auto simp: andThen_eq_Inr_iff keeps_def buffer_ok_def)
    next
      case 6
      with R k show ?thesis by simp
    qed
  qed
qed

lemma keeps_initial: "keeps c (initial b later c)"
  by (simp add: initial_def Let_def keeps_def buffer_ok_def split: prod.split)

lemma keeps_Heartbeat: "Heartbeat r later c = Inr (m, c') \<Longrightarrow> keeps c c'"
proof -
  assume h: "Heartbeat r later c = Inr (m, c')"
  then obtain c1 where 1: "(if r \<noteq> Closed \<and> initial_flag c then ReadFromMaster (recv_text r) c else Inr c) = Inr c1"
    and 2: "c' = c1 \<or> c' = initial (recv_text r) later c1\<lparr>initial_flag := True\<rparr>"
    by (auto simp: Heartbeat_def andThen_eq_Inr_iff Let_def split: if_splits)
  have "keeps c c1" using 1 by (auto split: if_splits dest: keeps_ReadFromMaster)
  moreover have "keeps (initial (recv_text r) later c1) (initial (recv_text r) later c1\<lparr>initial_flag := True\<rparr>)"
    by (simp add: keeps_def buffer_ok_def)
  ultimately show ?thesis using 2 keeps_initial keeps_trans by metis
qed

lemma keeps_LRU_handle_task: "LRU_handle_task m c = Inr (b, c') \<Longrightarrow> keeps c c'"
  by (auto simp: LRU_handle_task_def andThen_eq_Inr_iff Let_def dest: keeps_get keeps_put split: if_splits)

lemma keeps_Client_chat: "Client_chat r c = Inr (b, c') \<Longrightarrow> keeps c c'"
  by (auto simp: Client_chat_def andThen_eq_Inr_iff dest!: keeps_LRU_handle_task split: if_splits)
    (auto simp: keeps_def buffer_ok_def bzero_def)

lemma keeps_from_single_cache: "from_single_cache sys m c = Inr c' \<Longrightarrow> keeps c c'"
  by (auto simp: from_single_cache_def andThen_eq_Inr_iff dest: keeps_put split: if_splits)

lemma keeps_send_all: "send_all net xs c = Inr (ms, c') \<Longrightarrow> keeps c c'"
proof (induction xs arbitrary: c ms)
  case (Cons x xs)
  then show ?case
    by (cases x) (fastforce simp: to_single_cache_def andThen_eq_Inr_iff Let_def split: if_splits
        dest!: keeps_get intro: keeps_trans)
qed simp

lemma keeps_cal_hash_key: "cal_hash_key order c = Inr c' \<Longrightarrow> keeps c c'"
  by (auto simp: cal_hash_key_def andThen_eq_Inr_iff Let_def keeps_def buffer_ok_def)

lemma keeps_flag: "keeps c c' \<Longrightarrow> keeps c (c'\<lparr>cache_list_update_flag := b\<rparr>)"
  by (simp add: keeps_def buffer_ok_def)

lemma keeps_cache_pass: "cache_pass net order received c = Inr (out, c') \<Longrightarrow> keeps c c'"
  unfolding cache_pass_def
  by (auto simp: andThen_eq_Inr_iff keeps_flag split: if_splits
      dest: keeps_from_single_cache keeps_cal_hash_key keeps_send_all intro: keeps_trans)

lemma keeps_replica_cache: "replica_cache m c = Inr (Some c') \<Longrightarrow> keeps c c'"
proof -
  assume h: "replica_cache m c = Inr (Some c')"
  have "keeps c (c\<lparr>cache_list := l\<rparr>)" for l by (simp add: keeps_def buffer_ok_def)
  with h show ?thesis
    by (auto simp: replica_cache_def Let_def andThen_eq_Inr_iff split: if_splits prod.splits
        dest: keeps_get keeps_put)
qed

lemma keeps_replica_chat: "replica_chat net phase m c = Inr (phase', ms, c') \<Longrightarrow> keeps c c'"
proof (cases phase)
  case Chat_replica
  assume "replica_chat net phase m c = Inr (phase', ms, c')"
  with Chat_replica obtain r where r: "replica_cache m c = Inr r"
    "c' = (case r of None \<Rightarrow> c | Some c1 \<Rightarrow> c1)"
    by (auto simp: andThen_eq_Inr_iff split: option.splits if_splits)
  then show ?thesis by (cases r) (auto dest: keeps_replica_cache)
next
  case (Chat_primary e)
  assume "replica_chat net phase m c = Inr (phase', ms, c')"
  with Chat_primary have "c' = c \<or> c' = c\<lparr>cache_list_update_flag := False, kv_update_flag := False\<rparr>"
    by (auto simp: primary_cache_def andThen_eq_Inr_iff Let_def split: if_splits)
  then show ?thesis by (auto simp: keeps_def buffer_ok_def)
qed (auto simp: andThen_eq_Inr_iff)

lemma cache_step_keeps: "cache_step c c' \<Longrightarrow> keeps c c'"
  by (induction rule: cache_step.induct)
    (fact keeps_Heartbeat keeps_Client_chat keeps_cache_pass keeps_replica_chat)+

lemma store_ok_new: "store_ok (MainCache (Cache_new n st ip cp pp))"
  unfolding store_ok_def using lru_repr_Cache_new by (intro exI [of _ "[]"]) simp

lemma cache_main_sel:
  assumes "cache_main [prog, st, ip, cp, pp] = Inr (c, threads)"
  shows "c = Cache_new 10 st ip cp pp" "threads = Cache_Start"
  using assms by (simp_all add: cache_main_def)

lemma reachable_keeps:
  "cache_reachable [prog, st, ip, cp, pp] c \<Longrightarrow> keeps (Cache_new 10 st ip cp pp) c"
proof (induction rule: cache_reachable.induct)
  case (start c threads)
  then show ?case using cache_main_sel(1) by auto
next
  case (more c c')
  then show ?case using cache_step_keeps keeps_trans by blast
qed

lemma steps_keep: "cache_step\<^sup>*\<^sup>* c c' \<Longrightarrow> keeps c c'"
  by (induction rule: rtranclp_induct) (auto intro: keeps_trans cache_step_keeps)

lemma Heartbeat_store:
  assumes "Heartbeat r later c = Inr (h, c')"
  shows "MainCache c' = MainCache c"
proof -
  have u: "MainCache c2 = MainCache c1" if "update_cache ip port st c1 = Inr c2" for ip port st c1 c2
    using that by (auto simp: update_cache_def andThen_eq_Inr_iff split: if_splits)
  have t: "MainCache c2 = MainCache c1" if "set_target m n c1 = Inr c2" for m n c1 c2
    using that by (auto simp: set_target_def andThen_eq_Inr_iff split: if_splits)
  have R: "MainCache c2 = MainCache c1" if "ReadFromMaster m c1 = Inr c2" for m c1 c2
    using that unfolding ReadFromMaster_def by (auto simp: andThen_eq_Inr_iff split: if_splits dest!: u t)
  have I: "MainCache (initial m b c1) = MainCache c1" for m b c1
    by (auto simp: initial_def Let_def split: prod.splits)
  show ?thesis using assms R I by (auto simp: Heartbeat_def andThen_eq_Inr_iff Let_def split: if_splits)
qed

section \<open>A primary and its replica\<close>

text \<open>Each request is handled, forwarded and read by the replica before the next one.\<close>

fun receive_all :: "string list \<Rightarrow> Cache \<Rightarrow> Cache result" where
  "receive_all [] r = Inr r"
| "receive_all (m # ms) r =
     andThen (replica_cache m r) (\<lambda>r'. andThen (deref_opt r') (receive_all ms))"

fun mirrored_run :: "string list \<Rightarrow> Cache \<Rightarrow> Cache \<Rightarrow> (Cache \<times> Cache) result" where
  "mirrored_run [] p r = Inr (p, r)"
| "mirrored_run (m # ms) p r =
     andThen (Client_chat (Received m) p) (\<lambda>(_, p1).
     andThen (primary_cache True p1) (\<lambda>(_, out, p2).
     andThen (receive_all out r) (mirrored_run ms p2)))"

lemma put_repr:
  assumes "lru_repr (MainCache c) es"
  obtains e L where "put k v (MainCache c) = Some (e, L)"
    "lru_repr L (lru_put (lcapacity (MainCache c)) k v es)" "lcapacity L = lcapacity (MainCache c)"
  using put_spec [OF assms, of k v] by auto

lemma replica_request:
  assumes r: "lru_repr (MainCache c) es" and role: "pr_status c = ''R''" and m: "take 1 m \<noteq> ''#''"
  obtains L where "replica_cache m c = Inr (Some (c\<lparr>MainCache := L\<rparr>))"
    "lru_repr L (lru_step (lcapacity (MainCache c)) (req_op m) es)" "lcapacity L = lcapacity (MainCache c)"
proof (cases "CHR ''#'' \<in> set m")
  case True
  obtain e L where L: "put (req_key m) (req_val m) (MainCache c) = Some (e, L)"
    "lru_repr L (lru_put (lcapacity (MainCache c)) (req_key m) (req_val m) es)"
    "lcapacity L = lcapacity (MainCache c)" using put_repr [OF r, of "req_key m" "req_val m"] by blast
  have "Suc (length (req_key m)) \<le> length m" using True by (rule req_key_length)
  moreover have "drop (Suc (length (req_key m))) m = req_val m" "take (length m) (req_val m) = req_val m"
    by (simp_all add: req_val_def)
  moreover have "spear_loop CHR ''#'' m 0 \<noteq> length m" using True spear_full by blast
  ultimately have "replica_cache m c = Inr (Some (c\<lparr>MainCache := L\<rparr>))"
    using L(1) m role req_key_take [of m] by (simp add: replica_cache_def Let_def spear_req str_simps)
  with L that True show thesis by (simp add: req_op_def)
next
  case False
  then have s: "spear_loop CHR ''#'' m 0 = length m" using spear_full by blast
  show thesis
  proof (cases "map_of es m")
    case None
    then have "\<not> check m (MainCache c)" using check_iff [OF r] by (simp add: map_of_eq_None_iff)
    then have "replica_cache m c = Inr (Some (c\<lparr>MainCache := MainCache c\<rparr>))"
      using s m role by (simp add: replica_cache_def)
    then show thesis using that [of "MainCache c"] None False r by (simp add: req_op_def lru_touch_def)
  next
    case (Some v)
    then have "check m (MainCache c)" using check_iff [OF r, of m] map_of_eq_None_iff [of es m] by auto
    with get_hit [OF r Some] s m role False that show thesis
      by (auto simp: replica_cache_def req_op_def)
  qed
qed

lemma mirrored_run_spec:
  assumes "lru_repr (MainCache p) es" "lru_repr (MainCache r) es"
    "lcapacity (MainCache p) = cap" "lcapacity (MainCache r) = cap"
    "\<not> cache_list_update_flag p" "pr_status r = ''R''"
    "vals_bounded b es" "\<forall>m \<in> set ms. length m \<le> b \<and> take 1 m \<noteq> ''#''"
    "2 * b + length (local_addr p) + 10 \<le> BUF_SIZE"
  shows "\<exists>p' r'. mirrored_run ms p r = Inr (p', r') \<and>
    lru_repr (MainCache p') (lru_run cap (map req_op ms) es) \<and>
    lru_repr (MainCache r') (lru_run cap (map req_op ms) es)"
  using assms
proof (induction ms arbitrary: p r es)
  case (Cons m ms)
  obtain L where L: "Client_chat (Received m) p = Inr (Some (over_buffer (send_buff_client p) (spec_reply (local_addr p) es m)),
      p\<lparr>MainCache := L, kv_update_flag := True, kv_to_replica := m, send_buff_client := bzero\<rparr>)"
    "lru_repr L (lru_step cap (req_op m) es)" "lcapacity L = cap"
    using chat_step [of p es b m] Cons.prems by auto
  obtain L' where L': "replica_cache m r = Inr (Some (r\<lparr>MainCache := L'\<rparr>))"
    "lru_repr L' (lru_step cap (req_op m) es)" "lcapacity L' = cap"
    using replica_request [of r es m] Cons.prems by auto
  let ?p = "p\<lparr>MainCache := L, kv_update_flag := False, kv_to_replica := m, cache_list_update_flag := False,
    send_buff_client := bzero\<rparr>"
  let ?r = "r\<lparr>MainCache := L'\<rparr>"
  have out: "primary_cache True (p\<lparr>MainCache := L, kv_update_flag := True, kv_to_replica := m, send_buff_client := bzero\<rparr>) = Inr (True, [m], ?p)"
    using Cons.prems by (simp add: primary_cache_def)
  have "vals_bounded b (lru_step cap (req_op m) es)"
    using Cons.prems by (intro vals_bounded_step) auto
  moreover have "local_addr ?p = local_addr p" by (simp add: local_addr_def)
  ultimately obtain p' r' where "mirrored_run ms ?p ?r = Inr (p', r')"
    "lru_repr (MainCache p') (lru_run cap (map req_op ms) (lru_step cap (req_op m) es))"
    "lru_repr (MainCache r') (lru_run cap (map req_op ms) (lru_step cap (req_op m) es))"
    using Cons.IH [of ?p "lru_step cap (req_op m) es" ?r] L L' Cons.prems by auto
  with L(1) L'(1) out show ?case by simp
qed simp

text \<open>The primary keeps one request only: of several between two turns the last is sent.\<close>

lemma chat_run_last:
  "chat_run ms c = Inr (rs, c') \<Longrightarrow> ms \<noteq> [] \<Longrightarrow> kv_update_flag c' \<and> kv_to_replica c' = last ms"
proof (induction ms arbitrary: c rs)
  case (Cons m ms)
  then obtain r c1 where c1: "Client_chat (Received m) c = Inr (r, c1)"
    and rest: "\<exists>rs. chat_run ms c1 = Inr (rs, c')"
    by (auto simp: andThen_eq_Inr_iff)
  from c1 have "kv_update_flag c1 \<and> kv_to_replica c1 = m"
    by (auto simp: Client_chat_def andThen_eq_Inr_iff split: if_splits)
  with Cons.IH rest show ?case by (cases ms) auto
qed simp

section \<open>The list sent to the replica\<close>

lemma addr_loop_lengths:
  "addr_loop s tmp n ip port = (ip', port') \<Longrightarrow>
     length ip' = length ip + (length (filter (\<lambda>x. x = CHR ''#'') s) + (n + 1) mod 2) div 2 \<and>
     length port' = length port + 1 + (length (filter (\<lambda>x. x = CHR ''#'') s) + n mod 2) div 2"
proof (induction s tmp n ip port rule: addr_loop.induct)
  case (2 single s tmp n ip port)
  then show ?case
    by (cases "n mod 2 = 0") (auto simp: mod_Suc split: if_splits)
qed auto

lemma separators_replica_list:
  assumes "\<forall>(a, p) \<in> set l. CHR ''#'' \<notin> set a \<and> CHR ''#'' \<notin> set p"
  shows "length (filter (\<lambda>x. x = CHR ''#'') (concat (map (\<lambda>(ip, port). ip @ ''#'' @ port) l))) = length l"
  using assms
proof (induction l)
  case (Cons e l)
  obtain a p where e: "e = (a, p)" by (cases e)
  with Cons.prems have "filter (\<lambda>x. x = CHR ''#'') a = []" "filter (\<lambda>x. x = CHR ''#'') p = []"
    by (auto simp: filter_empty_conv)
  with Cons e show ?case by simp
qed simp

lemma replica_list_even:
  assumes "\<forall>(a, p) \<in> set l. CHR ''#'' \<notin> set a \<and> CHR ''#'' \<notin> set p" "even (length l)"
    "pr_status c = ''R''"
  shows "replica_cache (replica_list_message l) c =
    (if (target_IP c, target_port c) \<in> set (cache_list c) then Inr (Some c) else Inl (Exit_process 0))"
proof -
  let ?s = "concat (map (\<lambda>(ip, port). ip @ ''#'' @ port) l)"
  obtain ip port where a: "addr_loop ?s [] 0 [] [] = (ip, port)"
    by (cases "addr_loop ?s [] 0 [] []")
  have "length ip = (length l + 1) div 2" "length port = 1 + length l div 2"
    using addr_loop_lengths [OF a] separators_replica_list [OF assms(1)] by simp_all
  then have "length ip \<noteq> length port" using assms(2) by auto
  with a assms(3) show ?thesis
    by (simp add: replica_cache_def replica_list_message_def Let_def)
qed

lemma replica_list_single:
  assumes "CHR ''#'' \<notin> set a" "CHR ''#'' \<notin> set p" "pr_status c = ''R''" "(a, p) = (target_IP c, target_port c)"
  shows "replica_cache (replica_list_message [(a, p)]) c = Inr (Some (c\<lparr>cache_list := cache_list c @ [(a, p)]\<rparr>))"
proof -
  have "addr_loop (a @ CHR ''#'' # p) [] 0 [] [] = ([a], [p])"
    using addr_loop_field [OF assms(1), of "CHR ''#'' # p" "[]" 0 "[]" "[]"]
      addr_loop_field [OF assms(2), of "[]" "[]" 1 "[a]" "[]"] by simp
  with assms show ?thesis by (simp add: replica_cache_def replica_list_message_def Let_def)
qed

section \<open>The receiving side of a hand-over\<close>

fun accept_all :: "syscalls \<Rightarrow> string list \<Rightarrow> Cache \<Rightarrow> Cache result" where
  "accept_all sys [] c = Inr c"
| "accept_all sys (m # ms) c = andThen (from_single_cache sys (Some m) c) (accept_all sys ms)"

definition can_listen :: "syscalls \<Rightarrow> Cache \<Rightarrow> bool" where
  "can_listen sys c \<longleftrightarrow> (\<exists>s. server_socket sys (local_cache_IP c) (port_for_cache c) = Inr s)"

lemma from_single_cache_pair:
  assumes "lru_repr (MainCache c) es" "status c \<noteq> ''K''" "CHR ''#'' \<notin> set k" "can_listen sys c"
  obtains L where "from_single_cache sys (Some (k @ ''#'' @ v)) c = Inr (c\<lparr>MainCache := L\<rparr>)"
    "lru_repr L (lru_put (lcapacity (MainCache c)) k v es)" "lcapacity L = lcapacity (MainCache c)"
proof -
  obtain e L where L: "put k v (MainCache c) = Some (e, L)"
    "lru_repr L (lru_put (lcapacity (MainCache c)) k v es)" "lcapacity L = lcapacity (MainCache c)"
    using put_repr [OF assms(1)] by blast
  have "from_single_cache sys (Some (k @ ''#'' @ v)) c = Inr (c\<lparr>MainCache := L\<rparr>)"
    using assms(2-4) L(1) by (auto simp: from_single_cache_def slice_pair can_listen_def)
  with L that show thesis by blast
qed

lemma accept_all_spec:
  assumes "lru_repr (MainCache c) es" "status c \<noteq> ''K''" "\<forall>(k, v) \<in> set kvs. CHR ''#'' \<notin> set k" "can_listen sys c"
  shows "\<exists>c'. accept_all sys (map (\<lambda>(k, v). k @ ''#'' @ v) kvs) c = Inr c' \<and>
    lru_repr (MainCache c') (lru_run (lcapacity (MainCache c)) (map (\<lambda>(k, v). Put k v) kvs) es)"
  using assms
proof (induction kvs arbitrary: c es)
  case (Cons e kvs)
  obtain k v where e: "e = (k, v)" by (cases e)
  obtain L where L: "from_single_cache sys (Some (k @ ''#'' @ v)) c = Inr (c\<lparr>MainCache := L\<rparr>)"
    "lru_repr L (lru_put (lcapacity (MainCache c)) k v es)" "lcapacity L = lcapacity (MainCache c)"
    using from_single_cache_pair [of c es k sys v] Cons.prems e by auto
  with Cons.IH [of "c\<lparr>MainCache := L\<rparr>" "lru_put (lcapacity (MainCache c)) k v es"] Cons.prems e
  show ?case by (simp add: can_listen_def)
qed simp

text \<open>The messages of a hand-over that go to one address\<close>

definition sent_to :: "string \<Rightarrow> (string \<times> string \<times> string) list \<Rightarrow> string list" where
  "sent_to addr ms = map (\<lambda>(ip, port, m). m) (filter (\<lambda>(ip, port, m). ip @ ''#'' @ port = addr) ms)"

lemma sent_to_map:
  "sent_to addr (map (\<lambda>k. (fst (f k), snd (f k), g k)) ks) =
     map g (filter (\<lambda>k. fst (f k) @ ''#'' @ snd (f k) = addr) ks)"
  by (induction ks) (simp_all add: sent_to_def)

lemma accept_all_values:
  assumes "lru_repr (MainCache p) fs" "status p \<noteq> ''K''" "int (length fs + length ks) \<le> lcapacity (MainCache p)"
    "\<forall>k \<in> set ks. CHR ''#'' \<notin> set k" "can_listen sys p"
  shows "\<exists>p' gs. accept_all sys (map (\<lambda>k. k @ ''#'' @ f k) ks) p = Inr p' \<and> lru_repr (MainCache p') gs \<and>
    (\<forall>k. map_of gs k = (if k \<in> set ks then Some (f k) else map_of fs k))"
proof -
  let ?kvs = "map (\<lambda>k. (k, f k)) ks" and ?cap = "lcapacity (MainCache p)"
  let ?gs = "lru_run ?cap (map (\<lambda>(k, v). Put k v) ?kvs) fs"
  have m: "map (\<lambda>(k, v). k @ ''#'' @ v) ?kvs = map (\<lambda>k. k @ ''#'' @ f k) ks" by simp
  have "\<forall>(k, v) \<in> set ?kvs. CHR ''#'' \<notin> set k" using assms(4) by auto
  from accept_all_spec [OF assms(1,2) this assms(5), unfolded m] obtain p' where
    p': "accept_all sys (map (\<lambda>k. k @ ''#'' @ f k) ks) p = Inr p'" "lru_repr (MainCache p') ?gs" by blast
  have "map_of ?gs = map_of fs ++ map_of (rev ?kvs)"
    using lru_run_puts [OF lru_repr_distinct [OF assms(1)], of ?kvs ?cap] assms(3) by simp
  moreover have "map_of (rev ?kvs) = (Some \<circ> f) |` set ks"
    using map_of_map_restrict [of f "rev ks"] by (simp add: rev_map)
  ultimately have "\<forall>k. map_of ?gs k = (if k \<in> set ks then Some (f k) else map_of fs k)"
    by (auto simp: map_add_def restrict_map_def)
  with p' show ?thesis by blast
qed

section \<open>Messages that have no defined effect\<close>

lemma head_spear:
  assumes "2 \<le> length m"
  obtains s where "master_spear m = Inr s" "substr m 0 1 = Inr (take 1 m)"
  using assms master_spear_ok [OF assms] by (auto simp: substr_def)

lemma replace_never_defined:
  assumes "2 \<le> length m" "take 1 m = ''C''" "status c \<noteq> ''K''"
  shows "ReadFromMaster m c \<noteq> Inr c'"
proof -
  obtain s where "master_spear m = Inr s" "substr m 0 1 = Inr (take 1 m)"
    using head_spear [OF assms(1)] by blast
  with assms show ?thesis by (simp add: ReadFromMaster_def andThen_eq_Inr_iff)
qed

lemma unknown_address_undefined:
  assumes "status c \<noteq> ''K''" "CHR ''#'' \<notin> set ip" "(ip, port) \<notin> set (cache_list c)"
  shows "ReadFromMaster (command_text (Kill_cache ip port)) c = Inl Undefined"
    "ReadFromMaster (command_text (Dead_cache ip port)) c = Inl Undefined"
  using assms
  by (simp_all add: ReadFromMaster_def master_spear_pair parts_pair [simplified] substr_def update_cache_def erase_found_def)

lemma dying_ignores: "2 \<le> length m \<Longrightarrow> status c = ''K'' \<Longrightarrow> ReadFromMaster m c = Inr c"
  by (rule head_spear [of m]) (simp_all add: ReadFromMaster_def)

section \<open>The first list of addresses\<close>

lemma addr_fields_nonempty: "as \<noteq> [] \<Longrightarrow> addr_fields as \<noteq> []"
  by (cases as rule: remdups_adj.cases) (auto simp: addr_fields_def)

lemma initial_list:
  assumes "\<forall>(a, p) \<in> set as. CHR ''#'' \<notin> set a \<and> CHR ''#'' \<notin> set p" "as \<noteq> []"
  shows "initial (addr_fields as) later c = c\<lparr>cache_list := cache_list c @ as, is_initialed := 1\<rparr>"
proof -
  have "await_init (addr_fields as) later = addr_fields as"
    using addr_fields_nonempty [OF assms(2)] by (cases later) (simp_all add: is_not_init_def)
  then show ?thesis
    using addr_loop_list [OF assms, of 0 "[]" "[]"] addr_fields_nonempty [OF assms(2)]
    by (simp add: initial_def zip_map_fst_snd)
qed

lemma await_init_never_waits: "await_init buf later = buf"
  by (cases later) (simp_all add: is_not_init_def)

section \<open>Properties\<close>

text \<open>
  C20. Between the turns of its threads, in whatever order they take them, the store of a cache server
  is a well-formed LRU list of at most ten entries, its addresses are those of the command line, and a
  server started as primary stays one.  A turn (a heartbeat, a request, a turn of the scale-in thread
  or of the replication loops) is one step here.  Within a turn the server does not lock everything it
  reads: \<open>check\<close> and \<open>all_key\<close> take no lock and \<open>get\<close> reads its node behind the lock, and theory
  \<open>Lru_Threads\<close> shows when that finer interleaving reads freed memory.
\<close>

theorem server_invariant:
  assumes "cache_reachable [prog, st, ip, cp, pp] c"
  shows "(\<exists>es. lru_repr (MainCache c) es \<and> lcapacity (MainCache c) = 10 \<and> length es \<le> 10) \<and>
    local_cache_IP c = ip \<and> port_for_client c = cp \<and> port_for_cache c = pp \<and>
    (st = ''P'' \<longrightarrow> pr_status c = ''P'')"
  using reachable_keeps [OF assms] store_ok_new [of 10 st ip cp pp]
  unfolding keeps_def store_ok_def by (auto simp: Cache_new_def)

theorem server_invariant_witness:
  "\<exists>es. lru_repr (MainCache (Cache_new 10 ''P'' ''a'' ''1'' ''2'')) es \<and> length es \<le> 10"
proof -
  have "cache_main [''cache'', ''P'', ''a'', ''1'', ''2''] =
      Inr (Cache_new 10 ''P'' ''a'' ''1'' ''2'', Cache_Start)" by (simp add: cache_main_def)
  from server_invariant [OF cache_reachable.start [OF this]] show ?thesis by blast
qed

text \<open>
  Promotion and scale-in are final: no step of any thread takes the role of primary back,
  and a server told to leave never leaves the state \<open>K\<close> again.
\<close>

theorem roles_are_final:
  assumes "cache_step\<^sup>*\<^sup>* c c'"
  shows "(pr_status c = ''P'' \<longrightarrow> pr_status c' = ''P'') \<and> (status c = ''K'' \<longrightarrow> status c' = ''K'')"
  using steps_keep [OF assms] by (simp add: keeps_def)

theorem roles_are_final_witness:
  "\<exists>c'. cache_step (Cache_new 10 ''P'' ''a'' ''1'' ''2''\<lparr>initial_flag := True\<rparr>) c' \<and>
     status c' = ''R'' \<and> pr_status c' = ''P''"
proof -
  let ?c = "Cache_new 10 ''P'' ''a'' ''1'' ''2''\<lparr>initial_flag := True\<rparr>"
  let ?d = "?c\<lparr>status := ''R'', target_IP := ''a'', target_port := ''1''\<rparr>"
  have "ReadFromMaster ''R#a#1'' ?c = Inr ?d"
    using ReadFromMaster_command [of ?c "As_replica (Some (''a'', ''1''))"] by (simp add: Cache_new_def)
  then have "Heartbeat (Received ''R#a#1'') [] ?c = Inr (heart_message ?c, ?d)"
    by (simp add: Heartbeat_def Cache_new_def)
  then have step: "cache_step ?c ?d" by (rule heartbeat)
  have "pr_status ?c = ''P''" "status ?d = ''R''" by (simp_all add: Cache_new_def)
  moreover have "cache_step\<^sup>*\<^sup>* ?c ?d" using step by simp
  ultimately show ?thesis using roles_are_final [of ?c ?d] step by blast
qed

text \<open>
  C7. The client protocol: a new server answers any sequence of requests with the documented
  replies (\<open>SUCCESS#key#ip:port[#value]\<close>, \<open>FAILED#key#ip:port\<close>) of a recency list of capacity
  ten, as long as the requests are short enough for the replies to fit the send buffer: all of that
  buffer is sent each time, the reply first.  From the second reply on NULs follow it, since the buffer
  is cleared after each request; behind the first reply, and without a NUL in between, are the
  indeterminate bytes of a buffer that nobody has initialised.
\<close>

theorem chat_refines_recency_list:
  assumes "\<forall>m \<in> set ms. length m \<le> b" "2 * b + length (ip @ '':'' @ cp) + 10 \<le> BUF_SIZE"
  shows "\<exists>c'. chat_run ms (Cache_new n st ip cp pp) =
      Inr (map Some (spec_frames None (spec_replies 10 (ip @ '':'' @ cp) [] ms)), c') \<and>
    lru_repr (MainCache c') (lru_run 10 (map req_op ms) [])"
proof -
  let ?c = "Cache_new n st ip cp pp"
  have "local_addr ?c = ip @ '':'' @ cp" by (simp add: local_addr_def Cache_new_def)
  moreover have "vals_bounded b []" "send_buff_client ?c = (\<lambda>_. None)" by (simp_all add: vals_bounded_def Cache_new_def)
  ultimately show ?thesis
    using chat_run_spec [OF lru_repr_Cache_new(1) [of n st ip cp pp], of b ms None] assms
      lru_repr_Cache_new(2) [of n st ip cp pp] by simp
qed

theorem chat_refines_recency_list_witness:
  "\<exists>c'. chat_run [''k#v'', ''k'', ''x''] (Cache_new 10 ''P'' ''a'' ''1'' ''2'') =
     Inr ([Some (padded None ''SUCCESS#k#a:1''), Some (padded (Some NUL) ''SUCCESS#k#a:1#v''),
       Some (padded (Some NUL) ''FAILED#x#a:1'')], c')"
proof -
  have "\<exists>c'. chat_run [''k#v'', ''k'', ''x''] (Cache_new 10 ''P'' ''a'' ''1'' ''2'') =
      Inr (map Some (spec_frames None (spec_replies 10 (''a'' @ '':'' @ ''1'') [] [''k#v'', ''k'', ''x''])), c') \<and>
    lru_repr (MainCache c') (lru_run 10 (map req_op [''k#v'', ''k'', ''x'']) [])"
    by (rule chat_refines_recency_list [of _ 3]) (simp_all add: BUF_SIZE_def)
  then show ?thesis
    by (simp add: spec_reply_def req_op_def req_key_def req_val_def lru_put_def lru_touch_def) blast
qed

text \<open>
  C40. The send buffer has no bound check: reading a missing key is undefined behaviour as
  soon as the key is longer than the buffer less the address and the frame of the reply, and
  only then; the receive buffer admits such keys.
\<close>

theorem reply_overflow:
  assumes "CHR ''#'' \<notin> set m" "lru_repr (MainCache c) es" "map_of es m = None"
  shows "Client_chat (Received m) c = Inl Undefined \<longleftrightarrow>
    BUF_SIZE < length m + length (local_addr c) + 8"
proof -
  have "\<not> check m (MainCache c)" using check_iff [OF assms(2)] assms(3) by (simp add: map_of_eq_None_iff)
  then have "LRU_handle_task m c = Inr (''FAILED#'' @ m @ ''#'' @ local_addr c, c)"
    using assms(1) by (simp add: LRU_handle_task_def spear_full [THEN iffD2])
  then show ?thesis by (simp add: Client_chat_def memcpy_def)
qed

theorem reply_overflow_witness:
  "Client_chat (Received (replicate 65530 CHR ''x'')) (Cache_new 10 ''P'' ''a'' ''1'' ''2'') = Inl Undefined"
  using reply_overflow [of "replicate 65530 CHR ''x''" "Cache_new 10 ''P'' ''a'' ''1'' ''2''" "[]"]
    lru_repr_Cache_new(1) [of 10 "''P''" "''a''" "''1''" "''2''"]
  by (simp add: BUF_SIZE_def)

text \<open>
  The commands of the master: \<open>N\<close>, \<open>K\<close>, \<open>D\<close>, \<open>P\<close> and \<open>R\<close> as the protocol document spells
  them are decoded to exactly the documented change of the state, when the addresses hold no
  separator and a server to be removed is in the list.
\<close>

theorem master_commands:
  assumes "status c \<noteq> ''K''" "command_ok p c"
  shows "ReadFromMaster (command_text p) c = Inr (command_effect p c)"
  using assms by (rule ReadFromMaster_command)

theorem master_commands_witness:
  "ReadFromMaster ''K#a#2'' (Cache_new 10 ''P'' ''a'' ''1'' ''2''\<lparr>cache_list := [(''b'', ''3''), (''a'', ''2'')]\<rparr>) =
   Inr (Cache_new 10 ''P'' ''a'' ''1'' ''2''\<lparr>cache_list := [(''b'', ''3'')], cache_list_update_flag := True,
     dying_cache_IP := ''a'', dying_cache_Port := ''2'', status := ''K''\<rparr>)"
  using master_commands [of "Cache_new 10 ''P'' ''a'' ''1'' ''2''\<lparr>cache_list := [(''b'', ''3''), (''a'', ''2'')]\<rparr>"
      "Kill_cache ''a'' ''2''"]
  by (simp add: Cache_new_def self_addr_def)

text \<open>
  Commands without a defined effect: a \<open>C\<close> command never has one (a helper flows off its
  end), and neither has removing a server that is not in the list.
\<close>

theorem undefined_commands:
  assumes "status c \<noteq> ''K''" "2 \<le> length m"
    "take 1 m = ''C'' \<or> (\<exists>ip port. (m = command_text (Kill_cache ip port) \<or> m = command_text (Dead_cache ip port)) \<and>
       CHR ''#'' \<notin> set ip \<and> (ip, port) \<notin> set (cache_list c))"
  shows "ReadFromMaster m c \<noteq> Inr c'"
  using assms(3)
proof (elim disjE exE conjE)
  assume "take 1 m = ''C''"
  with assms(1,2) show ?thesis by (intro replace_never_defined)
qed (use assms(1) unknown_address_undefined in simp_all)

theorem undefined_commands_witness:
  "ReadFromMaster ''D#a#2'' (Cache_new 10 ''P'' ''a'' ''1'' ''2'') \<noteq> Inr (Cache_new 10 ''P'' ''a'' ''1'' ''2'')"
proof (rule undefined_commands)
  have "''D#a#2'' = command_text (Dead_cache ''a'' ''2'') \<and> CHR ''#'' \<notin> set ''a'' \<and>
      (''a'', ''2'') \<notin> set (cache_list (Cache_new 10 ''P'' ''a'' ''1'' ''2''))" by (simp add: Cache_new_def)
  then show "take 1 ''D#a#2'' = ''C'' \<or> (\<exists>ip port. (''D#a#2'' = command_text (Kill_cache ip port) \<or>
      ''D#a#2'' = command_text (Dead_cache ip port)) \<and> CHR ''#'' \<notin> set ip \<and>
      (ip, port) \<notin> set (cache_list (Cache_new 10 ''P'' ''a'' ''1'' ''2'')))" by blast
qed (simp_all add: Cache_new_def)

text \<open>
  The first message after the start: a list \<open>ip1#port1#ip2#port2#...\<close> becomes the list of
  servers, in order; a message that does not pair up its fields ends the process.
\<close>

theorem heartbeat_initial_list:
  assumes "\<not> initial_flag c"
  shows "((\<forall>(a, p) \<in> set as. CHR ''#'' \<notin> set a \<and> CHR ''#'' \<notin> set p) \<and> as \<noteq> [] \<longrightarrow>
      (\<exists>c'. Heartbeat (Received (addr_fields as)) later c = Inr (heart_message c, c') \<and>
        c' = c\<lparr>cache_list := cache_list c @ as, is_initialed := 1, initial_flag := True\<rparr>)) \<and>
    (even (length (filter (\<lambda>x. x = CHR ''#'') m)) \<longrightarrow>
      Heartbeat (Received m) later c = Inl (Exit_process 1))"
proof (intro conjI impI, elim conjE)
  assume "\<forall>(a, p) \<in> set as. CHR ''#'' \<notin> set a \<and> CHR ''#'' \<notin> set p" "as \<noteq> []"
  with assms show "\<exists>c'. Heartbeat (Received (addr_fields as)) later c = Inr (heart_message c, c') \<and>
      c' = c\<lparr>cache_list := cache_list c @ as, is_initialed := 1, initial_flag := True\<rparr>"
    by (simp add: Heartbeat_def initial_list heart_message_def)
next
  assume e: "even (length (filter (\<lambda>x. x = CHR ''#'') m))"
  obtain ip port where a: "addr_loop m [] 0 [] [] = (ip, port)" by (cases "addr_loop m [] 0 [] []")
  have "length ip \<noteq> length port" using addr_loop_lengths [OF a] e by auto
  with a assms show "Heartbeat (Received m) later c = Inl (Exit_process 1)"
    by (simp add: Heartbeat_def initial_def await_init_never_waits Let_def)
qed

theorem heartbeat_initial_list_witness:
  "cache_list (snd (case Heartbeat (Received ''a#2#b#3'') [] (Cache_new 10 ''P'' ''a'' ''1'' ''2'') of
     Inr x \<Rightarrow> x)) = [(''a'', ''2''), (''b'', ''3'')] \<and>
   Heartbeat (Received ''a#2#b'') [] (Cache_new 10 ''P'' ''a'' ''1'' ''2'') = Inl (Exit_process 1)"
  using heartbeat_initial_list [of "Cache_new 10 ''P'' ''a'' ''1'' ''2''"
      "[(''a'', ''2''), (''b'', ''3'')]" "[]" "''a#2#b''"]
  by (simp add: Cache_new_def addr_fields_def)

text \<open>
  Scaling in loses nothing on the sender's side: a server in state \<open>K\<close> sends every entry of
  its store exactly once, with its value, to the server of its list that the hash ring over
  that list names, and then exits, provided that every server of the list accepts the connection.
\<close>

theorem scale_in_hands_over:
  assumes "status c = ''K''" "cache_list c \<noteq> []" "addrs_ok c" "lru_repr (MainCache c) es"
    "set order = fst ` set es" "\<forall>(k, v) \<in> set es. length k + length v + 1 < BUF_SIZE"
    "\<forall>peer \<in> set (cache_list c). can_connect net peer"
  shows "(\<exists>c'. cache_pass net order received c =
      Inr (Pass_exit (map (\<lambda>k. (fst (peer_of c k), snd (peer_of c k), k @ ''#'' @ the (map_of es k))) order), c')) \<and>
    (\<forall>k. peer_of c k \<in> set (cache_list c))"
  using scale_in_spec [OF assms] peer_of_in_list [OF assms(2)] by blast

theorem scale_in_hands_over_witness:
  "\<exists>c'. cache_pass (\<lambda>_ _. \<lparr>sys_socket = 3, sys_setsockopt = 0, sys_bind = 0, sys_listen = 0, sys_connect = 0, sys_epoll = 4\<rparr>)
     [''k''] None (Cache_new 10 ''P'' ''a'' ''1'' ''2''
     \<lparr>MainCache := snd (the (put ''k'' ''v'' LRU_Cache_default)), status := ''K'', cache_list := [(''b'', ''3'')]\<rparr>) =
   Inr (Pass_exit [(''b'', ''3'', ''k#v'')], c')"
proof -
  let ?c = "Cache_new 10 ''P'' ''a'' ''1'' ''2''
     \<lparr>MainCache := snd (the (put ''k'' ''v'' LRU_Cache_default)), status := ''K'', cache_list := [(''b'', ''3'')]\<rparr>"
  have "lru_repr LRU_Cache_default []" "lcapacity LRU_Cache_default = 10"
    using lru_repr_Cache_new [of 10 "''P''" "''a''" "''1''" "''2''"] by (simp_all add: Cache_new_def)
  from put_spec [OF this(1), of "''k''" "''v''"] this(2)
  have r: "lru_repr (MainCache ?c) [(''k'', ''v'')]" by (auto simp: lru_put_def Cache_new_def)
  have c: "status ?c = ''K''" "cache_list ?c = [(''b'', ''3'')]" "addrs_ok ?c"
    by (simp_all add: Cache_new_def addrs_ok_def)
  have ok: "cache_list ?c \<noteq> []" "set [''k''] = fst ` set [(''k'', ''v'')]"
    "\<forall>(k, v) \<in> set [(''k'', ''v'')]. length k + length v + 1 < BUF_SIZE" by (simp_all add: BUF_SIZE_def)
  let ?net = "\<lambda>_ _. \<lparr>sys_socket = 3, sys_setsockopt = 0, sys_bind = 0, sys_listen = 0, sys_connect = 0, sys_epoll = 4\<rparr>"
  have "stoi ''3'' = Inr 3" by (simp add: stoi_def is_space_def is_digit_def digits_value_def)
  then have up: "\<forall>peer \<in> set (cache_list ?c). can_connect ?net peer"
    using c(2) by (simp add: can_connect_def client_socket_def check_call_def host_port_def BUF_SIZE_def)
  note h = scale_in_hands_over [OF c(1) ok(1) c(3) r ok(2,3) up, of None]
  have "peer_of ?c ''k'' = (''b'', ''3'')" using conjunct2 [OF h] c(2) by simp
  with conjunct1 [OF h] show ?thesis by simp
qed

text \<open>
  The receiving side: a server that is not leaving, and whose listening socket can be opened each time,
  stores the pairs it is sent, each as a write of the LRU store, in the order they arrive.
\<close>

theorem hand_over_received:
  assumes "lru_repr (MainCache c) es" "status c \<noteq> ''K''" "\<forall>(k, v) \<in> set kvs. CHR ''#'' \<notin> set k" "can_listen sys c"
  shows "\<exists>c'. accept_all sys (map (\<lambda>(k, v). k @ ''#'' @ v) kvs) c = Inr c' \<and>
    lru_repr (MainCache c') (lru_run (lcapacity (MainCache c)) (map (\<lambda>(k, v). Put k v) kvs) es)"
  using assms by (rule accept_all_spec)

definition demo_sys :: syscalls where
  "demo_sys = \<lparr>sys_socket = 3, sys_setsockopt = 0, sys_bind = 0, sys_listen = 0, sys_connect = 0, sys_epoll = 4\<rparr>"

lemma demo_listen: "can_listen demo_sys (Cache_new n st ''a'' cp ''2'')"
proof -
  have "stoi ''2'' = Inr 2" by (simp add: stoi_def is_space_def is_digit_def digits_value_def)
  then show ?thesis
    by (simp add: can_listen_def demo_sys_def server_socket_def check_call_def host_port_def BUF_SIZE_def Cache_new_def)
qed

theorem hand_over_received_witness:
  "\<exists>c'. accept_all demo_sys [''k#v'', ''l#w''] (Cache_new 10 ''P'' ''a'' ''1'' ''2'') = Inr c' \<and>
    lru_repr (MainCache c') [(''l'', ''w''), (''k'', ''v'')]"
proof -
  let ?c = "Cache_new 10 ''P'' ''a'' ''1'' ''2''"
  have "status ?c \<noteq> ''K''" by (simp add: Cache_new_def)
  from hand_over_received [OF lru_repr_Cache_new(1) this _ demo_listen, of "[(''k'', ''v''), (''l'', ''w'')]"]
  show ?thesis using lru_repr_Cache_new(2) [of 10 "''P''" "''a''" "''1''" "''2''"] by (simp add: lru_put_def)
qed

text \<open>
  C19. A replica that reads every request before the next one is handled holds the same recency
  list as its primary, evictions included (requests that begin with the separator excepted: the
  replica takes them for a list of servers).
\<close>

theorem replica_mirrors_primary:
  assumes "lru_repr (MainCache p) es" "lru_repr (MainCache r) es"
    "lcapacity (MainCache p) = cap" "lcapacity (MainCache r) = cap"
    "\<not> cache_list_update_flag p" "pr_status r = ''R''"
    "vals_bounded b es" "\<forall>m \<in> set ms. length m \<le> b \<and> take 1 m \<noteq> ''#''"
    "2 * b + length (local_addr p) + 10 \<le> BUF_SIZE"
  shows "\<exists>p' r'. mirrored_run ms p r = Inr (p', r') \<and>
    lru_repr (MainCache p') (lru_run cap (map req_op ms) es) \<and>
    lru_repr (MainCache r') (lru_run cap (map req_op ms) es)"
  using assms by (rule mirrored_run_spec)

theorem replica_mirrors_primary_witness:
  "\<exists>p' r'. mirrored_run [''k#v'', ''l#w'', ''k'']
      (Cache_new 10 ''P'' ''a'' ''1'' ''2'') (Cache_new 10 ''R'' ''b'' ''3'' ''4'') = Inr (p', r') \<and>
    lru_repr (MainCache p') [(''k'', ''v''), (''l'', ''w'')] \<and>
    lru_repr (MainCache r') [(''k'', ''v''), (''l'', ''w'')]"
proof -
  let ?p = "Cache_new 10 ''P'' ''a'' ''1'' ''2''" and ?r = "Cache_new 10 ''R'' ''b'' ''3'' ''4''"
  have "lru_run 10 (map req_op [''k#v'', ''l#w'', ''k'']) [] = [(''k'', ''v''), (''l'', ''w'')]"
    by (simp add: req_op_def req_key_def req_val_def lru_put_def lru_touch_def)
  moreover have "\<exists>p' r'. mirrored_run [''k#v'', ''l#w'', ''k''] ?p ?r = Inr (p', r') \<and>
      lru_repr (MainCache p') (lru_run 10 (map req_op [''k#v'', ''l#w'', ''k'']) []) \<and>
      lru_repr (MainCache r') (lru_run 10 (map req_op [''k#v'', ''l#w'', ''k'']) [])"
  proof (rule replica_mirrors_primary [of ?p "[]" ?r 10 3])
    show "lcapacity (MainCache ?p) = 10" "lcapacity (MainCache ?r) = 10" "lru_repr (MainCache ?p) []"
      "lru_repr (MainCache ?r) []" by (fact lru_repr_Cache_new)+
  qed (simp_all add: Cache_new_def vals_bounded_def local_addr_def BUF_SIZE_def)
  ultimately show ?thesis by simp
qed

text \<open>
  C37. Between two turns of the replication loop the primary keeps one request only: of the
  requests handled since the last turn the replica is sent the last one, the others are lost.
\<close>

theorem replication_keeps_last_only:
  assumes "chat_run ms c = Inr (rs, c1)" "ms \<noteq> []" "primary_cache True c1 = Inr (e, out, c2)"
  shows "out = (if cache_list_update_flag c1 then [replica_list_message (cache_list c1)] else []) @ [last ms] \<and>
    primary_cache True c2 = Inr (True, [], c2)"
proof -
  have "kv_update_flag c1 \<and> kv_to_replica c1 = last ms"
    using chat_run_last [OF assms(1,2)] .
  with assms(3) show ?thesis by (auto simp: primary_cache_def Let_def split: if_splits)
qed

theorem replication_keeps_last_only_witness:
  "\<exists>rs c1 e c2. chat_run [''k#v'', ''l#w''] (Cache_new 10 ''P'' ''a'' ''1'' ''2'') = Inr (rs, c1) \<and>
     primary_cache True c1 = Inr (e, [''l#w''], c2)"
proof -
  let ?c = "Cache_new 10 ''P'' ''a'' ''1'' ''2''"
  obtain L where L: "Client_chat (Received ''k#v'') ?c =
      Inr (Some (over_buffer (send_buff_client ?c) (spec_reply (local_addr ?c) [] ''k#v'')),
        ?c\<lparr>MainCache := L, kv_update_flag := True, kv_to_replica := ''k#v'', send_buff_client := bzero\<rparr>)"
    "lru_repr L (lru_step (lcapacity (MainCache ?c)) (req_op ''k#v'') [])" "lcapacity L = lcapacity (MainCache ?c)"
    by (rule chat_step [OF lru_repr_Cache_new(1) [of 10 "''P''" "''a''" "''1''" "''2''"], of 3 "''k#v''"])
      (simp_all add: vals_bounded_def local_addr_def Cache_new_def BUF_SIZE_def)
  let ?c1 = "?c\<lparr>MainCache := L, kv_update_flag := True, kv_to_replica := ''k#v'', send_buff_client := bzero\<rparr>"
  have r: "lru_repr (MainCache ?c1) [(''k'', ''v'')]"
    using L(2) lru_repr_Cache_new(2) [of 10 "''P''" "''a''" "''1''" "''2''"]
    by (simp add: req_op_def req_key_def req_val_def lru_put_def)
  obtain L' where L': "Client_chat (Received ''l#w'') ?c1 =
      Inr (Some (over_buffer (send_buff_client ?c1) (spec_reply (local_addr ?c1) [(''k'', ''v'')] ''l#w'')),
        ?c1\<lparr>MainCache := L', kv_update_flag := True, kv_to_replica := ''l#w'', send_buff_client := bzero\<rparr>)"
    by (rule chat_step [OF r, of 3 "''l#w''"])
      (simp_all add: vals_bounded_def local_addr_def Cache_new_def BUF_SIZE_def)
  obtain rs c1 where run: "chat_run [''k#v'', ''l#w''] ?c = Inr (rs, c1)"
    and flag: "\<not> cache_list_update_flag c1" "kv_to_replica c1 = ''l#w''" using L(1) L' by (simp add: Cache_new_def)
  obtain e out c2 where p: "primary_cache True c1 = Inr (e, out, c2)"
    using flag by (simp add: primary_cache_def BUF_SIZE_def)
  have "out = [''l#w'']" using replication_keeps_last_only [OF run _ p] flag by simp
  with run p show ?thesis by blast
qed

text \<open>
  The list of servers sent to a replica has no separator between its entries: with an even
  number of servers it never reaches the list of the replica, and a replica that does not know
  its primary yet exits.  With one server it does reach it.
\<close>

theorem replica_list_lost:
  assumes "\<forall>(a, p) \<in> set l. CHR ''#'' \<notin> set a \<and> CHR ''#'' \<notin> set p" "pr_status c = ''R''"
  shows "(even (length l) \<longrightarrow> replica_cache (replica_list_message l) c =
      (if (target_IP c, target_port c) \<in> set (cache_list c) then Inr (Some c) else Inl (Exit_process 0))) \<and>
    (l = [(target_IP c, target_port c)] \<longrightarrow>
      replica_cache (replica_list_message l) c = Inr (Some (c\<lparr>cache_list := cache_list c @ l\<rparr>)))"
proof (intro conjI impI)
  show "replica_cache (replica_list_message l) c =
      (if (target_IP c, target_port c) \<in> set (cache_list c) then Inr (Some c) else Inl (Exit_process 0))"
    if "even (length l)" using replica_list_even [OF assms(1) that assms(2)] .
  show "replica_cache (replica_list_message l) c = Inr (Some (c\<lparr>cache_list := cache_list c @ l\<rparr>))"
    if "l = [(target_IP c, target_port c)]" using replica_list_single assms that by simp
qed

theorem replica_list_lost_witness:
  "replica_cache (replica_list_message [(''a'', ''2''), (''b'', ''4'')])
     (Cache_new 10 ''R'' ''c'' ''5'' ''6''\<lparr>target_IP := ''a'', target_port := ''2''\<rparr>) = Inl (Exit_process 0)"
  using replica_list_lost [of "[(''a'', ''2''), (''b'', ''4'')]"
      "Cache_new 10 ''R'' ''c'' ''5'' ''6''\<lparr>target_IP := ''a'', target_port := ''2''\<rparr>"]
  by (simp add: Cache_new_def)

end
