(* ===== verification/Master.thy ===== *)
theory Master
  imports Consistent_Hash Wire
begin

text \<open>
  \<open>master/mastertry/master.cpp\<close>: the coordinator.  One definition per handler: a connection
  that is accepted, a heartbeat of a cache server (\<open>start_cache\<close>), a question of a client
  (\<open>start_client\<close>, \<open>handleClientMessage\<close>), one pass of the failure detector
  (\<open>periodicDetectCache\<close>), and the steps of scaling in (\<open>shrinkageCapacity\<close>).  Messages are pairs
  of a descriptor and a text; \<open>now\<close> is the value of \<open>time\<close>.  Reading \<open>caches_list[fd]\<close> for an
  unknown descriptor inserts a null pointer, and every such read is dereferenced at once:
  undefined behaviour, the value \<open>Inl Undefined\<close>.
\<close>

section \<open>State\<close>

record fdmap =
  fd_status :: char
  fd_num :: int
  fd_pair :: int
  fd_ip_port :: string
  fd_ip_cache :: string

definition fdmap_new :: "int \<Rightarrow> fdmap" where
  "fdmap_new fd = \<lparr>fd_status = CHR ''n'', fd_num = fd, fd_pair = -1, fd_ip_port = ''0'', fd_ip_cache = ''0''\<rparr>"

text \<open>The stacks \<open>pcache\<close> and \<open>rcache\<close> have their top at the front.\<close>

record Master =
  cacheAddrHash :: ConsistentHash
  cacheAddrMap :: "string \<rightharpoonup> int"
  caches_list :: "int \<rightharpoonup> fdmap"
  fd_node :: "int list"
  pcache :: "int list"
  rcache :: "int list"

type_synonym post = "int \<times> string"

definition heartBeatInterval :: int where
  "heartBeatInterval = 5"

text \<open>\<open>Start\<close> initialises the ring with no server and 100 virtual nodes.\<close>

definition Master_Start :: Master where
  "Master_Start = \<lparr>cacheAddrHash = initialize 0 100 \<lparr>key2Index = [], ch_nodes = 0, ch_v_nodes = 0\<rparr>,
     cacheAddrMap = Map.empty, caches_list = Map.empty, fd_node = [], pcache = [], rcache = []\<rparr>"

text \<open>\<open>caches_list[fd]->...\<close>, read and written\<close>

definition node :: "Master \<Rightarrow> int \<Rightarrow> fdmap result" where
  "node m fd = deref_opt (caches_list m fd)"

definition modify :: "int \<Rightarrow> (fdmap \<Rightarrow> fdmap) \<Rightarrow> Master \<Rightarrow> Master result" where
  "modify fd f m =
     andThen (node m fd) (\<lambda>e. Inr (m\<lparr>caches_list := (caches_list m)(fd \<mapsto> f e)\<rparr>))"

definition forget :: "int \<Rightarrow> Master \<Rightarrow> Master" where
  "forget fd m = m\<lparr>caches_list := (caches_list m)(fd := None)\<rparr>"

text \<open>\<open>strcpy\<close> into the send buffer, then \<open>send\<close>\<close>

definition post_to :: "int \<Rightarrow> string \<Rightarrow> post result" where
  "post_to fd msg = (if BUF_SIZE \<le> length msg then Inl Undefined else Inr (fd, msg))"

fun post_all :: "int list \<Rightarrow> string \<Rightarrow> post list result" where
  "post_all [] msg = Inr []"
| "post_all (fd # fds) msg =
     andThen (post_to fd msg) (\<lambda>p. andThen (post_all fds msg) (\<lambda>ps. Inr (p # ps)))"

section \<open>Connections and heartbeats\<close>

definition accept_cache :: "int \<Rightarrow> Master \<Rightarrow> Master" where
  "accept_cache clientfd m = m\<lparr>caches_list := (caches_list m)(clientfd \<mapsto> fdmap_new clientfd)\<rparr>"

definition pair_primary :: "int \<Rightarrow> Master \<Rightarrow> Master result" where
  "pair_primary fd m =
     (case rcache m of
        r # rs \<Rightarrow>
          andThen (modify fd (\<lambda>e. e\<lparr>fd_pair := r\<rparr>) m) (\<lambda>m1.
          andThen (modify r (\<lambda>e. e\<lparr>fd_pair := fd\<rparr>) m1) (\<lambda>m2. Inr (m2\<lparr>rcache := rs\<rparr>)))
      | [] \<Rightarrow> Inr (m\<lparr>pcache := fd # pcache m\<rparr>))"

definition pair_replica :: "int \<Rightarrow> Master \<Rightarrow> Master result" where
  "pair_replica fd m =
     (case pcache m of
        p # ps \<Rightarrow>
          andThen (modify fd (\<lambda>e. e\<lparr>fd_pair := p\<rparr>) m) (\<lambda>m1.
          andThen (modify p (\<lambda>e. e\<lparr>fd_pair := fd\<rparr>) m1) (\<lambda>m2. Inr (m2\<lparr>pcache := ps\<rparr>)))
      | [] \<Rightarrow> Inr (m\<lparr>rcache := fd # rcache m\<rparr>))"

text \<open>\<open>allcache = allcache + "#" + caches_list[fdi]->ip_cache\<close>\<close>

fun all_cache :: "int list \<Rightarrow> Master \<Rightarrow> string result" where
  "all_cache [] m = Inr ''''"
| "all_cache (fd # fds) m =
     andThen (node m fd) (\<lambda>e. andThen (all_cache fds m) (\<lambda>s. Inr (''#'' @ fd_ip_cache e @ s)))"

text \<open>Scaling out: the new server is the last of \<open>fd_node\<close>.\<close>

definition scale_out :: "Master \<Rightarrow> (post list \<times> Master) result" where
  "scale_out m =
     (let index = length (fd_node m) - 1;
          m1 = m\<lparr>cacheAddrHash := addNode index (cacheAddrHash m)\<rparr>
      in andThen (vec_at (fd_node m1) index) (\<lambda>fd.
         andThen (node m1 fd) (\<lambda>e.
         andThen (all_cache (fd_node m1) m1) (\<lambda>allcache.
         andThen (substr allcache 1 (length allcache)) (\<lambda>lst.
         andThen (post_to fd lst) (\<lambda>p.
         andThen (post_all (fd_node m1) (''N#'' @ fd_ip_cache e)) (\<lambda>ps.
         Inr (p # ps, m1))))))))"

definition first_heartbeat :: "int \<Rightarrow> string list \<Rightarrow> Master \<Rightarrow> (post list \<times> Master) result" where
  "first_heartbeat fd vtmsg m =
     andThen (vec_at vtmsg 1) (\<lambda>ip.
     andThen (vec_at vtmsg 2) (\<lambda>cp.
     andThen (vec_at vtmsg 3) (\<lambda>pp.
     andThen (vec_at vtmsg 4) (\<lambda>role.
     andThen (modify fd (\<lambda>e. e\<lparr>fd_ip_port := ip @ ''#'' @ cp, fd_ip_cache := ip @ ''#'' @ pp,
                              fd_status := role ! 0\<rparr>) m) (\<lambda>m1.
       if role = ''P'' then
         andThen (pair_primary fd (m1\<lparr>fd_node := fd_node m1 @ [fd]\<rparr>)) scale_out
       else if role = ''R'' then andThen (pair_replica fd m1) (\<lambda>m2. Inr ([], m2))
       else Inr ([], m1))))))"

text \<open>\<open>P/R#ip#port\<close> of the partner, or \<open>P/R#None\<close>\<close>

definition heartbeat_reply :: "int \<Rightarrow> Master \<Rightarrow> post result" where
  "heartbeat_reply fd m =
     andThen (node m fd) (\<lambda>it.
     andThen (if fd_pair it > -1 then andThen (node m (fd_pair it)) (\<lambda>p. Inr (fd_ip_cache p))
              else Inr ''None'') (\<lambda>t.
     post_to fd ([fd_status it] @ ''#'' @ t)))"

definition handleHeartBeatResponse :: "string \<Rightarrow> int \<Rightarrow> Master \<Rightarrow> Master result" where
  "handleHeartBeatResponse msg now m =
     (let vtmsg = master_split msg ''#''
      in andThen (vec_at vtmsg 1) (\<lambda>ip.
         andThen (vec_at vtmsg 2) (\<lambda>cp.
         Inr (m\<lparr>cacheAddrMap := (cacheAddrMap m)(ip @ ''#'' @ cp \<mapsto> now)\<rparr>))))"

text \<open>A message of a cache server; anything that is no heartbeat is ignored.\<close>

definition start_cache :: "int \<Rightarrow> string \<Rightarrow> int \<Rightarrow> Master \<Rightarrow> (post list \<times> Master) result" where
  "start_cache fd msg now m =
     (if take 1 msg \<noteq> ''x'' then Inr ([], m)
      else andThen (node m fd) (\<lambda>it.
           andThen (if fd_ip_port it = ''0'' then first_heartbeat fd (master_split msg ''#'') m
                    else Inr ([], m)) (\<lambda>(ps, m1).
           andThen (heartbeat_reply fd m1) (\<lambda>p.
           andThen (handleHeartBeatResponse msg now m1) (\<lambda>m2.
           Inr (ps @ [p], m2))))))"

section \<open>Clients\<close>

text \<open>
  A client connects: \<open>inet_ntoa(...) + ':' + ntohs(...)\<close> adds two numbers to a pointer to the text of
  the address.  The result is the text of \<open>clients_list[clientfd]\<close>, which nothing else reads.
\<close>

definition c_offset :: "string \<Rightarrow> nat \<Rightarrow> string result" where
  "c_offset s n = (if n \<le> length s then Inr (drop n s) else Inl Undefined)"

definition accept_client :: "string \<Rightarrow> 16 word \<Rightarrow> string result" where
  "accept_client sin_addr sin_port = c_offset sin_addr (of_char CHR '':'' + unat sin_port)"

definition handleClientMessage :: "string \<Rightarrow> Master \<Rightarrow> string result" where
  "handleClientMessage msg m =
     andThen (server_index (cacheAddrHash m) msg) (\<lambda>index.
     andThen (vec_at (fd_node m) index) (\<lambda>fd.
     andThen (node m fd) (\<lambda>e.
       let vtstr = master_split (fd_ip_port e) ''#''
       in andThen (vec_at vtstr 0) (\<lambda>a.
          andThen (vec_at vtstr 1) (\<lambda>b.
          Inr (a @ '':'' @ b))))))"

definition start_client :: "int \<Rightarrow> string \<Rightarrow> Master \<Rightarrow> post result" where
  "start_client fd msg m =
     andThen (handleClientMessage msg m) (\<lambda>addr. post_to fd (''MASTER#'' @ msg @ ''#'' @ addr))"

section \<open>Failure detection\<close>

text \<open>\<open>cacheAddrMap[addr]\<close> inserts 0 for an address without a heartbeat.\<close>

definition heartBeatDetect :: "int \<Rightarrow> int \<Rightarrow> Master \<Rightarrow> (bool \<times> Master) result" where
  "heartBeatDetect now fd m =
     andThen (node m fd) (\<lambda>e.
       let t = (case cacheAddrMap m (fd_ip_port e) of Some t \<Rightarrow> t | None \<Rightarrow> 0)
       in Inr (now - t < heartBeatInterval,
               m\<lparr>cacheAddrMap := (cacheAddrMap m)(fd_ip_port e \<mapsto> t)\<rparr>))"

text \<open>The loop over \<open>caches_list\<close> in its iteration order, up to the first server that is dead.\<close>

fun first_dead :: "int \<Rightarrow> int list \<Rightarrow> Master \<Rightarrow> (int option \<times> Master) result" where
  "first_dead now [] m = Inr (None, m)"
| "first_dead now (k # ks) m =
     andThen (node m k) (\<lambda>e.
     andThen (heartBeatDetect now (fd_num e) m) (\<lambda>(alive, m1).
       if alive then first_dead now ks m1 else Inr (Some (fd_num e), m1)))"

fun replace_first :: "int \<Rightarrow> int \<Rightarrow> int list \<Rightarrow> int list" where
  "replace_first x y [] = []"
| "replace_first x y (z # zs) = (if z = x then y # zs else z # replace_first x y zs)"

text \<open>\<open>tmpstr.replace(s.find("#"), 1, ":")\<close>\<close>

definition with_colon :: "string \<Rightarrow> string result" where
  "with_colon s =
     (let i = spear_loop CHR ''#'' s 0
      in if i = length s then Inl Out_of_range else Inr (take i s @ '':'' @ drop (i + 1) s))"

definition replica_down :: "int \<Rightarrow> Master \<Rightarrow> (post list \<times> Master) result" where
  "replica_down fd m =
     andThen (node m fd) (\<lambda>e.
     andThen (modify (fd_pair e) (\<lambda>p. p\<lparr>fd_pair := -1\<rparr>) m) (\<lambda>m1.
     andThen (node m1 fd) (\<lambda>e1.
     Inr ([], m1\<lparr>pcache := fd_pair e1 # pcache m1\<rparr>))))"

definition promote_replica :: "int \<Rightarrow> Master \<Rightarrow> (post list \<times> Master) result" where
  "promote_replica fd m =
     andThen (node m fd) (\<lambda>e.
       let backup = fd_pair e;
           m1 = m\<lparr>fd_node := replace_first fd backup (fd_node m)\<rparr>
       in andThen (with_colon (fd_ip_cache e)) (\<lambda>str1.
          andThen (node m1 backup) (\<lambda>b.
          andThen (with_colon (fd_ip_cache b)) (\<lambda>str2.
          andThen (post_all (fd_node m1) (''C#'' @ str1 @ ''#'' @ str2)) (\<lambda>ps.
          andThen (modify backup (\<lambda>b. b\<lparr>fd_pair := -1, fd_status := CHR ''P''\<rparr>) m1) (\<lambda>m2.
          andThen (node m2 fd) (\<lambda>e2.
          Inr (ps, m2\<lparr>pcache := fd_pair e2 # pcache m2\<rparr>))))))))"

definition remove_primary :: "int \<Rightarrow> Master \<Rightarrow> (post list \<times> Master) result" where
  "remove_primary fd m =
     (let index = length (takeWhile (\<lambda>x. x \<noteq> fd) (fd_node m));
          m1 = (if index < length (fd_node m)
                then m\<lparr>fd_node := remove1 fd (fd_node m),
                       cacheAddrHash := deleteNode index (cacheAddrHash m)\<rparr>
                else m)
      in andThen (node m1 fd) (\<lambda>e.
         andThen (post_all (fd_node m1) (''D#'' @ fd_ip_cache e)) (\<lambda>ps.
         Inr (ps, m1))))"

definition disaster :: "int \<Rightarrow> Master \<Rightarrow> (post list \<times> Master) result" where
  "disaster fd m =
     andThen (node m fd) (\<lambda>e.
       if fd_status e = CHR ''R'' then replica_down fd m
       else if fd_status e = CHR ''P'' then
         (if fd_pair e > 0 then promote_replica fd m else remove_primary fd m)
       else Inr ([], m))"

definition periodicDetectCache :: "int \<Rightarrow> int list \<Rightarrow> Master \<Rightarrow> (post list \<times> Master) result" where
  "periodicDetectCache now order m =
     andThen (first_dead now order m) (\<lambda>(dead, m1).
       case dead of
         None \<Rightarrow> Inr ([], m1)
       | Some fd \<Rightarrow>
           andThen (disaster fd m1) (\<lambda>(ps, m2). Inr (ps, if fd > 0 then forget fd m2 else m2)))"

section \<open>Scaling in\<close>

text \<open>
  \<open>shrinkageCapacity\<close> on the key \<open>s\<close>, in three steps: the announcement, the loop that waits for
  the last heartbeat to expire (\<open>heartBeatDetect now fd\<close>), and the removal.  \<open>fd\<close> is a local
  variable of the thread; other threads run between the steps.
\<close>

definition shrink_begin :: "Master \<Rightarrow> (int option \<times> post list \<times> Master) result" where
  "shrink_begin m =
     (if length (fd_node m) = 0 then Inr (None, [], m)
      else let index = length (fd_node m) - 1;
               m1 = m\<lparr>cacheAddrHash := deleteNode index (cacheAddrHash m)\<rparr>
           in andThen (vec_at (fd_node m1) index) (\<lambda>fd.
              andThen (node m1 fd) (\<lambda>e.
              andThen (post_all (fd_node m1) (''K#'' @ fd_ip_cache e)) (\<lambda>ps.
              Inr (Some fd, ps, m1)))))"

definition shrink_finish :: "int \<Rightarrow> Master \<Rightarrow> Master result" where
  "shrink_finish fd m =
     andThen (node m fd) (\<lambda>e.
     andThen (if fd_pair e > 0
              then let m1 = forget (fd_pair e) m in andThen (node m1 fd) (\<lambda>_. Inr m1)
              else Inr m) (\<lambda>m2.
       if fd_node m2 = [] then Inl Undefined
       else Inr (forget fd (m2\<lparr>fd_node := butlast (fd_node m2)\<rparr>))))"

text \<open>The loop over the keyboard: \<open>s\<close> begins a scale-in, \<open>c\<close> lists the caches in iteration order.\<close>

fun active_caches :: "int list \<Rightarrow> Master \<Rightarrow> string list result" where
  "active_caches [] m = Inr []"
| "active_caches (fd # fds) m =
     andThen (node m fd) (\<lambda>e. andThen (active_caches fds m) (\<lambda>ls. Inr ((fd_ip_cache e @ '' is active.'') # ls)))"

definition shrinkageCapacity :: "char \<Rightarrow> int list \<Rightarrow> Master \<Rightarrow>
    (string list \<times> int option \<times> post list \<times> Master) result" where
  "shrinkageCapacity x order m =
     (if x = CHR ''s'' \<and> length (fd_node m) > 0 then
        andThen (shrink_begin m) (\<lambda>(fd, ps, m1). Inr ([], fd, ps, m1))
      else if x = CHR ''c'' then andThen (active_caches order m) (\<lambda>ls. Inr (ls, None, [], m))
      else Inr ([], None, [], m))"

end
