(* ===== verification/Master_Facts.thy ===== *)
theory Master_Facts
  imports Master
begin

text \<open>
  What the coordinator guarantees (model in theory \<open>Master\<close>): the invariant of its tables under
  every history of connections, heartbeats, failures and scale-ins, the routing of keys, and
  the histories that crash it.
\<close>

section \<open>The invariant of the tables\<close>

definition addr_wf :: "fdmap \<Rightarrow> bool" where
  "addr_wf e \<longleftrightarrow> (\<exists>a b c. field_ok CHR ''#'' a \<and> field_ok CHR ''#'' b \<and> field_ok CHR ''#'' c \<and>
     fd_ip_port e = a @ ''#'' @ b \<and> fd_ip_cache e = a @ ''#'' @ c)"

definition opposite :: "char \<Rightarrow> char \<Rightarrow> bool" where
  "opposite s t \<longleftrightarrow> s = CHR ''P'' \<and> t = CHR ''R'' \<or> s = CHR ''R'' \<and> t = CHR ''P''"

definition entries_ok :: "int set \<Rightarrow> (int \<rightharpoonup> fdmap) \<Rightarrow> bool" where
  "entries_ok u cl \<longleftrightarrow> (\<forall>fd e. cl fd = Some e \<longrightarrow>
     fd_num e = fd \<and> 0 < fd \<and> fd \<in> u \<and> (e = fdmap_new fd \<or> addr_wf e))"

text \<open>Partners point at each other, one primary and one replica.\<close>

definition links_ok :: "(int \<rightharpoonup> fdmap) \<Rightarrow> bool" where
  "links_ok cl \<longleftrightarrow> (\<forall>fd e. cl fd = Some e \<and> fd_pair e \<noteq> -1 \<longrightarrow>
     (\<exists>p. cl (fd_pair e) = Some p \<and> fd_pair p = fd \<and> opposite (fd_status e) (fd_status p)))"

definition nodes_ok :: "(int \<rightharpoonup> fdmap) \<Rightarrow> int list \<Rightarrow> bool" where
  "nodes_ok cl ns \<longleftrightarrow> distinct ns \<and>
     (\<forall>fd \<in> set ns. \<exists>e. cl fd = Some e \<and> fd_status e = CHR ''P'' \<and> addr_wf e)"

text \<open>
  The stack of primaries may hold descriptors of servers that are gone; those of live servers
  are primaries without partner.  The stack of replicas holds live replicas without partner.
\<close>

definition pcache_ok :: "int set \<Rightarrow> (int \<rightharpoonup> fdmap) \<Rightarrow> int list \<Rightarrow> bool" where
  "pcache_ok u cl ps \<longleftrightarrow> distinct ps \<and> set ps \<subseteq> u \<and>
     (\<forall>q \<in> set ps. \<forall>e. cl q = Some e \<longrightarrow> fd_status e = CHR ''P'' \<and> fd_pair e = -1 \<and> addr_wf e)"

definition rcache_ok :: "(int \<rightharpoonup> fdmap) \<Rightarrow> int list \<Rightarrow> bool" where
  "rcache_ok cl rs \<longleftrightarrow> distinct rs \<and>
     (\<forall>q \<in> set rs. \<exists>e. cl q = Some e \<and> fd_status e = CHR ''R'' \<and> fd_pair e = -1 \<and> addr_wf e)"

definition tables_ok :: "int set \<Rightarrow> Master \<Rightarrow> bool" where
  "tables_ok u m \<longleftrightarrow> entries_ok u (caches_list m) \<and> links_ok (caches_list m) \<and>
     nodes_ok (caches_list m) (fd_node m) \<and> pcache_ok u (caches_list m) (pcache m) \<and>
     rcache_ok (caches_list m) (rcache m)"

definition hash_ok :: "Master \<Rightarrow> bool" where
  "hash_ok m \<longleftrightarrow> ring_ok (cacheAddrHash m) \<and> ch_nodes (cacheAddrHash m) = int (length (fd_node m)) \<and>
     ch_v_nodes (cacheAddrHash m) = 100"

definition master_ok :: "int set \<Rightarrow> Master \<Rightarrow> bool" where
  "master_ok u m \<longleftrightarrow> tables_ok u m \<and> hash_ok m"

lemmas table_defs = entries_ok_def links_ok_def nodes_ok_def pcache_ok_def rcache_ok_def

lemma node_Inr [simp]: "node m fd = Inr e \<longleftrightarrow> caches_list m fd = Some e"
  by (simp add: node_def deref_opt_Inr_iff)

lemma modify_Inr [simp]:
  "modify fd f m = Inr m' \<longleftrightarrow>
     (\<exists>e. caches_list m fd = Some e \<and> m' = m\<lparr>caches_list := (caches_list m)(fd \<mapsto> f e)\<rparr>)"
  by (auto simp: modify_def andThen_eq_Inr_iff)

lemma addr_wf_update [simp]:
  "addr_wf (e\<lparr>fd_pair := p\<rparr>) = addr_wf e" "addr_wf (e\<lparr>fd_status := s\<rparr>) = addr_wf e"
  by (simp_all add: addr_wf_def)

lemma addr_wf_new [simp]: "\<not> addr_wf (fdmap_new fd)"
proof
  assume "addr_wf (fdmap_new fd)"
  then obtain a b where "''0'' = a @ ''#'' @ b" by (auto simp: addr_wf_def fdmap_new_def)
  then have "CHR ''#'' \<in> set ''0''" by (metis in_set_conv_decomp append.simps)
  then show False by simp
qed

lemma fdmap_new_sel [simp]:
  "fd_status (fdmap_new fd) = CHR ''n''" "fd_pair (fdmap_new fd) = -1" "fd_num (fdmap_new fd) = fd"
  "fd_ip_port (fdmap_new fd) = ''0''"
  by (simp_all add: fdmap_new_def)

section \<open>Transformations of the table of connections\<close>

lemma entries_index: "entries_ok u cl \<Longrightarrow> cl k = Some q \<Longrightarrow> k \<noteq> -1"
  by (force simp: entries_ok_def)

lemma links_okD:
  assumes "links_ok cl" "cl fd = Some e" "fd_pair e \<noteq> -1"
  obtains p where "cl (fd_pair e) = Some p" "fd_pair p = fd" "opposite (fd_status e) (fd_status p)"
  using assms unfolding links_ok_def by blast

lemma links_okI:
  assumes "\<And>fd e. cl fd = Some e \<Longrightarrow> fd_pair e \<noteq> -1 \<Longrightarrow>
    \<exists>p. cl (fd_pair e) = Some p \<and> fd_pair p = fd \<and> opposite (fd_status e) (fd_status p)"
  shows "links_ok cl"
  using assms by (auto simp: links_ok_def)

lemma links_ok_unpaired:
  assumes "links_ok cl" "fd_pair e = -1" "\<And>k q. cl k = Some q \<Longrightarrow> fd_pair q \<noteq> fd"
  shows "links_ok (cl(fd \<mapsto> e))"
proof (rule links_okI)
  fix k q
  assume q: "(cl(fd \<mapsto> e)) k = Some q" "fd_pair q \<noteq> -1"
  then have "k \<noteq> fd" using assms(2) by auto
  with q have "cl k = Some q" by simp
  with links_okD [OF assms(1) this q(2)] assms(3) [OF this]
  show "\<exists>p. (cl(fd \<mapsto> e)) (fd_pair q) = Some p \<and> fd_pair p = k \<and> opposite (fd_status q) (fd_status p)"
    by auto
qed

lemma no_link_to_unpaired:
  assumes "links_ok cl" "fd \<noteq> -1" "\<And>e. cl fd = Some e \<Longrightarrow> fd_pair e = -1" "\<And>k q. cl k = Some q \<Longrightarrow> k \<noteq> -1"
    "cl k = Some q"
  shows "fd_pair q \<noteq> fd"
  using assms links_okD [OF assms(1) assms(5)] by metis

text \<open>A new entry, an entry filled in by the first heartbeat, and two partners joined.\<close>

lemma tables_accept:
  assumes t: "tables_ok u m" and f: "fd \<notin> u" "0 < fd"
  shows "tables_ok (insert fd u) (accept_cache fd m)"
proof -
  have no: "caches_list m fd = None"
    using t f(1) unfolding tables_ok_def entries_ok_def by (metis option.exhaust)
  have stack: "fd \<notin> set (pcache m)" using t f(1) by (auto simp: tables_ok_def pcache_ok_def)
  have "entries_ok (insert fd u) (caches_list (accept_cache fd m))"
    using t f by (auto simp: tables_ok_def entries_ok_def accept_cache_def)
  moreover have "links_ok (caches_list (accept_cache fd m))"
  proof -
    have l: "links_ok (caches_list m)" and pos: "\<And>k q. caches_list m k = Some q \<Longrightarrow> k \<noteq> -1"
      using t entries_index by (auto simp: tables_ok_def)
    have "fd_pair q \<noteq> fd" if "caches_list m k = Some q" for k q
      using no_link_to_unpaired [OF l _ _ pos that, of fd] no f(2) by simp
    with l show ?thesis by (simp add: accept_cache_def links_ok_unpaired)
  qed
  moreover have "nodes_ok (caches_list (accept_cache fd m)) (fd_node m)"
    using t no unfolding tables_ok_def nodes_ok_def accept_cache_def by force
  moreover have "pcache_ok (insert fd u) (caches_list (accept_cache fd m)) (pcache m)"
    using t stack unfolding tables_ok_def pcache_ok_def accept_cache_def by auto
  moreover have "rcache_ok (caches_list (accept_cache fd m)) (rcache m)"
    using t no unfolding tables_ok_def rcache_ok_def accept_cache_def by force
  ultimately show ?thesis by (simp add: tables_ok_def accept_cache_def)
qed

lemma tables_fill:
  assumes t: "tables_ok u m" and e: "caches_list m fd = Some (fdmap_new fd)"
    and w: "addr_wf e'" "fd_num e' = fd" "fd_pair e' = -1"
  shows "tables_ok u (m\<lparr>caches_list := (caches_list m)(fd \<mapsto> e')\<rparr>)"
proof -
  have i: "entries_ok u (caches_list m)" "links_ok (caches_list m)" "nodes_ok (caches_list m) (fd_node m)"
    "pcache_ok u (caches_list m) (pcache m)" "rcache_ok (caches_list m) (rcache m)"
    using t by (auto simp: tables_ok_def)
  have out: "fd \<notin> set (fd_node m)" "fd \<notin> set (pcache m)" "fd \<notin> set (rcache m)"
    using i e by (force simp: nodes_ok_def pcache_ok_def rcache_ok_def)+
  have pos: "\<And>k q. caches_list m k = Some q \<Longrightarrow> k \<noteq> -1" using entries_index [OF i(1)] .
  let ?cl = "(caches_list m)(fd \<mapsto> e')"
  have "entries_ok u ?cl" using i(1) e w by (auto simp: entries_ok_def)
  moreover have "links_ok ?cl"
    using no_link_to_unpaired [OF i(2) pos [OF e] _ pos] e by (intro links_ok_unpaired i(2) w(3)) simp
  moreover have "nodes_ok ?cl (fd_node m)" using i(3) out by (auto simp: nodes_ok_def)
  moreover have "pcache_ok u ?cl (pcache m)" using i(4) out by (auto simp: pcache_ok_def)
  moreover have "rcache_ok ?cl (rcache m)" using i(5) out by (auto simp: rcache_ok_def)
  ultimately show ?thesis by (simp add: tables_ok_def)
qed

lemma tables_join:
  assumes t: "tables_ok u m" and p: "caches_list m p = Some e" "caches_list m r = Some e'"
    and un: "fd_pair e = -1" "fd_pair e' = -1" and op: "opposite (fd_status e) (fd_status e')"
    and w: "addr_wf e" "addr_wf e'"
    and out: "p \<notin> set (pcache m)" "r \<notin> set (pcache m)" "p \<notin> set (rcache m)" "r \<notin> set (rcache m)"
  shows "tables_ok u (m\<lparr>caches_list := (caches_list m)(p \<mapsto> e\<lparr>fd_pair := r\<rparr>, r \<mapsto> e'\<lparr>fd_pair := p\<rparr>)\<rparr>)"
proof -
  have i: "entries_ok u (caches_list m)" "links_ok (caches_list m)" "nodes_ok (caches_list m) (fd_node m)"
    "pcache_ok u (caches_list m) (pcache m)" "rcache_ok (caches_list m) (rcache m)"
    using t by (auto simp: tables_ok_def)
  have ne: "p \<noteq> r" using p op by (auto simp: opposite_def)
  have pos: "0 < p" "0 < r" using i(1) p by (auto simp: entries_ok_def)
  have idx: "\<And>k q. caches_list m k = Some q \<Longrightarrow> k \<noteq> -1" using entries_index [OF i(1)] .
  have fresh: "fd_pair q \<noteq> p \<and> fd_pair q \<noteq> r" if "caches_list m k = Some q" for k q
    using no_link_to_unpaired [OF i(2) idx [OF p(1)] _ idx that] no_link_to_unpaired [OF i(2) idx [OF p(2)] _ idx that]
      p un by simp
  have op': "opposite (fd_status e') (fd_status e)" using op by (auto simp: opposite_def)
  let ?cl = "(caches_list m)(p \<mapsto> e\<lparr>fd_pair := r\<rparr>, r \<mapsto> e'\<lparr>fd_pair := p\<rparr>)"
  have "entries_ok u ?cl" using i(1) p ne w by (auto simp: entries_ok_def)
  moreover have "links_ok ?cl"
  proof (rule links_okI)
    fix k q
    assume q: "?cl k = Some q" "fd_pair q \<noteq> -1"
    show "\<exists>p. ?cl (fd_pair q) = Some p \<and> fd_pair p = k \<and> opposite (fd_status q) (fd_status p)"
    proof (cases "k = p \<or> k = r")
      case True
      then have "k = p \<and> q = e\<lparr>fd_pair := r\<rparr> \<or> k = r \<and> q = e'\<lparr>fd_pair := p\<rparr>"
        using q(1) ne by (auto split: if_splits)
      then show ?thesis using ne op op' by fastforce
    next
      case False
      with q have "caches_list m k = Some q" by simp
      with links_okD [OF i(2) this q(2)] fresh [OF this] show ?thesis by auto
    qed
  qed
  moreover have "nodes_ok ?cl (fd_node m)" using i(3) p by (fastforce simp: nodes_ok_def)
  moreover have "pcache_ok u ?cl (pcache m)" using i(4) out by (auto simp: pcache_ok_def)
  moreover have "rcache_ok ?cl (rcache m)" using i(5) out by (fastforce simp: rcache_ok_def)
  ultimately show ?thesis by (simp add: tables_ok_def)
qed

text \<open>An entry without partner removed; a partner released and its other side removed.\<close>

lemma forget_sel [simp]:
  "caches_list (forget fd m) = (caches_list m)(fd := None)" "fd_node (forget fd m) = fd_node m"
  "pcache (forget fd m) = pcache m" "rcache (forget fd m) = rcache m"
  "cacheAddrHash (forget fd m) = cacheAddrHash m" "cacheAddrMap (forget fd m) = cacheAddrMap m"
  by (simp_all add: forget_def)

lemma links_ok_remove:
  assumes "links_ok cl" "\<And>k q. cl k = Some q \<Longrightarrow> k \<noteq> fd \<Longrightarrow> fd_pair q \<noteq> fd"
  shows "links_ok (cl(fd := None))"
proof (rule links_okI)
  fix k q
  assume q: "(cl(fd := None)) k = Some q" "fd_pair q \<noteq> -1"
  then have k: "k \<noteq> fd" "cl k = Some q" by (auto split: if_splits)
  with links_okD [OF assms(1) k(2) q(2)] assms(2) [OF k(2,1)]
  show "\<exists>p. (cl(fd := None)) (fd_pair q) = Some p \<and> fd_pair p = k \<and> opposite (fd_status q) (fd_status p)"
    by auto
qed

lemma tables_remove:
  assumes t: "tables_ok u m" and e: "\<And>e. caches_list m fd = Some e \<Longrightarrow> fd_pair e = -1" and fd: "fd \<noteq> -1"
    and out: "fd \<notin> set (fd_node m)" "fd \<notin> set (rcache m)"
  shows "tables_ok u (forget fd m)"
proof -
  have i: "entries_ok u (caches_list m)" "links_ok (caches_list m)" "nodes_ok (caches_list m) (fd_node m)"
    "pcache_ok u (caches_list m) (pcache m)" "rcache_ok (caches_list m) (rcache m)"
    using t by (auto simp: tables_ok_def)
  have idx: "\<And>k q. caches_list m k = Some q \<Longrightarrow> k \<noteq> -1" using entries_index [OF i(1)] .
  let ?cl = "(caches_list m)(fd := None)"
  have "links_ok ?cl"
    using no_link_to_unpaired [OF i(2) fd e idx] by (intro links_ok_remove i(2)) simp
  moreover have "entries_ok u ?cl" using i(1) by (auto simp: entries_ok_def)
  moreover have "nodes_ok ?cl (fd_node m)" using i(3) out by (auto simp: nodes_ok_def)
  moreover have "pcache_ok u ?cl (pcache m)" using i(4) by (auto simp: pcache_ok_def)
  moreover have "rcache_ok ?cl (rcache m)" using i(5) out by (auto simp: rcache_ok_def)
  ultimately show ?thesis by (simp add: tables_ok_def)
qed

text \<open>
  \<open>fd\<close> and \<open>p\<close> are partners; \<open>fd\<close> goes, \<open>p\<close> stays alone, in status \<open>s\<close>, and takes over what
  \<open>fd\<close> was in the list of primaries when it is promoted.
\<close>

lemma tables_part:
  assumes t: "tables_ok u m" and e: "caches_list m fd = Some e" "fd_pair e = p" "p \<noteq> -1"
    and b: "caches_list m p = Some b" and s: "s = CHR ''P''" and b': "b' = b\<lparr>fd_pair := -1, fd_status := s\<rparr>"
    and ns: "distinct ns" "set ns \<subseteq> insert p (set (fd_node m)) - {fd}"
  shows "tables_ok u (m\<lparr>caches_list := (caches_list m)(p \<mapsto> b', fd := None), fd_node := ns, pcache := p # pcache m\<rparr>)"
proof -
  have i: "entries_ok u (caches_list m)" "links_ok (caches_list m)" "nodes_ok (caches_list m) (fd_node m)"
    "pcache_ok u (caches_list m) (pcache m)" "rcache_ok (caches_list m) (rcache m)"
    using t by (auto simp: tables_ok_def)
  have idx: "\<And>k q. caches_list m k = Some q \<Longrightarrow> k \<noteq> -1" using entries_index [OF i(1)] .
  have link: "fd_pair b = fd" "opposite (fd_status e) (fd_status b)"
    using links_okD [OF i(2) e(1)] e b by auto
  have ne: "p \<noteq> fd" using link(2) b e by (auto simp: opposite_def)
  have "b = fdmap_new p \<or> addr_wf b" using i(1) b by (simp add: entries_ok_def)
  then have w: "addr_wf b" using link(1) idx [OF e(1)] by auto
  have pin: "p \<in> u" "0 < p" "fd_num b = p" using i(1) b by (auto simp: entries_ok_def)
  have pc: "p \<notin> set (pcache m)" using i(4) b link(1) idx [OF e(1)] by (auto simp: pcache_ok_def)
  have rc: "p \<notin> set (rcache m)" "fd \<notin> set (rcache m)"
    using i(5) b link(1) idx [OF e(1)] e by (auto simp: rcache_ok_def)
  let ?cl = "(caches_list m)(p \<mapsto> b', fd := None)"
  have other: "fd_pair q \<noteq> p \<and> fd_pair q \<noteq> fd" if "caches_list m k = Some q" "k \<noteq> p" "k \<noteq> fd" for k q
  proof (cases "fd_pair q = -1")
    case True
    then show ?thesis using idx [OF e(1)] e(3) by simp
  next
    case False
    note k = that
    obtain q' where "caches_list m (fd_pair q) = Some q'" "fd_pair q' = k"
      using links_okD [OF i(2) k(1) False] by blast
    then show ?thesis using b e(1,2) link(1) k(2,3) by auto
  qed
  have "entries_ok u ?cl" using i(1) pin w b' by (auto simp: entries_ok_def)
  moreover have "links_ok ?cl"
  proof (rule links_okI)
    fix k q
    assume q: "?cl k = Some q" "fd_pair q \<noteq> -1"
    then have k: "k \<noteq> p" "k \<noteq> fd" "caches_list m k = Some q" using b' by (auto split: if_splits)
    with links_okD [OF i(2) k(3) q(2)] other [OF k(3,1,2)]
    show "\<exists>p. ?cl (fd_pair q) = Some p \<and> fd_pair p = k \<and> opposite (fd_status q) (fd_status p)" by auto
  qed
  moreover have "nodes_ok ?cl ns" using i(3) ns w b' s ne by (fastforce simp: nodes_ok_def)
  moreover have "pcache_ok u ?cl (p # pcache m)"
    using i(4) pc pin w b' s by (auto simp: pcache_ok_def)
  moreover have "rcache_ok ?cl (rcache m)" using i(5) rc by (auto simp: rcache_ok_def)
  ultimately show ?thesis by (simp add: tables_ok_def)
qed

section \<open>The handlers keep the invariant\<close>

lemma hash_ok_cong:
  "cacheAddrHash m' = cacheAddrHash m \<Longrightarrow> length (fd_node m') = length (fd_node m) \<Longrightarrow> hash_ok m' = hash_ok m"
  by (simp add: hash_ok_def)

lemma tables_ok_cong:
  "caches_list m' = caches_list m \<Longrightarrow> fd_node m' = fd_node m \<Longrightarrow> pcache m' = pcache m \<Longrightarrow> rcache m' = rcache m \<Longrightarrow>
     tables_ok u m' = tables_ok u m"
  by (simp add: tables_ok_def)

lemma master_ok_start: "master_ok {} Master_Start"
  using ring_ok_empty [of 100]
  by (simp add: master_ok_def tables_ok_def hash_ok_def Master_Start_def table_defs empty_ring_def initialize_def)

lemma master_ok_accept: "master_ok u m \<Longrightarrow> fd \<notin> u \<Longrightarrow> 0 < fd \<Longrightarrow> master_ok (insert fd u) (accept_cache fd m)"
  using tables_accept hash_ok_cong [of "accept_cache fd m" m] by (simp add: master_ok_def accept_cache_def)

lemma field_in_split: "t \<in> set (master_split s [c]) \<Longrightarrow> field_ok c t"
proof (induction s "[c]" rule: master_split.induct)
  case (1 s)
  have "c \<notin> set (fst (scan_token [c] s))" for s
    by (induction "[c]" s rule: scan_token.induct) auto
  with 1 show ?case by (subst (asm) (2) master_split.simps) (auto simp: Let_def field_ok_def split: if_splits)
qed

lemma tables_rcache: "tables_ok u m \<Longrightarrow> rcache m = rs @ rs' \<Longrightarrow> tables_ok u (m\<lparr>rcache := rs'\<rparr>)"
  by (auto simp: tables_ok_def rcache_ok_def)

lemma tables_pcache: "tables_ok u m \<Longrightarrow> pcache m = ps @ ps' \<Longrightarrow> tables_ok u (m\<lparr>pcache := ps'\<rparr>)"
  by (auto simp: tables_ok_def pcache_ok_def)

lemma tables_in_stack:
  assumes "tables_ok u m" "caches_list m fd = Some e"
  shows "fd \<in> set (rcache m) \<Longrightarrow> fd_status e = CHR ''R'' \<and> fd_pair e = -1 \<and> addr_wf e"
    and "fd \<in> set (pcache m) \<Longrightarrow> fd_status e = CHR ''P'' \<and> fd_pair e = -1 \<and> addr_wf e"
    and "fd \<in> set (fd_node m) \<Longrightarrow> fd_status e = CHR ''P'' \<and> addr_wf e"
  using assms by (auto simp: tables_ok_def pcache_ok_def rcache_ok_def nodes_ok_def)

lemma pair_primary_ok:
  assumes t: "tables_ok u m" and e: "caches_list m fd = Some e" "fd_status e = CHR ''P''" "fd_pair e = -1"
    "addr_wf e" and out: "fd \<notin> set (pcache m)" and h: "pair_primary fd m = Inr m'"
  shows "tables_ok u m' \<and> fd_node m' = fd_node m \<and> cacheAddrHash m' = cacheAddrHash m \<and> dom (caches_list m') = dom (caches_list m)"
proof (cases "rcache m")
  case Nil
  have "fd \<in> u" using t e(1) by (auto simp: tables_ok_def entries_ok_def)
  with Nil h t e out show ?thesis by (auto simp: pair_primary_def tables_ok_def pcache_ok_def)
next
  case (Cons r rs)
  then obtain e' where e': "caches_list m r = Some e'" "fd_status e' = CHR ''R''" "fd_pair e' = -1" "addr_wf e'"
    using t by (auto simp: tables_ok_def rcache_ok_def)
  have ne: "r \<noteq> fd" using e e' by auto
  let ?m0 = "m\<lparr>rcache := rs\<rparr>"
  have t0: "tables_ok u ?m0" using tables_rcache [OF t, of "[r]" rs] Cons by simp
  have r: "r \<notin> set rs" "r \<notin> set (pcache m)" "fd \<notin> set rs"
    using t Cons tables_in_stack [OF t e'(1)] tables_in_stack [OF t e(1)] e e' by (auto simp: tables_ok_def rcache_ok_def)
  have "tables_ok u (?m0\<lparr>caches_list := (caches_list ?m0)(fd \<mapsto> e\<lparr>fd_pair := r\<rparr>, r \<mapsto> e'\<lparr>fd_pair := fd\<rparr>)\<rparr>)"
    by (rule tables_join [OF t0]) (use e e' r out in \<open>auto simp: opposite_def\<close>)
  moreover have "m' = ?m0\<lparr>caches_list := (caches_list ?m0)(fd \<mapsto> e\<lparr>fd_pair := r\<rparr>, r \<mapsto> e'\<lparr>fd_pair := fd\<rparr>)\<rparr>"
    using h Cons e e' ne by (auto simp: pair_primary_def andThen_eq_Inr_iff)
  ultimately show ?thesis using e e' by auto
qed

lemma pair_replica_ok:
  assumes t: "tables_ok u m" and e: "caches_list m fd = Some e" "fd_status e = CHR ''R''" "fd_pair e = -1"
    "addr_wf e" and out: "fd \<notin> set (rcache m)" and h: "pair_replica fd m = Inr m'"
  shows "tables_ok u m' \<and> fd_node m' = fd_node m \<and> cacheAddrHash m' = cacheAddrHash m \<and> dom (caches_list m') = dom (caches_list m)"
proof (cases "pcache m")
  case Nil
  with h t e out show ?thesis by (auto simp: pair_replica_def tables_ok_def rcache_ok_def)
next
  case (Cons q ps)
  have "q \<noteq> fd" using tables_in_stack(2) [OF t e(1)] e Cons by auto
  with h Cons e obtain e' where e': "caches_list m q = Some e'"
    and m': "m' = m\<lparr>pcache := ps, caches_list := (caches_list m)(fd \<mapsto> e\<lparr>fd_pair := q\<rparr>, q \<mapsto> e'\<lparr>fd_pair := fd\<rparr>)\<rparr>"
    by (auto simp: pair_replica_def andThen_eq_Inr_iff)
  have s: "fd_status e' = CHR ''P''" "fd_pair e' = -1" "addr_wf e'"
    using tables_in_stack(2) [OF t e'] Cons by auto
  let ?m0 = "m\<lparr>pcache := ps\<rparr>"
  have t0: "tables_ok u ?m0" using tables_pcache [OF t, of "[q]" ps] Cons by simp
  have r: "q \<notin> set ps" "q \<notin> set (rcache m)" "fd \<notin> set ps"
    using t Cons tables_in_stack [OF t e'] tables_in_stack [OF t e(1)] e s by (auto simp: tables_ok_def pcache_ok_def)
  have "tables_ok u (?m0\<lparr>caches_list := (caches_list ?m0)(fd \<mapsto> e\<lparr>fd_pair := q\<rparr>, q \<mapsto> e'\<lparr>fd_pair := fd\<rparr>)\<rparr>)"
    by (rule tables_join [OF t0]) (use e e' s r out in \<open>auto simp: opposite_def\<close>)
  with m' e e' show ?thesis by auto
qed

lemma tables_append:
  assumes "tables_ok u m" "caches_list m fd = Some e" "fd_status e = CHR ''P''" "addr_wf e" "fd \<notin> set (fd_node m)"
  shows "tables_ok u (m\<lparr>fd_node := fd_node m @ [fd]\<rparr>)"
  using assms by (auto simp: tables_ok_def nodes_ok_def)

lemma scale_out_Inr:
  assumes "scale_out m = Inr (ps, m')"
  shows "m' = m\<lparr>cacheAddrHash := addNode (length (fd_node m) - 1) (cacheAddrHash m)\<rparr>"
  using assms by (auto simp: scale_out_def Let_def andThen_eq_Inr_iff)

lemma vec_at_Inr: "vec_at xs i = Inr x \<longleftrightarrow> i < length xs \<and> x = xs ! i"
  by (auto simp: vec_at_def)

text \<open>Either \<open>fd_node\<close> and the ring stay as they are, or both get the new server at the end.\<close>

definition grown :: "int \<Rightarrow> Master \<Rightarrow> Master \<Rightarrow> bool" where
  "grown fd m m' \<longleftrightarrow> fd_node m' = fd_node m @ [fd] \<and> cacheAddrHash m' = addNode (length (fd_node m)) (cacheAddrHash m)"

definition same_nodes :: "Master \<Rightarrow> Master \<Rightarrow> bool" where
  "same_nodes m m' \<longleftrightarrow> fd_node m' = fd_node m \<and> cacheAddrHash m' = cacheAddrHash m"

lemma first_heartbeat_tables:
  assumes t: "tables_ok u m" and new: "caches_list m fd = Some (fdmap_new fd)"
    and f: "\<forall>t \<in> set vtmsg. field_ok CHR ''#'' t" and h: "first_heartbeat fd vtmsg m = Inr (ps, m')"
  shows "tables_ok u m' \<and> (same_nodes m m' \<or> grown fd m m')"
proof -
  let ?e = "fdmap_new fd\<lparr>fd_ip_port := vtmsg ! 1 @ ''#'' @ vtmsg ! 2, fd_ip_cache := vtmsg ! 1 @ ''#'' @ vtmsg ! 3,
    fd_status := vtmsg ! 4 ! 0\<rparr>"
  let ?m1 = "m\<lparr>caches_list := (caches_list m)(fd \<mapsto> ?e)\<rparr>"
  let ?m2 = "?m1\<lparr>fd_node := fd_node m @ [fd]\<rparr>"
  have len: "4 < length vtmsg" and cases: "vtmsg ! 4 = ''P'' \<and> andThen (pair_primary fd ?m2) scale_out = Inr (ps, m') \<or>
      vtmsg ! 4 = ''R'' \<and> pair_replica fd ?m1 = Inr m' \<or> m' = ?m1"
    using h new by (auto simp: first_heartbeat_def andThen_eq_Inr_iff vec_at_Inr split: if_splits)
  have w: "addr_wf ?e" using f len by (auto simp: addr_wf_def intro!: exI)
  have out: "fd \<notin> set (fd_node m)" "fd \<notin> set (pcache m)" "fd \<notin> set (rcache m)"
    using tables_in_stack [OF t new] by auto
  have t1: "tables_ok u ?m1" by (rule tables_fill [OF t new w]) simp_all
  from cases consider (P) m3 where "vtmsg ! 4 = ''P''" "pair_primary fd ?m2 = Inr m3" "scale_out m3 = Inr (ps, m')"
    | (R) "vtmsg ! 4 = ''R''" "pair_replica fd ?m1 = Inr m'" | (other) "m' = ?m1"
    by (auto simp: andThen_eq_Inr_iff)
  then show ?thesis
  proof cases
    case P
    have "tables_ok u ?m2" using tables_append [OF t1, of fd ?e] w out P(1) by simp
    from pair_primary_ok [OF this, of fd ?e m3] P w out
    have 3: "tables_ok u m3" "fd_node m3 = fd_node m @ [fd]" "cacheAddrHash m3 = cacheAddrHash m" by auto
    note m' = scale_out_Inr [OF P(3)]
    have "tables_ok u m'" using 3(1) m' by (simp add: tables_ok_def)
    with 3 m' show ?thesis by (simp add: grown_def)
  next
    case R
    from pair_replica_ok [OF t1, of fd ?e m'] R w out show ?thesis by (auto simp: same_nodes_def)
  next
    case other
    with t1 show ?thesis by (simp add: same_nodes_def)
  qed
qed

lemma master_ok_map: "master_ok u (m\<lparr>cacheAddrMap := f\<rparr>) = master_ok u m"
  by (simp add: master_ok_def tables_ok_def hash_ok_def)

lemma addr_wf_not_zero: "addr_wf e \<Longrightarrow> fd_ip_port e \<noteq> ''0''"
proof
  assume "addr_wf e" "fd_ip_port e = ''0''"
  then obtain a b where "''0'' = a @ ''#'' @ b" by (auto simp: addr_wf_def)
  then have "CHR ''#'' \<in> set ''0''" by (metis in_set_conv_decomp append.simps)
  then show False by simp
qed

lemma start_cache_tables:
  assumes t: "tables_ok u m" and h: "start_cache fd msg now m = Inr (ps, m')"
  shows "tables_ok u m' \<and> (same_nodes m m' \<or> grown fd m m')"
proof (cases "take 1 msg = ''x''")
  case False
  with h t show ?thesis by (simp add: start_cache_def same_nodes_def)
next
  case True
  with h obtain it qs m1 where it: "caches_list m fd = Some it"
    and 1: "(if fd_ip_port it = ''0'' then first_heartbeat fd (master_split msg ''#'') m else Inr ([], m)) = Inr (qs, m1)"
    and 2: "handleHeartBeatResponse msg now m1 = Inr m'"
    by (auto simp: start_cache_def andThen_eq_Inr_iff)
  have "it = fdmap_new fd \<or> addr_wf it" using t it by (auto simp: tables_ok_def entries_ok_def)
  then have "fd_ip_port it = ''0'' \<Longrightarrow> it = fdmap_new fd" using addr_wf_not_zero by blast
  with 1 t it first_heartbeat_tables [OF t _ _, of fd "master_split msg ''#''" qs m1] field_in_split
  have "tables_ok u m1 \<and> (same_nodes m m1 \<or> grown fd m m1)" by (auto simp: same_nodes_def split: if_splits)
  moreover obtain f where "m' = m1\<lparr>cacheAddrMap := f\<rparr>"
    using 2 by (auto simp: handleHeartBeatResponse_def Let_def andThen_eq_Inr_iff)
  ultimately show ?thesis by (simp add: tables_ok_def same_nodes_def grown_def)
qed

lemma start_cache_ok:
  assumes ok: "master_ok u m" and h: "start_cache fd msg now m = Inr (ps, m')"
  shows "master_ok u m'"
proof -
  have t: "tables_ok u m" "hash_ok m" using ok by (simp_all add: master_ok_def)
  from start_cache_tables [OF t(1) h] show ?thesis
    using t(2) by (auto simp: master_ok_def hash_ok_def same_nodes_def grown_def ring_ok_addNode)
qed

text \<open>Failures\<close>

lemma heartBeatDetect_Inr:
  assumes "heartBeatDetect now fd m = Inr (alive, m')"
  obtains f where "m' = m\<lparr>cacheAddrMap := f\<rparr>"
  using assms by (auto simp: heartBeatDetect_def Let_def andThen_eq_Inr_iff)

lemma first_dead_Inr:
  "first_dead now ks m = Inr (d, m') \<Longrightarrow> \<exists>f. m' = m\<lparr>cacheAddrMap := f\<rparr>"
proof (induction ks arbitrary: m)
  case (Cons k ks)
  from Cons.prems obtain e alive m1 where "caches_list m k = Some e"
    and e: "heartBeatDetect now (fd_num e) m = Inr (alive, m1)"
    and "(if alive then first_dead now ks m1 else Inr (Some (fd_num e), m1)) = Inr (d, m')"
    by (auto simp: andThen_eq_Inr_iff)
  then have c: "alive \<and> first_dead now ks m1 = Inr (d, m') \<or> m' = m1" by (auto split: if_splits)
  obtain f where f: "m1 = m\<lparr>cacheAddrMap := f\<rparr>" using heartBeatDetect_Inr [OF e] .
  with c Cons.IH [of m1] show ?case by auto
qed (simp add: exI [of _ "cacheAddrMap m'"])

lemma first_dead_node:
  "entries_ok u (caches_list m) \<Longrightarrow> first_dead now ks m = Inr (Some fd, m') \<Longrightarrow> fd \<in> set ks \<and> 0 < fd"
proof (induction ks arbitrary: m)
  case (Cons k ks)
  from Cons.prems obtain e alive m1 where n: "caches_list m k = Some e"
    and e: "heartBeatDetect now (fd_num e) m = Inr (alive, m1)"
    and c: "(if alive then first_dead now ks m1 else Inr (Some (fd_num e), m1)) = Inr (Some fd, m')"
    by (auto simp: andThen_eq_Inr_iff)
  obtain f where f: "m1 = m\<lparr>cacheAddrMap := f\<rparr>" using heartBeatDetect_Inr [OF e] .
  have "fd_num e = k" "0 < k" using Cons.prems(1) n by (auto simp: entries_ok_def)
  with c f Cons.IH [of m1] Cons.prems(1) show ?case by (auto split: if_splits)
qed simp

lemma set_replace_first:
  "distinct ns \<Longrightarrow> p \<notin> set ns \<Longrightarrow> p \<noteq> fd \<Longrightarrow>
     distinct (replace_first fd p ns) \<and> set (replace_first fd p ns) \<subseteq> insert p (set ns) - {fd} \<and>
     length (replace_first fd p ns) = length ns"
  by (induction ns) auto

lemma partner:
  assumes "tables_ok u m" "caches_list m fd = Some e" "fd_pair e \<noteq> -1"
  obtains b where "caches_list m (fd_pair e) = Some b" "fd_pair b = fd" "opposite (fd_status e) (fd_status b)"
    "fd_pair e \<noteq> fd" "0 < fd_pair e" "fd_pair e \<notin> set (pcache m)"
proof -
  have l: "links_ok (caches_list m)" and i: "entries_ok u (caches_list m)"
    using assms(1) by (auto simp: tables_ok_def)
  obtain b where b: "caches_list m (fd_pair e) = Some b" "fd_pair b = fd" "opposite (fd_status e) (fd_status b)"
    using links_okD [OF l assms(2,3)] by blast
  moreover have "fd_pair e \<noteq> fd" using b assms(2) by (auto simp: opposite_def)
  moreover have "0 < fd_pair e" using i b(1) by (auto simp: entries_ok_def)
  moreover have "fd_pair e \<notin> set (pcache m)"
    using tables_in_stack(2) [OF assms(1) b(1)] b(2) entries_index [OF i assms(2)] by auto
  ultimately show thesis using that by blast
qed

lemma replica_down_ok:
  assumes ok: "master_ok u m" and e: "caches_list m fd = Some e" "fd_status e = CHR ''R''"
    and h: "replica_down fd m = Inr (ps, m')"
  shows "master_ok u (forget fd m')"
proof -
  have t: "tables_ok u m" using ok by (simp add: master_ok_def)
  have paired: "fd_pair e \<noteq> -1"
  proof
    assume "fd_pair e = -1"
    with h e have "caches_list m (-1) \<noteq> None" by (auto simp: replica_down_def andThen_eq_Inr_iff)
    with t entries_index show False by (auto simp: tables_ok_def)
  qed
  obtain b where b: "caches_list m (fd_pair e) = Some b" "fd_pair b = fd" "opposite (fd_status e) (fd_status b)"
    "fd_pair e \<noteq> fd" "0 < fd_pair e" by (rule partner [OF t e(1) paired])
  let ?b = "b\<lparr>fd_pair := -1, fd_status := CHR ''P''\<rparr>"
  have s: "fd_status b = CHR ''P''" using b(3) e(2) by (simp add: opposite_def)
  then have b': "b\<lparr>fd_pair := -1\<rparr> = ?b" by simp
  have ns: "distinct (fd_node m)" "set (fd_node m) \<subseteq> insert (fd_pair e) (set (fd_node m)) - {fd}"
    using t e tables_in_stack(3) [OF t e(1)] by (auto simp: tables_ok_def nodes_ok_def)
  have "tables_ok u (m\<lparr>caches_list := (caches_list m)(fd_pair e \<mapsto> ?b, fd := None), fd_node := fd_node m,
      pcache := fd_pair e # pcache m\<rparr>)"
    by (rule tables_part [OF t e(1) refl paired b(1) refl refl ns])
  moreover have "m' = m\<lparr>caches_list := (caches_list m)(fd_pair e \<mapsto> ?b), pcache := fd_pair e # pcache m\<rparr>"
    using h e b b' by (auto simp: replica_down_def andThen_eq_Inr_iff)
  ultimately show ?thesis using ok by (simp add: master_ok_def hash_ok_def tables_ok_def)
qed

lemma promote_replica_ok:
  assumes ok: "master_ok u m" and e: "caches_list m fd = Some e" "fd_status e = CHR ''P''" "0 < fd_pair e"
    and h: "promote_replica fd m = Inr (ps, m')"
  shows "master_ok u (forget fd m')"
    "caches_list m (fd_pair e) \<noteq> None \<and> fd_node m' = replace_first fd (fd_pair e) (fd_node m) \<and>
     cacheAddrHash m' = cacheAddrHash m"
proof -
  have t: "tables_ok u m" using ok by (simp add: master_ok_def)
  have paired: "fd_pair e \<noteq> -1" using e(3) by simp
  obtain b where b: "caches_list m (fd_pair e) = Some b" "fd_pair b = fd" "opposite (fd_status e) (fd_status b)"
    "fd_pair e \<noteq> fd" by (rule partner [OF t e(1) paired])
  let ?b = "b\<lparr>fd_pair := -1, fd_status := CHR ''P''\<rparr>"
  have "fd_pair e \<notin> set (fd_node m)" using tables_in_stack(3) [OF t b(1)] b(3) e(2) by (auto simp: opposite_def)
  then have ns: "distinct (replace_first fd (fd_pair e) (fd_node m))"
    "set (replace_first fd (fd_pair e) (fd_node m)) \<subseteq> insert (fd_pair e) (set (fd_node m)) - {fd}"
    "length (replace_first fd (fd_pair e) (fd_node m)) = length (fd_node m)"
    using set_replace_first [of "fd_node m" "fd_pair e" fd] b(4) t by (auto simp: tables_ok_def nodes_ok_def)
  have "tables_ok u (m\<lparr>caches_list := (caches_list m)(fd_pair e \<mapsto> ?b, fd := None),
      fd_node := replace_first fd (fd_pair e) (fd_node m), pcache := fd_pair e # pcache m\<rparr>)"
    by (rule tables_part [OF t e(1) refl paired b(1) refl refl ns(1,2)])
  moreover have m': "m' = m\<lparr>caches_list := (caches_list m)(fd_pair e \<mapsto> ?b),
      fd_node := replace_first fd (fd_pair e) (fd_node m), pcache := fd_pair e # pcache m\<rparr>"
    using h e b by (auto simp: promote_replica_def andThen_eq_Inr_iff Let_def)
  ultimately show "master_ok u (forget fd m')" using ok ns(3)
    by (simp add: master_ok_def hash_ok_def tables_ok_def)
  show "caches_list m (fd_pair e) \<noteq> None \<and> fd_node m' = replace_first fd (fd_pair e) (fd_node m) \<and>
     cacheAddrHash m' = cacheAddrHash m" using m' b(1) by simp
qed

lemma index_found: "length (takeWhile (\<lambda>x. x \<noteq> fd) ns) < length ns \<longleftrightarrow> fd \<in> set ns"
  by (induction ns) auto

lemma tables_drop_node:
  assumes "tables_ok u m" "distinct ns" "set ns \<subseteq> set (fd_node m)"
  shows "tables_ok u (m\<lparr>fd_node := ns\<rparr>)"
  using assms by (auto simp: tables_ok_def nodes_ok_def)

lemma int_length_remove1: "x \<in> set xs \<Longrightarrow> int (length (remove1 x xs)) = int (length xs) - 1"
  by (induction xs) auto

lemma remove_primary_Inr:
  assumes "remove_primary fd m = Inr (ps, m')"
  shows "m' = (if fd \<in> set (fd_node m) then m\<lparr>fd_node := remove1 fd (fd_node m),
     cacheAddrHash := deleteNode (length (takeWhile (\<lambda>x. x \<noteq> fd) (fd_node m))) (cacheAddrHash m)\<rparr> else m)"
  using assms by (auto simp: remove_primary_def Let_def andThen_eq_Inr_iff index_found)

lemma remove_primary_ok:
  assumes ok: "master_ok u m" and e: "caches_list m fd = Some e" "fd_pair e = -1" "fd \<notin> set (rcache m)"
    and h: "remove_primary fd m = Inr (ps, m')"
  shows "master_ok u (forget fd m')"
proof -
  have t: "tables_ok u m" and hash: "hash_ok m" using ok by (auto simp: master_ok_def)
  have d: "distinct (fd_node m)" and i: "fd \<noteq> -1"
    using t entries_index e(1) by (auto simp: tables_ok_def nodes_ok_def)
  let ?m1 = "m\<lparr>fd_node := remove1 fd (fd_node m)\<rparr>"
  have "tables_ok u ?m1" using tables_drop_node [OF t, of "remove1 fd (fd_node m)"] d by (simp add: set_remove1_subset)
  then have "tables_ok u (forget fd ?m1)"
    using e d i by (intro tables_remove) auto
  moreover note m' = remove_primary_Inr [OF h]
  ultimately have "tables_ok u (forget fd m')"
    by (cases "fd \<in> set (fd_node m)") (simp_all add: tables_ok_def remove1_idem)
  moreover have "hash_ok (forget fd m')"
    using hash m' by (auto simp: hash_ok_def ring_ok_deleteNode int_length_remove1)
  ultimately show ?thesis by (simp add: master_ok_def)
qed

lemma disaster_ok:
  assumes ok: "master_ok u m" and h: "disaster fd m = Inr (ps, m')"
  shows "master_ok u (forget fd m')"
proof -
  have t: "tables_ok u m" using ok by (simp add: master_ok_def)
  from h obtain e where e: "caches_list m fd = Some e" by (auto simp: disaster_def andThen_eq_Inr_iff)
  have i: "fd \<noteq> -1" using t e entries_index by (auto simp: tables_ok_def)
  consider (R) "fd_status e = CHR ''R''" "replica_down fd m = Inr (ps, m')"
    | (P) "fd_status e = CHR ''P''" "0 < fd_pair e" "promote_replica fd m = Inr (ps, m')"
    | (alone) "fd_status e = CHR ''P''" "\<not> 0 < fd_pair e" "remove_primary fd m = Inr (ps, m')"
    | (other) "fd_status e \<noteq> CHR ''R''" "fd_status e \<noteq> CHR ''P''" "m' = m"
    using h e by (auto simp: disaster_def andThen_eq_Inr_iff split: if_splits)
  then show ?thesis
  proof cases
    case R
    with replica_down_ok [OF ok e] show ?thesis by blast
  next
    case P
    with promote_replica_ok [OF ok e] show ?thesis by blast
  next
    case alone
    have "fd_pair e = -1" using partner [OF t e] alone(2) by blast
    moreover have "fd \<notin> set (rcache m)" using tables_in_stack(1) [OF t e] alone(1) by auto
    ultimately show ?thesis using remove_primary_ok [OF ok e] alone(3) by blast
  next
    case other
    have "fd_pair e = -1" using partner [OF t e] other(1,2) by (metis opposite_def)
    moreover have "fd \<notin> set (fd_node m)" "fd \<notin> set (rcache m)"
      using tables_in_stack(1,3) [OF t e] other(1,2) by auto
    ultimately have "tables_ok u (forget fd m)" using t e i by (intro tables_remove) auto
    with ok other(3) show ?thesis by (simp add: master_ok_def hash_ok_def)
  qed
qed

lemma periodic_ok:
  assumes ok: "master_ok u m" and h: "periodicDetectCache now order m = Inr (ps, m')"
  shows "master_ok u m'"
proof -
  from h obtain d m1 where d: "first_dead now order m = Inr (d, m1)"
    and r: "(case d of None \<Rightarrow> Inr ([], m1) | Some fd \<Rightarrow> andThen (disaster fd m1)
      (\<lambda>(ps, m2). Inr (ps, if fd > 0 then forget fd m2 else m2))) = Inr (ps, m')"
    by (auto simp: periodicDetectCache_def andThen_eq_Inr_iff)
  obtain f where f: "m1 = m\<lparr>cacheAddrMap := f\<rparr>" using first_dead_Inr [OF d] by blast
  with ok have ok1: "master_ok u m1" by (simp add: master_ok_map)
  show ?thesis
  proof (cases d)
    case None
    with r ok1 show ?thesis by simp
  next
    case (Some fd)
    with first_dead_node [of u m now order fd m1] ok d have "0 < fd"
      by (simp add: master_ok_def tables_ok_def)
    with Some r obtain m2 where "disaster fd m1 = Inr (ps, m2)" "m' = forget fd m2"
      by (auto simp: andThen_eq_Inr_iff)
    with disaster_ok [OF ok1] show ?thesis by blast
  qed
qed

section \<open>Scaling in\<close>

text \<open>The key \<open>s\<close> is the only way into the scale-in.\<close>

lemma shrinkageCapacity_Inr:
  "shrinkageCapacity x order m = Inr (ls, Some fd, ps, m1) \<longleftrightarrow>
     x = CHR ''s'' \<and> ls = [] \<and> shrink_begin m = Inr (Some fd, ps, m1)"
  by (auto simp: shrinkageCapacity_def shrink_begin_def andThen_eq_Inr_iff Let_def)

lemma shrink_begin_Inr:
  assumes "shrink_begin m = Inr (Some fd, ps, m')"
  shows "fd_node m \<noteq> []" "fd = last (fd_node m)"
    "m' = m\<lparr>cacheAddrHash := deleteNode (length (fd_node m) - 1) (cacheAddrHash m)\<rparr>"
  using assms by (auto simp: shrink_begin_def Let_def andThen_eq_Inr_iff vec_at_Inr last_conv_nth split: if_splits)

lemma shrink_finish_ok:
  assumes t: "tables_ok u m" and n: "fd_node m \<noteq> []" "fd = last (fd_node m)" and h: "shrink_finish fd m = Inr m'"
  shows "tables_ok u m' \<and> fd_node m' = butlast (fd_node m) \<and> cacheAddrHash m' = cacheAddrHash m"
proof -
  have d: "distinct (fd_node m)" and last: "fd \<in> set (fd_node m)"
    and split: "fd_node m = butlast (fd_node m) @ [fd]"
    using t n by (auto simp: tables_ok_def nodes_ok_def)
  obtain e where e: "caches_list m fd = Some e" "fd_status e = CHR ''P''"
    using t last by (auto simp: tables_ok_def nodes_ok_def)
  have ns: "distinct (butlast (fd_node m))" "set (butlast (fd_node m)) \<subseteq> set (fd_node m) - {fd}"
    using n d by (cases "fd_node m" rule: rev_cases; auto)+
  have i: "fd \<noteq> -1" using t e entries_index by (auto simp: tables_ok_def)
  show ?thesis
  proof (cases "fd_pair e > 0")
    case False
    then have alone: "fd_pair e = -1" using partner [OF t e(1)] by blast
    have "tables_ok u (m\<lparr>fd_node := butlast (fd_node m)\<rparr>)" using tables_drop_node [OF t ns(1)] ns(2) by blast
    then have "tables_ok u (forget fd (m\<lparr>fd_node := butlast (fd_node m)\<rparr>))"
      using e alone i ns(2) tables_in_stack(1) [OF t e(1)] by (intro tables_remove) auto
    with h e False n show ?thesis by (auto simp: shrink_finish_def andThen_eq_Inr_iff split: if_splits)
  next
    case True
    then have paired: "fd_pair e \<noteq> -1" by simp
    obtain b where b: "caches_list m (fd_pair e) = Some b" "fd_pair b = fd" "opposite (fd_status e) (fd_status b)"
      "fd_pair e \<noteq> fd" by (rule partner [OF t e(1) paired])
    have out: "fd_pair e \<notin> set (fd_node m)" "fd_pair e \<notin> set (rcache m)"
      using tables_in_stack(1,3) [OF t b(1)] b e(2) i by (auto simp: opposite_def)
    let ?m1 = "m\<lparr>caches_list := (caches_list m)(fd_pair e \<mapsto> b\<lparr>fd_pair := -1, fd_status := CHR ''P''\<rparr>, fd := None),
      fd_node := butlast (fd_node m), pcache := fd_pair e # pcache m\<rparr>"
    have "tables_ok u ?m1" using tables_part [OF t e(1) refl paired b(1) refl refl ns(1)] ns(2) by blast
    then have "tables_ok u (forget (fd_pair e) ?m1)"
      using b(4) paired out ns(2) by (intro tables_remove) auto
    from tables_pcache [OF this, of "[fd_pair e]" "pcache m"]
    have "tables_ok u (forget (fd_pair e) ?m1\<lparr>pcache := pcache m\<rparr>)" by simp
    moreover have "m' = forget fd ((forget (fd_pair e) m)\<lparr>fd_node := butlast (fd_node m)\<rparr>)"
      using h e True n b(4) by (auto simp: shrink_finish_def andThen_eq_Inr_iff Let_def)
    moreover have "(caches_list m)(fd_pair e := None, fd := None) = (caches_list m)(fd := None, fd_pair e := None)"
      using b(4) by (simp add: fun_upd_twist)
    ultimately show ?thesis by (simp add: tables_ok_def)
  qed
qed

text \<open>Between the two halves the ring has lost its last server, and \<open>fd_node\<close> has not.\<close>

definition leaving_ok :: "int set \<Rightarrow> int \<Rightarrow> Master \<Rightarrow> bool" where
  "leaving_ok u fd m \<longleftrightarrow> tables_ok u m \<and> fd_node m \<noteq> [] \<and> fd = last (fd_node m) \<and>
     hash_ok (m\<lparr>fd_node := butlast (fd_node m)\<rparr>)"

lemma leaving_ok_begin:
  assumes ok: "master_ok u m" and b: "shrink_begin m = Inr (Some fd, ps, m')"
  shows "leaving_ok u fd m'"
proof -
  note m' = shrink_begin_Inr [OF b]
  have "int (length (butlast (fd_node m))) = int (length (fd_node m)) - 1"
    using m'(1) by (cases "fd_node m" rule: rev_cases) auto
  with ok m' show ?thesis by (simp add: leaving_ok_def master_ok_def hash_ok_def tables_ok_def ring_ok_deleteNode)
qed

lemma leaving_ok_map: "leaving_ok u fd (m\<lparr>cacheAddrMap := f\<rparr>) = leaving_ok u fd m"
  by (simp add: leaving_ok_def tables_ok_def hash_ok_def)

lemma leaving_ok_accept: "leaving_ok u fd m \<Longrightarrow> g \<notin> u \<Longrightarrow> 0 < g \<Longrightarrow> leaving_ok (insert g u) fd (accept_cache g m)"
  using tables_accept by (simp add: leaving_ok_def hash_ok_def) (simp add: accept_cache_def)

lemma leaving_ok_message:
  assumes ok: "leaving_ok u fd m" and h: "start_cache g msg now m = Inr (ps, m')" and n: "fd_node m' = fd_node m"
  shows "leaving_ok u fd m'"
proof -
  have "\<not> grown g m m'" using n by (simp add: grown_def)
  moreover have "tables_ok u m" using ok by (simp add: leaving_ok_def)
  ultimately show ?thesis using ok n start_cache_tables [of u m g msg now ps m'] h
    by (simp add: leaving_ok_def hash_ok_def same_nodes_def)
qed

lemma leaving_ok_finish:
  assumes ok: "leaving_ok u fd m" and f: "shrink_finish fd m = Inr m'"
  shows "master_ok u m'"
proof -
  have t: "tables_ok u m" "fd_node m \<noteq> []" "fd = last (fd_node m)" and h: "hash_ok (m\<lparr>fd_node := butlast (fd_node m)\<rparr>)"
    using ok by (simp_all add: leaving_ok_def)
  from shrink_finish_ok [OF t f] h show ?thesis by (simp add: master_ok_def hash_ok_def)
qed

end
