(* ===== verification/Master_Properties.thy ===== *)
theory Master_Properties
  imports Master_Facts
begin

text \<open>
  The histories of the coordinator as a step relation (\<open>master_history\<close>), the routing of keys, the
  announcements on a join, fail-over, and the histories that end in undefined behaviour.
\<close>

section \<open>Histories\<close>

text \<open>
  \<open>u\<close> is the set of descriptors handed out so far; \<open>accept\<close> yields a new one.  The second argument is
  the local variable of a scale-in under way.  Its two halves are at least five seconds apart, and the
  coordinator goes on handling messages meanwhile: the heartbeats of the servers it knows, the one that
  leaves included, and new replicas.  Histories in which a primary joins or the detector runs at that
  time are left out: theorem \<open>detector_races\<close> shows what they lead to.
\<close>

inductive master_history :: "int set \<Rightarrow> int option \<Rightarrow> Master \<Rightarrow> bool" where
  start: "master_history {} None Master_Start"
| connect: "master_history u lv m \<Longrightarrow> fd \<notin> u \<Longrightarrow> 0 < fd \<Longrightarrow> master_history (insert fd u) lv (accept_cache fd m)"
| message: "master_history u None m \<Longrightarrow> start_cache fd msg now m = Inr (ps, m') \<Longrightarrow> master_history u None m'"
| detect: "master_history u None m \<Longrightarrow> periodicDetectCache now order m = Inr (ps, m') \<Longrightarrow> master_history u None m'"
| shrink: "master_history u None m \<Longrightarrow> shrinkageCapacity x order m = Inr (ls, Some fd, ps, m') \<Longrightarrow>
    master_history u (Some fd) m'"
| leaving_message: "master_history u (Some fd) m \<Longrightarrow> start_cache g msg now m = Inr (ps, m') \<Longrightarrow> fd_node m' = fd_node m \<Longrightarrow>
    master_history u (Some fd) m'"
| leaving_waits: "master_history u (Some fd) m \<Longrightarrow> heartBeatDetect now fd m = Inr (True, m') \<Longrightarrow> master_history u (Some fd) m'"
| left: "master_history u (Some fd) m \<Longrightarrow> heartBeatDetect now fd m = Inr (False, m1) \<Longrightarrow> shrink_finish fd m1 = Inr m' \<Longrightarrow>
    master_history u None m'"

abbreviation master_reach :: "int set \<Rightarrow> Master \<Rightarrow> bool" where
  "master_reach u m \<equiv> master_history u None m"

lemma history_ok: "master_history u lv m \<Longrightarrow> case lv of None \<Rightarrow> master_ok u m | Some fd \<Rightarrow> leaving_ok u fd m"
proof (induction rule: master_history.induct)
  case start
  show ?case using master_ok_start by simp
next
  case (connect u lv m fd)
  then show ?case using master_ok_accept leaving_ok_accept by (cases lv) simp_all
next
  case (message u m fd msg now ps m')
  then show ?case using start_cache_ok by simp
next
  case (detect u m now order ps m')
  then show ?case using periodic_ok by simp
next
  case (shrink u m x order ls fd ps m')
  then show ?case using shrinkageCapacity_Inr leaving_ok_begin by fastforce
next
  case (leaving_message u fd m g msg now ps m')
  then show ?case using leaving_ok_message by simp
next
  case (leaving_waits u fd m now m')
  from heartBeatDetect_Inr [OF leaving_waits.hyps(2)] leaving_waits.IH show ?case by (metis leaving_ok_map option.case(2))
next
  case (left u fd m now m1 m')
  from heartBeatDetect_Inr [OF left.hyps(2)] left.IH have "leaving_ok u fd m1" by (metis leaving_ok_map option.case(2))
  with left.hyps(3) show ?case using leaving_ok_finish by simp
qed

lemma reach_ok: "master_reach u m \<Longrightarrow> master_ok u m"
  using history_ok [of u None m] by simp

text \<open>A first history, used for the witnesses: one primary joins.\<close>

definition demo_entry :: fdmap where
  "demo_entry = \<lparr>fd_status = CHR ''P'', fd_num = 5, fd_pair = -1, fd_ip_port = ''a#1'', fd_ip_cache = ''a#2''\<rparr>"

definition demo_master :: Master where
  "demo_master = \<lparr>cacheAddrHash = addNode 0 (cacheAddrHash Master_Start),
     cacheAddrMap = [''a#1'' \<mapsto> 100], caches_list = [5 \<mapsto> demo_entry], fd_node = [5], pcache = [5], rcache = []\<rparr>"

lemma split_heartbeat:
  assumes "field_ok CHR ''#'' ip" "field_ok CHR ''#'' cp" "field_ok CHR ''#'' pp" "field_ok CHR ''#'' r"
  shows "master_split (''x#'' @ ip @ ''#'' @ cp @ ''#'' @ pp @ ''#'' @ r) ''#'' = [''x'', ip, cp, pp, r]"
  using assms master_tok.tok_five [of "CHR ''#''" "''x''" ip cp pp r] by (simp add: field_ok_def)

lemma demo_split: "master_split ''x#a#1#2#P'' ''#'' = [''x'', ''a'', ''1'', ''2'', ''P'']"
  using split_heartbeat [of "''a''" "''1''" "''2''" "''P''"] by (simp add: field_ok_def)

lemma demo_join:
  "start_cache 5 ''x#a#1#2#P'' 100 (accept_cache 5 Master_Start) =
     Inr ([(5, ''a#2''), (5, ''N#a#2''), (5, ''P#None'')], demo_master)"
  by (simp add: start_cache_def demo_split first_heartbeat_def accept_cache_def vec_at_def modify_def node_def
      Master_Start_def pair_primary_def scale_out_def Let_def substr_def post_to_def BUF_SIZE_def heartbeat_reply_def
      handleHeartBeatResponse_def demo_master_def demo_entry_def fdmap_new_def)

lemma demo_reach: "master_reach {5} demo_master"
  using message [OF connect [OF start, of 5] demo_join] by simp

section \<open>Routing\<close>

lemma handle_client_addr:
  assumes "server_index (cacheAddrHash m) key = Inr i" "i < length (fd_node m)" "caches_list m (fd_node m ! i) = Some e"
    "fd_ip_port e = a @ ''#'' @ b" "field_ok CHR ''#'' a" "field_ok CHR ''#'' b"
  shows "handleClientMessage key m = Inr (a @ '':'' @ b)"
  using assms master_tok.tok_two [of "CHR ''#''" a b] by (simp add: handleClientMessage_def vec_at_def node_def)

lemma handle_client_Inr:
  assumes ok: "master_ok u m" and s: "server_index (cacheAddrHash m) key = Inr i"
  obtains e a b where "i < length (fd_node m)" "caches_list m (fd_node m ! i) = Some e"
    "fd_status e = CHR ''P''" "fd_ip_port e = a @ ''#'' @ b" "handleClientMessage key m = Inr (a @ '':'' @ b)"
proof -
  have i: "i < length (fd_node m)"
    using server_index_bound [OF _ s] ok by (simp add: master_ok_def hash_ok_def)
  then have "fd_node m ! i \<in> set (fd_node m)" by simp
  then obtain e where e: "caches_list m (fd_node m ! i) = Some e" "fd_status e = CHR ''P''" "addr_wf e"
    using ok by (auto simp: master_ok_def tables_ok_def nodes_ok_def)
  then obtain a b where ab: "field_ok CHR ''#'' a" "field_ok CHR ''#'' b" "fd_ip_port e = a @ ''#'' @ b"
    by (auto simp: addr_wf_def)
  have "handleClientMessage key m = Inr (a @ '':'' @ b)" using handle_client_addr [OF s i e(1) ab(3,1,2)] .
  with i e ab that show thesis by blast
qed

lemma ring_empty:
  assumes "master_ok u m" "fd_node m = []"
  shows "key2Index (cacheAddrHash m) = []"
proof (cases "key2Index (cacheAddrHash m)")
  case (Cons x xs)
  obtain k i where "x = (k, i)" by (cases x)
  with Cons have "map_of (key2Index (cacheAddrHash m)) k = Some i" by simp
  with assms have "int i < 0" by (force simp: master_ok_def hash_ok_def ring_ok_def)
  then show ?thesis by simp
qed simp

lemma server_index_empty: "key2Index ch = [] \<Longrightarrow> server_index ch key = Inl Undefined"
  by (simp add: server_index_def GetServer_def ring_search_def)

lemma demo_ring_nonempty: "key2Index (cacheAddrHash demo_master) \<noteq> []"
proof -
  have "int_range 0 100 = 0 # [1..99]" by (simp add: int_range_def upto_rec1)
  then show ?thesis
    by (simp add: demo_master_def Master_Start_def addNode_def insert_shard_def initialize_def fold_insert_nonempty map_insert_nonempty)
qed

text \<open>The text of an IPv4 address is shorter than the code of the colon.\<close>

lemma accept_client_undefined: "length ip \<le> 15 \<Longrightarrow> accept_client ip port = Inl Undefined"
  by (simp add: accept_client_def c_offset_def)

section \<open>Joining\<close>

definition cache_addr :: "Master \<Rightarrow> int \<Rightarrow> string" where
  "cache_addr m fd = fd_ip_cache (the (caches_list m fd))"

lemma all_cache_Inr:
  "\<forall>fd \<in> set fds. caches_list m fd \<noteq> None \<Longrightarrow>
     all_cache fds m = Inr (concat (map (\<lambda>fd. ''#'' @ cache_addr m fd) fds))"
  by (induction fds) (auto simp: node_def cache_addr_def)

lemma join_concat: "ts \<noteq> [] \<Longrightarrow> concat (map (\<lambda>t. c # t) ts) = c # join c ts"
  by (induction c ts rule: join.induct) auto

lemma post_all_Inr: "length msg < BUF_SIZE \<Longrightarrow> post_all fds msg = Inr (map (\<lambda>fd. (fd, msg)) fds)"
  by (induction fds) (simp_all add: post_to_def)

lemma scale_out_posts:
  assumes n: "fd_node m = ns @ [fd]" and d: "\<forall>f \<in> set (fd_node m). caches_list m f \<noteq> None"
    and b: "length (join CHR ''#'' (map (cache_addr m) (fd_node m))) < BUF_SIZE" "length (cache_addr m fd) + 2 < BUF_SIZE"
  shows "scale_out m = Inr ((fd, join CHR ''#'' (map (cache_addr m) (fd_node m))) #
      map (\<lambda>f. (f, ''N#'' @ cache_addr m fd)) (fd_node m),
    m\<lparr>cacheAddrHash := addNode (length ns) (cacheAddrHash m)\<rparr>)"
proof -
  let ?m = "m\<lparr>cacheAddrHash := addNode (length ns) (cacheAddrHash m)\<rparr>"
  have same: "cache_addr ?m = cache_addr m" by (simp add: cache_addr_def fun_eq_iff)
  have "all_cache (fd_node m) ?m = Inr (concat (map (\<lambda>t. CHR ''#'' # t) (map (cache_addr m) (fd_node m))))"
    using all_cache_Inr [of "fd_node m" ?m] d same by (simp add: comp_def)
  then have all: "all_cache (fd_node m) ?m = Inr (CHR ''#'' # join CHR ''#'' (map (cache_addr m) (fd_node m)))"
    using n by (subst (asm) join_concat) simp_all
  obtain e where e: "caches_list m fd = Some e" using d n by auto
  have addr: "fd_ip_cache e = cache_addr m fd" using e by (simp add: cache_addr_def)
  have N: "post_all (fd_node m) (''N#'' @ cache_addr m fd) = Inr (map (\<lambda>f. (f, ''N#'' @ cache_addr m fd)) (fd_node m))"
    using b(2) by (intro post_all_Inr) simp
  have i: "length (fd_node m) - 1 = length ns" "vec_at (fd_node m) (length ns) = Inr fd"
    using n by (simp_all add: vec_at_def)
  show ?thesis
    unfolding scale_out_def Let_def i
    using all e N b(1) i addr by (simp add: node_def substr_def post_to_def)
qed

text \<open>What the first heartbeat of a primary leads to\<close>

definition new_primary :: "int \<Rightarrow> string \<Rightarrow> string \<Rightarrow> string \<Rightarrow> fdmap" where
  "new_primary fd ip cp pp = \<lparr>fd_status = CHR ''P'', fd_num = fd, fd_pair = -1, fd_ip_port = ip @ ''#'' @ cp,
     fd_ip_cache = ip @ ''#'' @ pp\<rparr>"

lemma join_alone:
  assumes ok: "master_ok u m" and new: "caches_list m fd = Some (fdmap_new fd)" and r: "rcache m = []"
    and f: "field_ok CHR ''#'' ip" "field_ok CHR ''#'' cp" "field_ok CHR ''#'' pp"
    and m1: "m1 = m\<lparr>caches_list := (caches_list m)(fd \<mapsto> new_primary fd ip cp pp), fd_node := fd_node m @ [fd],
        pcache := fd # pcache m\<rparr>"
    and b: "length (join CHR ''#'' (map (cache_addr m1) (fd_node m1))) < BUF_SIZE"
      "length ip + length pp + 3 < BUF_SIZE"
  shows "\<exists>m'. start_cache fd (''x#'' @ ip @ ''#'' @ cp @ ''#'' @ pp @ ''#P'') now m =
      Inr ((fd, join CHR ''#'' (map (cache_addr m1) (fd_node m1))) #
        map (\<lambda>f. (f, ''N#'' @ ip @ ''#'' @ pp)) (fd_node m1) @ [(fd, ''P#None'')], m') \<and>
    fd_node m' = fd_node m1 \<and> cacheAddrHash m' = addNode (length (fd_node m)) (cacheAddrHash m)"
proof -
  let ?msg = "''x#'' @ ip @ ''#'' @ cp @ ''#'' @ pp @ ''#P''"
  have sp: "master_split ?msg ''#'' = [''x'', ip, cp, pp, ''P'']"
    using split_heartbeat [OF f, of "''P''"] by (simp add: field_ok_def)
  have addr: "cache_addr m1 fd = ip @ ''#'' @ pp" using m1 by (simp add: cache_addr_def new_primary_def)
  have d: "\<forall>f \<in> set (fd_node m1). caches_list m1 f \<noteq> None"
    using ok m1 by (auto simp: master_ok_def tables_ok_def nodes_ok_def)
  have so: "scale_out m1 = Inr ((fd, join CHR ''#'' (map (cache_addr m1) (fd_node m1))) #
      map (\<lambda>f. (f, ''N#'' @ cache_addr m1 fd)) (fd_node m1),
    m1\<lparr>cacheAddrHash := addNode (length (fd_node m)) (cacheAddrHash m1)\<rparr>)"
    using scale_out_posts [of m1 "fd_node m" fd] d b m1 addr by simp
  have entry: "fdmap_new fd\<lparr>fd_ip_port := ip @ CHR ''#'' # cp, fd_ip_cache := ip @ CHR ''#'' # pp,
      fd_status := CHR ''P''\<rparr> = new_primary fd ip cp pp"
    by (simp add: fdmap_new_def new_primary_def)
  have "first_heartbeat fd [''x'', ip, cp, pp, ''P''] m = scale_out m1"
    using new r m1 entry by (simp add: first_heartbeat_def vec_at_def modify_def node_def pair_primary_def)
  moreover have "heartbeat_reply fd (m1\<lparr>cacheAddrHash := h\<rparr>) = Inr (fd, ''P#None'')" for h
    using m1 by (simp add: heartbeat_reply_def node_def new_primary_def post_to_def BUF_SIZE_def)
  ultimately show ?thesis
    using new so addr sp m1
    by (simp add: start_cache_def node_def handleHeartBeatResponse_def vec_at_def Let_def)
qed

text \<open>What the first heartbeat of a replica leads to, when a primary waits, and a later heartbeat\<close>

definition new_replica :: "int \<Rightarrow> int \<Rightarrow> string \<Rightarrow> string \<Rightarrow> string \<Rightarrow> fdmap" where
  "new_replica fd p ip cp pp = \<lparr>fd_status = CHR ''R'', fd_num = fd, fd_pair = p, fd_ip_port = ip @ ''#'' @ cp,
     fd_ip_cache = ip @ ''#'' @ pp\<rparr>"

definition heard :: "string \<Rightarrow> string \<Rightarrow> int \<Rightarrow> Master \<Rightarrow> Master" where
  "heard ip cp now m = m\<lparr>cacheAddrMap := (cacheAddrMap m)(ip @ ''#'' @ cp \<mapsto> now)\<rparr>"

lemma join_paired:
  assumes new: "caches_list m fd = Some (fdmap_new fd)" and top: "pcache m = p # ps" "p \<noteq> fd" "-1 < p"
    and e: "caches_list m p = Some e" "length (fd_ip_cache e) + 2 < BUF_SIZE"
    and f: "field_ok CHR ''#'' ip" "field_ok CHR ''#'' cp" "field_ok CHR ''#'' pp"
  shows "start_cache fd (''x#'' @ ip @ ''#'' @ cp @ ''#'' @ pp @ ''#R'') now m =
    Inr ([(fd, ''R#'' @ fd_ip_cache e)], heard ip cp now (m\<lparr>caches_list := (caches_list m)
      (fd \<mapsto> new_replica fd p ip cp pp, p \<mapsto> e\<lparr>fd_pair := fd\<rparr>), pcache := ps\<rparr>))"
proof -
  have "master_split (''x#'' @ ip @ ''#'' @ cp @ ''#'' @ pp @ ''#R'') ''#'' = [''x'', ip, cp, pp, ''R'']"
    using split_heartbeat [OF f, of "''R''"] by (simp add: field_ok_def)
  then show ?thesis
    using assms by (simp add: start_cache_def first_heartbeat_def vec_at_def modify_def node_def pair_replica_def
      fdmap_new_def new_replica_def heartbeat_reply_def post_to_def handleHeartBeatResponse_def heard_def)
qed

lemma heartbeat_again:
  assumes e: "caches_list m fd = Some e" "fd_ip_port e \<noteq> ''0''" "fd_pair e = q" "-1 < q" "caches_list m q = Some b"
      "length (fd_ip_cache b) + 2 < BUF_SIZE"
    and f: "field_ok CHR ''#'' ip" "field_ok CHR ''#'' cp" "field_ok CHR ''#'' pp" "field_ok CHR ''#'' r"
  shows "start_cache fd (''x#'' @ ip @ ''#'' @ cp @ ''#'' @ pp @ ''#'' @ r) now m =
    Inr ([(fd, [fd_status e] @ ''#'' @ fd_ip_cache b)], heard ip cp now m)"
  using e split_heartbeat [OF f]
  by (simp add: start_cache_def node_def heartbeat_reply_def post_to_def handleHeartBeatResponse_def vec_at_def heard_def)

section \<open>Failures\<close>

lemma replace_first_map:
  "distinct ns \<Longrightarrow> replace_first x y ns = map (\<lambda>z. if z = x then y else z) ns"
  by (induction ns) (auto intro!: map_idI [symmetric])

lemma entries_of: "master_ok u m \<Longrightarrow> entries_ok u (caches_list m)"
  by (simp add: master_ok_def tables_ok_def)

lemma detect_dead:
  assumes "entries_ok u (caches_list m)" "first_dead now order m = Inr (Some fd, m1)"
    and "periodicDetectCache now order m = Inr (ps, m')"
  obtains m2 f where "m1 = m\<lparr>cacheAddrMap := f\<rparr>" "disaster fd m1 = Inr (ps, m2)" "m' = forget fd m2"
proof -
  obtain f where f: "m1 = m\<lparr>cacheAddrMap := f\<rparr>" using first_dead_Inr [OF assms(2)] by blast
  have "0 < fd" using first_dead_node [OF assms(1,2)] by blast
  then obtain m2 where "disaster fd m1 = Inr (ps, m2)" "m' = forget fd m2"
    using assms(2,3) by (auto simp: periodicDetectCache_def andThen_eq_Inr_iff)
  with f that show thesis by blast
qed

lemma unpaired_replica_down:
  assumes "entries_ok u (caches_list m)" "caches_list m fd = Some e" "fd_status e = CHR ''R''" "fd_pair e = -1"
  shows "disaster fd m = Inl Undefined"
proof -
  have "caches_list m (-1) = None" using entries_index [OF assms(1), of "-1"] by (cases "caches_list m (-1)") auto
  with assms show ?thesis by (simp add: disaster_def node_def replica_down_def modify_def)
qed

lemma detect_dead_undefined:
  assumes "first_dead now order m = Inr (Some fd, m1)" "disaster fd m1 = Inl Undefined"
  shows "periodicDetectCache now order m = Inl Undefined"
  using assms by (simp add: periodicDetectCache_def)



lemma fdmap_new_dead:
  assumes "caches_list m fd = Some (fdmap_new fd)" "cacheAddrMap m ''0'' = None" "5 \<le> now" "0 < fd"
  shows "\<exists>m'. periodicDetectCache now [fd] m = Inr ([], m') \<and> caches_list m' fd = None"
  using assms by (simp add: periodicDetectCache_def node_def heartBeatDetect_def Let_def heartBeatInterval_def disaster_def)

lemma message_unknown:
  "caches_list m fd = None \<Longrightarrow> start_cache fd (CHR ''x'' # msg) now m = Inl Undefined"
  by (simp add: start_cache_def node_def)

lemma forgotten:
  assumes "entries_ok u (caches_list m1)" "first_dead now order m1 = Inr (Some fd, m0)"
    "periodicDetectCache now order m1 = Inr (out, m2)"
  shows "heartBeatDetect now' fd m2 = Inl Undefined \<and> shrink_finish fd m2 = Inl Undefined"
proof -
  obtain m3 where "m2 = forget fd m3" using detect_dead [OF assms] by metis
  then show ?thesis by (simp add: heartBeatDetect_def shrink_finish_def node_def)
qed

lemma nth_remove1:
  "distinct ns \<Longrightarrow> k < length ns \<Longrightarrow> j < length ns - 1 \<Longrightarrow>
     remove1 (ns ! k) ns ! j = (if j < k then ns ! j else ns ! (j + 1))"
proof (induction ns arbitrary: k j)
  case (Cons x xs)
  show ?case
  proof (cases k)
    case (Suc k')
    then have "xs ! k' \<noteq> x" using Cons.prems by auto
    then show ?thesis using Suc Cons.IH [of k' "j - 1"] Cons.prems by (cases j) auto
  qed simp
qed simp

lemma index_of_nth:
  "distinct ns \<Longrightarrow> k < length ns \<Longrightarrow> length (takeWhile (\<lambda>x. x \<noteq> ns ! k) ns) = k"
proof (induction ns arbitrary: k)
  case (Cons x xs)
  then show ?case by (cases k) auto
qed simp

text \<open>A second history: a replica joins the primary of the first.\<close>

definition demo_pair :: Master where
  "demo_pair = \<lparr>cacheAddrHash = addNode 0 (cacheAddrHash Master_Start),
     cacheAddrMap = [''a#1'' \<mapsto> 100, ''c#5'' \<mapsto> 200],
     caches_list = [5 \<mapsto> demo_entry\<lparr>fd_pair := 7\<rparr>,
       7 \<mapsto> \<lparr>fd_status = CHR ''R'', fd_num = 7, fd_pair = 5, fd_ip_port = ''c#5'', fd_ip_cache = ''c#6''\<rparr>],
     fd_node = [5], pcache = [], rcache = []\<rparr>"

lemma demo_replica_joins:
  "start_cache 7 ''x#c#5#6#R'' 200 (accept_cache 7 demo_master) = Inr ([(7, ''R#a#2'')], demo_pair)"
proof -
  have "master_split ''x#c#5#6#R'' ''#'' = [''x'', ''c'', ''5'', ''6'', ''R'']"
    using split_heartbeat [of "''c''" "''5''" "''6''" "''R''"] by (simp add: field_ok_def)
  then show ?thesis
    by (simp add: start_cache_def first_heartbeat_def accept_cache_def vec_at_def modify_def node_def
        demo_master_def demo_entry_def fdmap_new_def pair_replica_def heartbeat_reply_def post_to_def BUF_SIZE_def
        handleHeartBeatResponse_def demo_pair_def fun_upd_twist)
qed

lemma demo_pair_reach: "master_reach {5, 7} demo_pair"
  using message [OF connect [OF demo_reach, of 7] demo_replica_joins] by (simp add: insert_commute)

lemma demo_dead:
  "first_dead 200 [7, 5] demo_pair = Inr (Some 5, demo_pair)"
  "first_dead 200 [5] demo_master = Inr (Some 5, demo_master)"
  by (simp_all add: demo_pair_def demo_master_def demo_entry_def node_def heartBeatDetect_def heartBeatInterval_def
      fun_upd_twist fun_upd_idem)

lemma demo_failover:
  "\<exists>m'. periodicDetectCache 200 [7, 5] demo_pair = Inr ([(7, ''C#a:2#c:6'')], m')"
  unfolding periodicDetectCache_def demo_dead(1) by (simp add: disaster_def demo_pair_def demo_entry_def node_def
      promote_replica_def with_colon_def modify_def post_to_def BUF_SIZE_def str_simps)

section \<open>Properties\<close>

text \<open>
  C11. The tables of the coordinator stay consistent over every history of connections, heartbeats,
  passes of the failure detector and scale-ins in which no descriptor is used twice and, while a
  scale-in waits for its server to stop, no primary joins and the detector makes no pass: registered
  servers are live primaries with an address, partners point at each other, the stacks hold no live
  server that has a partner, and the hash ring has one server for each entry of \<open>fd_node\<close>, except while
  a server leaves: then it is the last entry of \<open>fd_node\<close>, and the ring has one server for each of the
  entries before it.
\<close>

theorem master_tables_consistent:
  assumes "master_history u lv m"
  shows "distinct (fd_node m) \<and>
    (\<forall>fd \<in> set (fd_node m). \<exists>e. caches_list m fd = Some e \<and> fd_status e = CHR ''P'' \<and> addr_wf e) \<and>
    (\<forall>fd e. caches_list m fd = Some e \<and> fd_pair e \<noteq> -1 \<longrightarrow>
       (\<exists>p. caches_list m (fd_pair e) = Some p \<and> fd_pair p = fd \<and> opposite (fd_status e) (fd_status p))) \<and>
    (\<forall>q e. q \<in> set (pcache m) \<union> set (rcache m) \<and> caches_list m q = Some e \<longrightarrow> fd_pair e = -1) \<and>
    ring_ok (cacheAddrHash m) \<and>
    (case lv of
       None \<Rightarrow> ch_nodes (cacheAddrHash m) = int (length (fd_node m))
     | Some fd \<Rightarrow> \<exists>ns. fd_node m = ns @ [fd] \<and> ch_nodes (cacheAddrHash m) = int (length ns))"
proof -
  have t: "tables_ok u m" using history_ok [OF assms] by (auto simp: master_ok_def leaving_ok_def split: option.splits)
  have "ring_ok (cacheAddrHash m)" using history_ok [OF assms]
    by (auto simp: master_ok_def leaving_ok_def hash_ok_def split: option.splits)
  moreover have "case lv of None \<Rightarrow> ch_nodes (cacheAddrHash m) = int (length (fd_node m))
     | Some fd \<Rightarrow> \<exists>ns. fd_node m = ns @ [fd] \<and> ch_nodes (cacheAddrHash m) = int (length ns)"
    using history_ok [OF assms]
    by (auto simp: master_ok_def leaving_ok_def hash_ok_def simp del: length_butlast split: option.splits
        intro!: exI [of _ "butlast (fd_node m)"])
  ultimately show ?thesis using t unfolding tables_ok_def table_defs by fastforce
qed

theorem master_tables_consistent_witness:
  "(distinct (fd_node demo_master) \<and> ch_nodes (cacheAddrHash demo_master) = int (length (fd_node demo_master))) \<and>
   (\<exists>ps m. shrink_begin demo_master = Inr (Some 5, ps, m) \<and> fd_node m = [5] \<and> ch_nodes (cacheAddrHash m) = 0)"
proof -
  have b: "shrink_begin demo_master = Inr (Some 5, [(5, ''K#a#2'')],
      demo_master\<lparr>cacheAddrHash := deleteNode 0 (cacheAddrHash demo_master)\<rparr>)"
    by (simp add: shrink_begin_def Let_def vec_at_def node_def demo_master_def demo_entry_def post_to_def BUF_SIZE_def)
  let ?m = "demo_master\<lparr>cacheAddrHash := deleteNode 0 (cacheAddrHash demo_master)\<rparr>"
  have "master_history {5} (Some 5) ?m"
    using shrink [OF demo_reach, of "CHR ''s''" "[]"] b by (simp add: shrinkageCapacity_Inr)
  from master_tables_consistent [OF this] have "ch_nodes (cacheAddrHash ?m) = 0" "fd_node ?m = [5]"
    by (auto simp: demo_master_def)
  with b master_tables_consistent [OF demo_reach] show ?thesis by auto
qed

text \<open>
  Routing: after any such history a key is answered with the client address \<open>ip:port\<close> of
  the live primary the ring names; there is an answer whenever the ring is not empty, and
  asking a coordinator without a server is undefined behaviour.
\<close>

theorem client_routing:
  assumes "master_reach u m"
  shows "(key2Index (cacheAddrHash m) \<noteq> [] \<longrightarrow> (\<exists>i e a b. server_index (cacheAddrHash m) key = Inr i \<and>
      i < length (fd_node m) \<and> caches_list m (fd_node m ! i) = Some e \<and> fd_status e = CHR ''P'' \<and>
      fd_ip_port e = a @ ''#'' @ b \<and> handleClientMessage key m = Inr (a @ '':'' @ b))) \<and>
    (fd_node m = [] \<longrightarrow> handleClientMessage key m = Inl Undefined)"
proof (intro conjI impI)
  have ok: "master_ok u m" using reach_ok [OF assms] .
  {
    assume "key2Index (cacheAddrHash m) \<noteq> []"
    moreover have "smap_ok (key2Index (cacheAddrHash m))" using ok by (simp add: master_ok_def hash_ok_def ring_ok_def)
    ultimately obtain i where "server_index (cacheAddrHash m) key = Inr i" using server_index_total by blast
    with handle_client_Inr [OF ok this] show "\<exists>i e a b. server_index (cacheAddrHash m) key = Inr i \<and>
      i < length (fd_node m) \<and> caches_list m (fd_node m ! i) = Some e \<and> fd_status e = CHR ''P'' \<and>
      fd_ip_port e = a @ ''#'' @ b \<and> handleClientMessage key m = Inr (a @ '':'' @ b)" by metis
  }
  assume "fd_node m = []"
  from server_index_empty [OF ring_empty [OF ok this]]
  show "handleClientMessage key m = Inl Undefined" by (simp add: handleClientMessage_def)
qed

theorem client_routing_witness:
  "handleClientMessage ''k'' demo_master = Inr ''a:1'' \<and> handleClientMessage ''k'' Master_Start = Inl Undefined"
proof -
  obtain i e a b where h: "i < length (fd_node demo_master)" "caches_list demo_master (fd_node demo_master ! i) = Some e"
    "fd_ip_port e = a @ ''#'' @ b" "handleClientMessage ''k'' demo_master = Inr (a @ '':'' @ b)"
    using conjunct1 [OF client_routing [OF demo_reach, of "''k''"]] demo_ring_nonempty by blast
  then have "e = demo_entry" by (simp add: demo_master_def)
  with h(3) have "a @ ''#'' @ b = ''a#1''" by (simp add: demo_entry_def)
  then have "a @ '':'' @ b = ''a:1''" by (auto simp: append_eq_Cons_conv Cons_eq_append_conv)
  with h(4) client_routing [OF master_history.start, of "''k''"] show ?thesis by (simp add: Master_Start_def)
qed

text \<open>
  A primary joins: it is sent the addresses of all primaries, itself included, as one list,
  then every primary, the new one included, is told \<open>N#ip#port\<close>, and without a spare replica
  the reply to its heartbeat is \<open>P#None\<close>; it becomes the last server of the ring.
\<close>

theorem primary_joins:
  assumes "master_reach u m" "caches_list m fd = Some (fdmap_new fd)" "rcache m = []"
    "field_ok CHR ''#'' ip" "field_ok CHR ''#'' cp" "field_ok CHR ''#'' pp"
    "m1 = m\<lparr>caches_list := (caches_list m)(fd \<mapsto> new_primary fd ip cp pp), fd_node := fd_node m @ [fd],
        pcache := fd # pcache m\<rparr>"
    "length (join CHR ''#'' (map (cache_addr m1) (fd_node m1))) < BUF_SIZE" "length ip + length pp + 3 < BUF_SIZE"
  shows "\<exists>m'. start_cache fd (''x#'' @ ip @ ''#'' @ cp @ ''#'' @ pp @ ''#P'') now m =
      Inr ((fd, join CHR ''#'' (map (cache_addr m1) (fd_node m1))) #
        map (\<lambda>f. (f, ''N#'' @ ip @ ''#'' @ pp)) (fd_node m1) @ [(fd, ''P#None'')], m') \<and>
    fd_node m' = fd_node m1 \<and> cacheAddrHash m' = addNode (length (fd_node m)) (cacheAddrHash m)"
  using join_alone [OF reach_ok [OF assms(1)] assms(2-)] .

theorem primary_joins_witness:
  "\<exists>m'. start_cache 6 ''x#b#3#4#P'' 100 (accept_cache 6 demo_master) =
     Inr ([(6, ''a#2#b#4''), (5, ''N#b#4''), (6, ''N#b#4''), (6, ''P#None'')], m') \<and> fd_node m' = [5, 6]"
proof -
  have r: "master_reach (insert 6 {5}) (accept_cache 6 demo_master)"
    using connect [OF demo_reach, of 6] by simp
  show ?thesis
    using primary_joins [OF r _ _ _ _ _ refl, of 6 "''b''" "''3''" "''4''" 100]
    by (simp add: accept_cache_def demo_master_def demo_entry_def field_ok_def cache_addr_def new_primary_def BUF_SIZE_def) blast
qed

text \<open>
  C15. Fail-over keeps the routing: when the detector finds a primary with a replica dead, the
  replica takes its place in \<open>fd_node\<close> and the ring stays as it is, so that every key of the dead
  server goes to the replica and no other key moves.
\<close>

theorem failover_keeps_routing:
  assumes "master_reach u m" "first_dead now order m = Inr (Some fd, m0)" "caches_list m fd = Some e"
    "fd_status e = CHR ''P''" "0 < fd_pair e" "periodicDetectCache now order m = Inr (ps, m')"
  shows "fd_node m' = map (\<lambda>f. if f = fd then fd_pair e else f) (fd_node m) \<and>
    cacheAddrHash m' = cacheAddrHash m \<and> caches_list m' fd = None"
proof -
  have ok: "master_ok u m" using reach_ok [OF assms(1)] .
  obtain m2 f where m2: "m0 = m\<lparr>cacheAddrMap := f\<rparr>" "disaster fd m0 = Inr (ps, m2)" "m' = forget fd m2"
    by (rule detect_dead [OF entries_of [OF ok] assms(2,6)])
  have "promote_replica fd m0 = Inr (ps, m2)" "caches_list m0 fd = Some e" "master_ok u m0"
    using m2 assms(3-5) ok by (simp_all add: disaster_def node_def master_ok_map)
  with promote_replica_ok(2) [of u m0 fd e ps m2] assms(4,5)
  have "fd_node m2 = replace_first fd (fd_pair e) (fd_node m0)" "cacheAddrHash m2 = cacheAddrHash m0" by blast+
  then show ?thesis
    using m2 ok replace_first_map [of "fd_node m"] by (simp add: master_ok_def tables_ok_def nodes_ok_def)
qed

theorem failover_keeps_routing_witness:
  "\<exists>m'. periodicDetectCache 200 [7, 5] demo_pair = Inr ([(7, ''C#a:2#c:6'')], m') \<and> fd_node m' = [7]"
proof -
  obtain m' where m': "periodicDetectCache 200 [7, 5] demo_pair = Inr ([(7, ''C#a:2#c:6'')], m')"
    using demo_failover by blast
  have e: "caches_list demo_pair 5 = Some (demo_entry\<lparr>fd_pair := 7\<rparr>)" by (simp add: demo_pair_def)
  from failover_keeps_routing [OF demo_pair_reach demo_dead(1) e _ _ m']
  have "fd_node m' = [7]" by (simp add: demo_entry_def demo_pair_def)
  with m' show ?thesis by blast
qed

text \<open>
  C36. Losing a primary without replica re-routes more than its own keys: the ring drops the
  points of its last server while \<open>fd_node\<close> closes the gap at the dead one, so that every key of
  a later server (the last excepted) moves to the server after it, although its own is alive.
\<close>

theorem primary_loss_shifts_servers:
  assumes "ring_exact (cacheAddrHash m)" "ch_nodes (cacheAddrHash m) = int (length (fd_node m))"
    "distinct (fd_node m)" "k < length (fd_node m)" "remove_primary (fd_node m ! k) m = Inr (ps, m')"
    "server_index (cacheAddrHash m) key = Inr j" "j \<noteq> length (fd_node m) - 1"
  shows "server_index (cacheAddrHash m') key = Inr j \<and>
    fd_node m' ! j = (if j < k then fd_node m ! j else fd_node m ! (j + 1))"
proof -
  let ?fd = "fd_node m ! k"
  have m': "m' = m\<lparr>fd_node := remove1 ?fd (fd_node m), cacheAddrHash := deleteNode k (cacheAddrHash m)\<rparr>"
    using remove_primary_Inr [OF assms(5)] assms(3,4) index_of_nth [OF assms(3,4)] by simp
  have "int j < int (length (fd_node m))"
    using server_index_bound [OF _ assms(6)] assms(1,2) by (simp add: ring_exact_def)
  with assms(7) have j: "j < length (fd_node m) - 1" by simp
  have "int j \<noteq> ch_nodes (cacheAddrHash m) - 1" using j assms(2) by linarith
  with deleteNode_disruption [OF assms(1,6)] nth_remove1 [OF assms(3,4) j] m' show ?thesis by simp
qed

theorem primary_loss_shifts_servers_witness:
  "\<exists>ps m'. remove_primary 5 \<lparr>cacheAddrHash = ring_run [Add_server, Add_server, Add_server] (empty_ring 2),
       cacheAddrMap = Map.empty, caches_list = [5 \<mapsto> demo_entry], fd_node = [5, 6, 7], pcache = [], rcache = []\<rparr> =
     Inr (ps, m') \<and> server_index (cacheAddrHash m') ''b'' = Inr 1 \<and> fd_node m' ! 1 = 7"
proof -
  let ?ring = "ring_run [Add_server, Add_server, Add_server] (empty_ring 2)"
  let ?m = "\<lparr>cacheAddrHash = ?ring, cacheAddrMap = Map.empty, caches_list = [5 \<mapsto> demo_entry], fd_node = [5, 6, 7],
    pcache = [], rcache = []\<rparr>"
  have "ring_exact ?ring" by (rule demo_exact)
  moreover have "server_index ?ring ''b'' = Inr 1" "ch_nodes ?ring = 3" by (simp_all add: demo_ring)
  moreover obtain ps m' where r: "remove_primary 5 ?m = Inr (ps, m')"
    by (simp add: remove_primary_def node_def post_to_def BUF_SIZE_def demo_entry_def)
  ultimately show ?thesis using primary_loss_shifts_servers [of ?m 0 ps m' "''b''" 1] r by auto
qed

text \<open>
  A replica that was never given a primary takes the coordinator down with it: when the
  detector finds it dead, the partner with number -1 is dereferenced.
\<close>

theorem unpaired_replica_loss_undefined:
  assumes "master_reach u m" "first_dead now order m = Inr (Some fd, m0)" "caches_list m fd = Some e"
    "fd_status e = CHR ''R''" "fd_pair e = -1"
  shows "periodicDetectCache now order m = Inl Undefined"
proof -
  have "entries_ok u (caches_list m)" using reach_ok [OF assms(1)] by (simp add: master_ok_def tables_ok_def)
  moreover obtain f where "m0 = m\<lparr>cacheAddrMap := f\<rparr>" using first_dead_Inr [OF assms(2)] by blast
  ultimately have "disaster fd m0 = Inl Undefined" using assms(3-5) by (intro unpaired_replica_down) auto
  with assms(2) show ?thesis by (rule detect_dead_undefined)
qed

theorem unpaired_replica_loss_undefined_witness:
  "\<exists>m ps. start_cache 5 ''x#a#1#2#R'' 100 (accept_cache 5 Master_Start) = Inr (ps, m) \<and>
     periodicDetectCache 200 [5] m = Inl Undefined"
proof -
  have sp: "master_split ''x#a#1#2#R'' ''#'' = [''x'', ''a'', ''1'', ''2'', ''R'']"
    using split_heartbeat [of "''a''" "''1''" "''2''" "''R''"] by (simp add: field_ok_def)
  let ?e = "\<lparr>fd_status = CHR ''R'', fd_num = 5, fd_pair = -1, fd_ip_port = ''a#1'', fd_ip_cache = ''a#2''\<rparr>"
  let ?m = "Master_Start\<lparr>cacheAddrMap := [''a#1'' \<mapsto> 100], caches_list := [5 \<mapsto> ?e], rcache := [5]\<rparr>"
  have j: "start_cache 5 ''x#a#1#2#R'' 100 (accept_cache 5 Master_Start) = Inr ([(5, ''R#None'')], ?m)"
    by (simp add: start_cache_def sp first_heartbeat_def accept_cache_def vec_at_def modify_def node_def Master_Start_def
        fdmap_new_def pair_replica_def heartbeat_reply_def post_to_def BUF_SIZE_def handleHeartBeatResponse_def)
  have r: "master_reach {5} ?m" using message [OF connect [OF start, of 5] j] by simp
  have d: "first_dead 200 [5] ?m = Inr (Some 5, ?m)"
    by (simp add: node_def heartBeatDetect_def heartBeatInterval_def Master_Start_def)
  show ?thesis using unpaired_replica_loss_undefined [OF r d, of ?e] j by simp
qed



text \<open>
  C39. The detector races with the other threads: a server that it visits before its first
  heartbeat is forgotten, and the heartbeat is then undefined behaviour; so is the wait and the
  removal of a server that is being scaled in when the detector sees it expire first.
\<close>

theorem detector_races:
  assumes "master_reach u m"
  shows "(caches_list m fd = Some (fdmap_new fd) \<and> cacheAddrMap m ''0'' = None \<and> 5 \<le> now \<longrightarrow>
      (\<exists>m'. periodicDetectCache now [fd] m = Inr ([], m') \<and> start_cache fd (CHR ''x'' # msg) now' m' = Inl Undefined)) \<and>
    (shrink_begin m = Inr (Some fd, ps, m1) \<and> first_dead now order m1 = Inr (Some fd, m0) \<and>
       periodicDetectCache now order m1 = Inr (out, m2) \<longrightarrow>
     heartBeatDetect now' fd m2 = Inl Undefined \<and> shrink_finish fd m2 = Inl Undefined)"
proof (intro conjI impI; elim conjE)
  have ok: "master_ok u m" using reach_ok [OF assms] .
  {
    assume a: "caches_list m fd = Some (fdmap_new fd)" "cacheAddrMap m ''0'' = None" "5 \<le> now"
    moreover have "0 < fd" using ok a(1) by (auto simp: master_ok_def tables_ok_def entries_ok_def)
    ultimately show "\<exists>m'. periodicDetectCache now [fd] m = Inr ([], m') \<and>
        start_cache fd (CHR ''x'' # msg) now' m' = Inl Undefined"
      using fdmap_new_dead message_unknown by blast
  }
  assume b: "shrink_begin m = Inr (Some fd, ps, m1)" and d: "first_dead now order m1 = Inr (Some fd, m0)"
    and p: "periodicDetectCache now order m1 = Inr (out, m2)"
  show "heartBeatDetect now' fd m2 = Inl Undefined" "shrink_finish fd m2 = Inl Undefined"
  proof -
    have "entries_ok u (caches_list m1)" using shrink_begin_Inr(3) [OF b] entries_of [OF ok] by simp
    from forgotten [OF this d p]
    show "heartBeatDetect now' fd m2 = Inl Undefined" "shrink_finish fd m2 = Inl Undefined" by blast+
  qed
qed

theorem detector_races_witness:
  "\<exists>m'. periodicDetectCache 100 [5] (accept_cache 5 Master_Start) = Inr ([], m') \<and>
     start_cache 5 ''x#a#1#2#P'' 101 m' = Inl Undefined"
proof -
  have "master_reach (insert 5 {}) (accept_cache 5 Master_Start)" by (rule connect [OF start]) simp_all
  from detector_races [OF this, of 5 100 "''#a#1#2#P''" 101] show ?thesis
    by (simp add: accept_cache_def Master_Start_def)
qed

end
