(* ===== verification/Cluster.thy ===== *)
theory Cluster
  imports Cache_Properties Master_Properties
begin

text \<open>
  The coordinator and the cache servers together: every server is a process with a first-in
  first-out channel to and from the coordinator, the steps interleave freely, and messages
  arrive late.  The servers are primaries.  What a server knows of the others (\<open>cache_list\<close>) is
  abstracted to a \<open>view\<close>, what is on its way to it to a list of \<open>notice\<close>s; the lemmas show that the
  text of each notice has its effect on the view.
\<close>

section \<open>Joining, from both ends\<close>

text \<open>An address \<open>ip#port\<close> as a pair\<close>

definition addr_pair :: "string \<Rightarrow> string \<times> string" where
  "addr_pair s = (takeWhile (\<lambda>x. x \<noteq> CHR ''#'') s, drop (Suc (length (takeWhile (\<lambda>x. x \<noteq> CHR ''#'') s))) s)"

lemma addr_pair_join: "CHR ''#'' \<notin> set a \<Longrightarrow> addr_pair (a @ CHR ''#'' # p) = (a, p)"
  by (simp add: addr_pair_def str_simps)

lemma addr_fields_join: "as \<noteq> [] \<Longrightarrow> addr_fields as = join CHR ''#'' (map (\<lambda>(a, p). a @ ''#'' @ p) as)"
proof (induction as)
  case (Cons e as)
  then show ?case by (cases e; cases as) (auto simp: addr_fields_def split: prod.splits)
qed simp

lemma primary_addr:
  assumes "master_ok u m" "f \<in> set (fd_node m)"
  obtains a p where "cache_addr m f = a @ ''#'' @ p" "CHR ''#'' \<notin> set a" "CHR ''#'' \<notin> set p"
  using assms by (fastforce simp: master_ok_def tables_ok_def nodes_ok_def addr_wf_def cache_addr_def field_ok_def)

lemma heartbeat_list_step:
  assumes "\<not> initial_flag c" "\<forall>(a, p) \<in> set as. CHR ''#'' \<notin> set a \<and> CHR ''#'' \<notin> set p" "as \<noteq> []"
  shows "Heartbeat (Received (addr_fields as)) later c =
    Inr (heart_message c, c\<lparr>cache_list := cache_list c @ as, is_initialed := 1, initial_flag := True\<rparr>)"
  using assms by (simp add: Heartbeat_def initial_list heart_message_def)

lemma heartbeat_command_step:
  assumes "initial_flag c" "status c \<noteq> ''K''" "command_ok p c"
  shows "\<exists>h. Heartbeat (Received (command_text p)) later c = Inr (h, command_effect p c)"
proof -
  have "initial_flag (command_effect p c)" using assms(1) by (cases p) simp_all
  with assms show ?thesis using ReadFromMaster_command [OF assms(2,3)] by (simp add: Heartbeat_def)
qed

text \<open>The heartbeats that receive a sequence of messages, one each\<close>

fun receive_messages :: "string list \<Rightarrow> Cache \<Rightarrow> Cache result" where
  "receive_messages [] c = Inr c"
| "receive_messages (msg # msgs) c =
     andThen (Heartbeat (Received msg) [] c) (\<lambda>(_, c'). receive_messages msgs c')"

lemma join_messages_received:
  assumes as: "\<forall>(a, p) \<in> set as. CHR ''#'' \<notin> set a \<and> CHR ''#'' \<notin> set p" "as \<noteq> []" and ip: "CHR ''#'' \<notin> set ip"
  shows "\<exists>c'. receive_messages [join CHR ''#'' (map (\<lambda>(a, p). a @ ''#'' @ p) as), ''N#'' @ ip @ ''#'' @ pp, ''P#None'']
      (Cache_new n ''P'' ip cp pp) = Inr c' \<and>
    cache_list c' = as \<and> status c' = ''P'' \<and> pr_status c' = ''P'' \<and> target_port c' = ''None''"
proof -
  let ?c = "Cache_new n ''P'' ip cp pp"
  let ?c1 = "?c\<lparr>cache_list := as, is_initialed := 1, initial_flag := True\<rparr>"
  have "Heartbeat (Received (addr_fields as)) [] ?c = Inr (heart_message ?c, ?c1)"
    using heartbeat_list_step [of ?c as "[]"] as by (simp add: Cache_new_def)
  then have 1: "Heartbeat (Received (join CHR ''#'' (map (\<lambda>(a, p). a @ ''#'' @ p) as))) [] ?c = Inr (heart_message ?c, ?c1)"
    by (simp only: addr_fields_join [OF as(2)])
  let ?c2 = "command_effect (New_cache ip pp) ?c1"
  obtain h where 2: "Heartbeat (Received (''N#'' @ ip @ ''#'' @ pp)) [] ?c1 = Inr (h, ?c2)"
    using heartbeat_command_step [of ?c1 "New_cache ip pp" "[]"] ip by (auto simp: Cache_new_def)
  let ?c3 = "command_effect (As_primary None) ?c2"
  have "initial_flag ?c2" "status ?c2 \<noteq> ''K''" by (simp_all add: Cache_new_def)
  then obtain h' where 3: "Heartbeat (Received ''P#None'') [] ?c2 = Inr (h', ?c3)"
    using heartbeat_command_step [of ?c2 "As_primary None" "[]"] by auto
  have "receive_messages [join CHR ''#'' (map (\<lambda>(a, p). a @ ''#'' @ p) as), ''N#'' @ ip @ ''#'' @ pp, ''P#None''] ?c = Inr ?c3"
    by (simp only: receive_messages.simps 1 2 3 andThen_Inr prod.case)
  moreover have "cache_list ?c3 = as" by (simp add: self_addr_def Cache_new_def)
  ultimately show ?thesis by simp
qed

section \<open>The hand-over and the routing agree\<close>

lemma rings_agree:
  assumes "ring_exact (cacheAddrHash m)" "ring_exact (local_ring c)" "hash_ok m" "length (cache_list c) = length (fd_node m)"
  shows "server_index (local_ring c) key = server_index (cacheAddrHash m) key"
proof -
  have "ch_v_nodes (local_ring c) = 100" by (simp add: local_ring_def initialize_def)
  then have "key2Index (local_ring c) = key2Index (cacheAddrHash m)"
    using assms local_ring_ok(2) [of c] by (intro ring_exact_unique) (simp_all add: hash_ok_def)
  then show ?thesis by (simp add: server_index_def GetServer_def)
qed

lemma ring_exact_single: "ring_exact (addNode 0 (empty_ring v))"
  unfolding ring_exact_def
proof (intro conjI allI impI)
  have e: "ring_ok (empty_ring v)" "ch_nodes (empty_ring v) = 0" "key2Index (empty_ring v) = []" "ch_v_nodes (empty_ring v) = v"
    using ring_ok_empty by (simp_all add: empty_ring_def initialize_def)
  show "ring_ok (addNode 0 (empty_ring v))" using e by (intro ring_ok_addNode) simp_all
  fix i j :: int
  assume "0 \<le> i \<and> i < ch_nodes (addNode 0 (empty_ring v)) \<and> 0 \<le> j \<and> j < ch_v_nodes (addNode 0 (empty_ring v))"
  with e have "i = 0" "0 \<le> j" "j < v" by simp_all
  with e show "map_of (key2Index (addNode 0 (empty_ring v))) (shard_key i j) = Some (nat i)"
    using map_of_insert_shard [of "[]" v 0] by (auto simp: smap_ok_def)
qed

lemma peer_named:
  assumes "hash_ok m" "ring_exact (cacheAddrHash m)" "ring_exact (local_ring c)"
    "map (\<lambda>(a, p). a @ ''#'' @ p) (cache_list c) = map (cache_addr m) (fd_node m)"
    "server_index (cacheAddrHash m) key = Inr i"
  shows "i < length (fd_node m)" "fst (peer_of c key) @ ''#'' @ snd (peer_of c key) = cache_addr m (fd_node m ! i)"
proof -
  have len: "length (cache_list c) = length (fd_node m)" using arg_cong [OF assms(4), of length] by simp
  show i: "i < length (fd_node m)"
    using server_index_bound [OF _ assms(5)] assms(1) by (simp add: hash_ok_def)
  have "server_index (local_ring c) key = Inr i" using rings_agree [OF assms(2,3,1) len] assms(5) by simp
  then have "peer_of c key = cache_list c ! i" by (simp add: peer_of_def)
  moreover have "map (\<lambda>(a, p). a @ ''#'' @ p) (cache_list c) ! i = cache_addr m (fd_node m ! i)"
    using assms(4) i by simp
  ultimately show "fst (peer_of c key) @ ''#'' @ snd (peer_of c key) = cache_addr m (fd_node m ! i)"
    using i len by (auto simp: case_prod_beta)
qed
section \<open>Views and notices\<close>

text \<open>
  What a server knows: nothing before the list of servers has arrived, the list, and the list it
  leaves with.
\<close>

datatype view = Waiting | Member "(string \<times> string) list" | Leaving "(string \<times> string) list"

definition view_of :: "Cache \<Rightarrow> view" where
  "view_of c =
     (if \<not> initial_flag c then Waiting else if status c = ''K'' then Leaving (cache_list c) else Member (cache_list c))"

datatype notice = Address_list "(string \<times> string) list" | Notice command

fun notice_text :: "notice \<Rightarrow> string" where
  "notice_text (Address_list as) = addr_fields as"
| "notice_text (Notice p) = command_text p"

text \<open>
  The notices of a cluster of primaries: a list of at least one server, a change of it, or the role;
  every address is a pair of fields that are not empty and hold no separator.
\<close>

definition addr_ok :: "string \<times> string \<Rightarrow> bool" where
  "addr_ok a \<longleftrightarrow> field_ok CHR ''#'' (fst a) \<and> field_ok CHR ''#'' (snd a)"

fun notice_ok :: "notice \<Rightarrow> bool" where
  "notice_ok (Address_list as) \<longleftrightarrow> as \<noteq> [] \<and> (\<forall>a \<in> set as. addr_ok a)"
| "notice_ok (Notice (New_cache ip port)) \<longleftrightarrow> addr_ok (ip, port)"
| "notice_ok (Notice (Kill_cache ip port)) \<longleftrightarrow> addr_ok (ip, port)"
| "notice_ok (Notice (Dead_cache ip port)) \<longleftrightarrow> addr_ok (ip, port)"
| "notice_ok (Notice (As_primary t)) \<longleftrightarrow> t = None"
| "notice_ok (Notice (As_replica t)) \<longleftrightarrow> False"

text \<open>The effect of a notice on a view; \<open>None\<close>: the server could not handle it.\<close>

fun notice_step :: "string \<times> string \<Rightarrow> notice \<Rightarrow> view \<Rightarrow> view option" where
  "notice_step self (Address_list as) Waiting =
     (if as \<noteq> [] \<and> (\<forall>(a, p) \<in> set as. CHR ''#'' \<notin> set a \<and> CHR ''#'' \<notin> set p) then Some (Member as) else None)"
| "notice_step self (Notice (New_cache ip port)) (Member l) =
     (if CHR ''#'' \<in> set ip then None else Some (Member (if (ip, port) = self then l else l @ [(ip, port)])))"
| "notice_step self (Notice (Kill_cache ip port)) (Member l) =
     (if CHR ''#'' \<in> set ip \<or> (ip, port) \<notin> set l then None
      else Some (if (ip, port) = self then Leaving (remove1 (ip, port) l) else Member (remove1 (ip, port) l)))"
| "notice_step self (Notice (Dead_cache ip port)) (Member l) =
     (if CHR ''#'' \<in> set ip \<or> (ip, port) \<notin> set l then None else Some (Member (remove1 (ip, port) l)))"
| "notice_step self (Notice (As_primary None)) (Member l) = Some (Member l)"
| "notice_step self (Notice (As_primary None)) (Leaving l) = Some (Leaving l)"
| "notice_step self _ _ = None"

fun notices_run :: "string \<times> string \<Rightarrow> notice list \<Rightarrow> view \<Rightarrow> view option" where
  "notices_run self [] v = Some v"
| "notices_run self (n # ns) v = Option.bind (notice_step self n v) (notices_run self ns)"

lemma notices_run_append:
  "notices_run self (ns @ ns') v = Option.bind (notices_run self ns v) (notices_run self ns')"
  by (induction ns arbitrary: v) (auto split: bind_splits)

text \<open>A server that waits has an empty list and has not been told to leave.\<close>

definition server_wf :: "Cache \<Rightarrow> bool" where
  "server_wf c \<longleftrightarrow> (\<not> initial_flag c \<longrightarrow> cache_list c = [] \<and> status c \<noteq> ''K'')"

lemma leaving_ignores:
  assumes "initial_flag c" "status c = ''K''" "2 \<le> length m"
  shows "Heartbeat (Received m) [] c = Inr (heart_message c, c)"
proof -
  obtain n where "master_spear m = Inr n" using master_spear_ok [OF assms(3)] by blast
  then have "ReadFromMaster m c = Inr c" using assms(2,3) by (simp add: ReadFromMaster_def substr_def)
  then show ?thesis using assms(1) by (simp add: Heartbeat_def)
qed

lemma Heartbeat_sends: "Heartbeat r later c = Inr (h, c') \<Longrightarrow> h = heart_message c"
  by (auto simp: Heartbeat_def andThen_eq_Inr_iff)

lemma member_notice:
  assumes "view_of c = Member l" "notice_step (self_addr c) n (Member l) = Some v"
  shows "\<exists>p. n = Notice p \<and> command_ok p c \<and> view_of (command_effect p c) = v \<and> server_wf (command_effect p c)"
proof -
  have c: "initial_flag c" "status c \<noteq> ''K''" "cache_list c = l" using assms(1) by (auto simp: view_of_def split: if_splits)
  obtain p where n: "n = Notice p" using assms(2) by (cases n) auto
  show ?thesis
  proof (cases p)
    case (As_primary t)
    with assms(2) n c show ?thesis by (cases t) (auto simp: view_of_def server_wf_def)
  next
    case (As_replica t)
    with assms(2) n show ?thesis by simp
  qed (use assms(2) n c in \<open>auto simp: view_of_def server_wf_def split: if_splits\<close>)
qed

text \<open>The abstraction: a notice that has an effect on the view is handled, and has that effect.\<close>

lemma notice_refines:
  assumes wf: "server_wf c" and step: "notice_step (self_addr c) n (view_of c) = Some v"
  shows "\<exists>c'. Heartbeat (Received (notice_text n)) [] c = Inr (heart_message c, c') \<and> view_of c' = v \<and> server_wf c'"
proof (cases "view_of c")
  case Waiting
  then have c: "\<not> initial_flag c" "cache_list c = []" "status c \<noteq> ''K''"
    using wf by (auto simp: view_of_def server_wf_def split: if_splits)
  obtain as where n: "n = Address_list as" "v = Member as" "as \<noteq> []" "\<forall>(a, p) \<in> set as. CHR ''#'' \<notin> set a \<and> CHR ''#'' \<notin> set p"
    using step Waiting by (cases n) (auto split: if_splits)
  show ?thesis using heartbeat_list_step [OF c(1) n(4,3), of "[]"] n(1,2) c by (simp add: view_of_def server_wf_def)
next
  case (Member l)
  obtain p where p: "n = Notice p" "command_ok p c" "view_of (command_effect p c) = v" "server_wf (command_effect p c)"
    using member_notice [OF Member] step Member by auto
  have "initial_flag c" "status c \<noteq> ''K''" using Member by (auto simp: view_of_def split: if_splits)
  then obtain h where h: "Heartbeat (Received (command_text p)) [] c = Inr (h, command_effect p c)"
    using heartbeat_command_step [of c p "[]"] p(2) by blast
  from h Heartbeat_sends [OF h] p show ?thesis by simp
next
  case (Leaving l)
  then have c: "initial_flag c" "status c = ''K''" by (auto simp: view_of_def split: if_splits)
  have "n = Notice (As_primary None)" "v = Leaving l"
    using step Leaving by (cases "(self_addr c, n, view_of c)" rule: notice_step.cases; simp)+
  then show ?thesis using leaving_ignores [OF c, of "''P#None''"] wf Leaving by simp
qed

lemma notices_received:
  assumes "server_wf c" "notices_run (self_addr c) ns (view_of c) = Some v"
  shows "\<exists>c'. receive_messages (map notice_text ns) c = Inr c' \<and> view_of c' = v \<and> keeps c c'"
  using assms
proof (induction ns arbitrary: c)
  case (Cons n ns)
  then obtain v1 where v1: "notice_step (self_addr c) n (view_of c) = Some v1" "notices_run (self_addr c) ns v1 = Some v"
    by (auto split: bind_splits)
  obtain c1 where c1: "Heartbeat (Received (notice_text n)) [] c = Inr (heart_message c, c1)" "view_of c1 = v1" "server_wf c1"
    using notice_refines [OF Cons.prems(1) v1(1)] by blast
  have k: "keeps c c1" using keeps_Heartbeat [OF c1(1)] .
  then have "self_addr c1 = self_addr c" by (simp add: keeps_def self_addr_def)
  with Cons.IH [OF c1(3)] v1(2) c1(2) obtain c' where "receive_messages (map notice_text ns) c1 = Inr c'" "view_of c' = v" "keeps c1 c'"
    by auto
  with c1(1) k keeps_trans show ?case by auto
qed simp

section \<open>The cluster\<close>

text \<open>
  Behind each descriptor of the coordinator is a server and the messages on their way; \<open>leaving\<close> is
  the server that is being scaled in, the local variable of that thread.
\<close>

record Link =
  server :: Cache
  to_server :: "string list"
  to_master :: "string list"

record Cluster =
  coord :: Master
  links :: "int \<rightharpoonup> Link"
  leaving :: "int option"

definition deliver :: "post list \<Rightarrow> (int \<rightharpoonup> Link) \<Rightarrow> (int \<rightharpoonup> Link)" where
  "deliver ps ls = (\<lambda>fd. map_option
     (\<lambda>l. l\<lparr>to_server := to_server l @ map snd (filter (\<lambda>p. fst p = fd) ps)\<rparr>) (ls fd))"

text \<open>The servers to which keys are routed: all of \<open>fd_node\<close>, less the last while it leaves\<close>

definition members :: "Cluster \<Rightarrow> int list" where
  "members s = (if leaving s = None then fd_node (coord s) else butlast (fd_node (coord s)))"

definition server_at :: "(int \<rightharpoonup> Link) \<Rightarrow> int \<Rightarrow> Cache" where
  "server_at ls fd = server (the (ls fd))"

definition member_addrs :: "Cluster \<Rightarrow> (string \<times> string) list" where
  "member_addrs s = map (\<lambda>fd. self_addr (server_at (links s) fd)) (members s)"

text \<open>
  A server connects under an address no other process uses; it sends a heartbeat and receives
  one message or none; its other threads run; the coordinator handles a message, looks for a dead
  server, or scales in.  While a server is leaving no other joins and the detector does not run
  (theorem \<open>detector_races\<close> shows what happens otherwise).  A process that the coordinator has
  forgotten may go.
\<close>

inductive cluster_reach :: "int set \<Rightarrow> Cluster \<Rightarrow> bool" where
  boot: "cluster_reach {} \<lparr>coord = Master_Start, links = Map.empty, leaving = None\<rparr>"
| connects: "cluster_reach u s \<Longrightarrow> fd \<notin> u \<Longrightarrow> 0 < fd \<Longrightarrow>
    field_ok CHR ''#'' ip \<Longrightarrow> field_ok CHR ''#'' cp \<Longrightarrow> field_ok CHR ''#'' pp \<Longrightarrow>
    (\<forall>l \<in> ran (links s). self_addr (server l) \<noteq> (ip, pp)) \<Longrightarrow>
    cluster_reach (insert fd u) (s\<lparr>coord := accept_cache fd (coord s),
      links := (links s)(fd \<mapsto> \<lparr>server = Cache_new 10 ''P'' ip cp pp, to_server = [], to_master = []\<rparr>)\<rparr>)"
| beats: "cluster_reach u s \<Longrightarrow> links s fd = Some l \<Longrightarrow>
    r = Would_block \<and> rest = to_server l \<or> (\<exists>m. r = Received m \<and> to_server l = m # rest) \<Longrightarrow>
    Heartbeat r [] (server l) = Inr (h, c') \<Longrightarrow>
    cluster_reach u (s\<lparr>links := (links s)(fd \<mapsto> \<lparr>server = c', to_server = rest, to_master = to_master l @ [h]\<rparr>)\<rparr>)"
| works: "cluster_reach u s \<Longrightarrow> links s fd = Some l \<Longrightarrow>
    Client_chat r (server l) = Inr (reply, c') \<or> cache_pass net order received (server l) = Inr (out, c') \<Longrightarrow>
    cluster_reach u (s\<lparr>links := (links s)(fd \<mapsto> l\<lparr>server := c'\<rparr>)\<rparr>)"
| hears: "cluster_reach u s \<Longrightarrow> links s fd = Some l \<Longrightarrow> to_master l = h # hs \<Longrightarrow>
    leaving s = None \<or> caches_list (coord s) fd \<noteq> Some (fdmap_new fd) \<Longrightarrow>
    start_cache fd h now (coord s) = Inr (ps, m') \<Longrightarrow>
    cluster_reach u (s\<lparr>coord := m', links := deliver ps ((links s)(fd \<mapsto> l\<lparr>to_master := hs\<rparr>))\<rparr>)"
| detects: "cluster_reach u s \<Longrightarrow> leaving s = None \<Longrightarrow> periodicDetectCache now order (coord s) = Inr (ps, m') \<Longrightarrow>
    cluster_reach u (s\<lparr>coord := m', links := deliver ps (links s)\<rparr>)"
| shrinks: "cluster_reach u s \<Longrightarrow> leaving s = None \<Longrightarrow>
    shrinkageCapacity x order (coord s) = Inr (ls, Some fd, ps, m') \<Longrightarrow>
    cluster_reach u (s\<lparr>coord := m', links := deliver ps (links s), leaving := Some fd\<rparr>)"
| leaves: "cluster_reach u s \<Longrightarrow> leaving s = Some fd \<Longrightarrow> heartBeatDetect now fd (coord s) = Inr (False, m1) \<Longrightarrow>
    shrink_finish fd m1 = Inr m' \<Longrightarrow> cluster_reach u (s\<lparr>coord := m', leaving := None\<rparr>)"
| goes: "cluster_reach u s \<Longrightarrow> caches_list (coord s) fd = None \<Longrightarrow> cluster_reach u (s\<lparr>links := (links s)(fd := None)\<rparr>)"

section \<open>The invariant\<close>

definition entry_of :: "int \<Rightarrow> Cache \<Rightarrow> fdmap" where
  "entry_of fd c = new_primary fd (local_cache_IP c) (port_for_client c) (port_for_cache c)"

definition link_wf :: "Link \<Rightarrow> bool" where
  "link_wf l \<longleftrightarrow> server_wf (server l) \<and> pr_status (server l) = ''P'' \<and>
     field_ok CHR ''#'' (local_cache_IP (server l)) \<and> field_ok CHR ''#'' (port_for_client (server l)) \<and>
     field_ok CHR ''#'' (port_for_cache (server l)) \<and> set (to_master l) \<subseteq> {heart_message (server l)}"

text \<open>The messages on their way are notices, and they turn the view of the server into \<open>v\<close>.\<close>

definition delivers :: "Link \<Rightarrow> view \<Rightarrow> bool" where
  "delivers l v \<longleftrightarrow> (\<exists>ns. to_server l = map notice_text ns \<and> (\<forall>n \<in> set ns. notice_ok n) \<and>
     notices_run (self_addr (server l)) ns (view_of (server l)) = Some v)"

definition coord_ok :: "int set \<Rightarrow> Cluster \<Rightarrow> bool" where
  "coord_ok u s \<longleftrightarrow> tables_ok u (coord s) \<and> finite u \<and> rcache (coord s) = [] \<and>
     ring_ok (cacheAddrHash (coord s)) \<and> ch_v_nodes (cacheAddrHash (coord s)) = 100 \<and>
     ch_nodes (cacheAddrHash (coord s)) = int (length (members s)) \<and>
     (shards_apart (int (card u)) 100 \<longrightarrow> ring_exact (cacheAddrHash (coord s))) \<and>
     (\<forall>fd. leaving s = Some fd \<longrightarrow> fd_node (coord s) \<noteq> [] \<and> fd = last (fd_node (coord s)))"

text \<open>An entry is fresh, or it holds the addresses of its server, which is in \<open>fd_node\<close>.\<close>

definition entries_agree :: "Master \<Rightarrow> (int \<rightharpoonup> Link) \<Rightarrow> bool" where
  "entries_agree m ls \<longleftrightarrow> (\<forall>fd e. caches_list m fd = Some e \<longrightarrow> (\<exists>l. ls fd = Some l \<and>
     (e = fdmap_new fd \<or> e = entry_of fd (server l) \<and> fd \<in> set (fd_node m))))"

definition links_wf :: "int set \<Rightarrow> (int \<rightharpoonup> Link) \<Rightarrow> bool" where
  "links_wf u ls \<longleftrightarrow> (\<forall>fd l. ls fd = Some l \<longrightarrow> fd \<in> u \<and> link_wf l) \<and>
     (\<forall>fd l fd' l'. ls fd = Some l \<and> ls fd' = Some l' \<and> self_addr (server l) = self_addr (server l') \<longrightarrow> fd = fd')"

definition view_ok :: "Cluster \<Rightarrow> int \<Rightarrow> Link \<Rightarrow> bool" where
  "view_ok s fd l \<longleftrightarrow> (fd \<in> set (members s) \<longrightarrow> delivers l (Member (member_addrs s))) \<and>
     (leaving s = Some fd \<longrightarrow> delivers l (Leaving (member_addrs s))) \<and>
     (caches_list (coord s) fd = Some (fdmap_new fd) \<longrightarrow> to_server l = [] \<and> view_of (server l) = Waiting)"

definition cluster_ok :: "int set \<Rightarrow> Cluster \<Rightarrow> bool" where
  "cluster_ok u s \<longleftrightarrow> coord_ok u s \<and> entries_agree (coord s) (links s) \<and> links_wf u (links s) \<and>
     (\<forall>fd l. links s fd = Some l \<longrightarrow> view_ok s fd l)"

section \<open>The threads of one server\<close>

definition same_view :: "Cache \<Rightarrow> Cache \<Rightarrow> bool" where
  "same_view c c' \<longleftrightarrow> cache_list c' = cache_list c \<and> initial_flag c' = initial_flag c \<and> status c' = status c"

lemma same_viewD: "same_view c c' \<Longrightarrow> view_of c' = view_of c" "same_view c c' \<Longrightarrow> server_wf c' = server_wf c"
  by (simp_all add: same_view_def view_of_def server_wf_def)

lemma same_view_refl [simp]: "same_view c c"
  by (simp add: same_view_def)

lemma same_view_trans: "same_view a b \<Longrightarrow> same_view b c \<Longrightarrow> same_view a c"
  by (simp add: same_view_def)

lemma same_view_Client_chat: "Client_chat r c = Inr (b, c') \<Longrightarrow> same_view c c'"
  by (auto simp: Client_chat_def LRU_handle_task_def andThen_eq_Inr_iff Let_def same_view_def split: if_splits)

lemma same_view_from_single_cache: "from_single_cache sys m c = Inr c' \<Longrightarrow> same_view c c'"
  by (auto simp: from_single_cache_def andThen_eq_Inr_iff same_view_def split: if_splits)

lemma same_view_send_all: "send_all net xs c = Inr (ms, c') \<Longrightarrow> same_view c c'"
proof (induction xs arbitrary: c ms)
  case (Cons x xs)
  obtain ip port key where x: "x = (ip, port, key)" by (cases x)
  with Cons.prems obtain m c1 ms' where c1: "to_single_cache net ip port key c = Inr (m, c1)" "send_all net xs c1 = Inr (ms', c')"
    by (auto simp: andThen_eq_Inr_iff)
  have "same_view c c1" using c1(1)
    by (auto simp: to_single_cache_def andThen_eq_Inr_iff Let_def same_view_def split: if_splits)
  with Cons.IH [OF c1(2)] same_view_trans show ?case by blast
qed simp

lemma same_view_cache_pass:
  assumes "cache_pass net order received c = Inr (out, c')"
  shows "same_view c c'"
proof -
  have "same_view c c1" if "cal_hash_key order c = Inr c1" for c1
    using that by (auto simp: cal_hash_key_def andThen_eq_Inr_iff Let_def same_view_def)
  moreover have "same_view c (c1\<lparr>cache_list_update_flag := b\<rparr>)" if "same_view c c1" for c1 b
    using that by (simp add: same_view_def)
  ultimately show ?thesis using assms unfolding cache_pass_def
    by (auto simp: andThen_eq_Inr_iff split: if_splits
        dest!: same_view_from_single_cache same_view_send_all intro: same_view_trans)
qed

lemma update_cache_flag: "update_cache ip port st c = Inr c' \<Longrightarrow> initial_flag c' = initial_flag c"
  by (auto simp: update_cache_def andThen_eq_Inr_iff split: if_splits)

lemma set_target_flag: "set_target m n c = Inr c' \<Longrightarrow> initial_flag c' = initial_flag c"
  by (auto simp: set_target_def andThen_eq_Inr_iff split: if_splits)

lemma ReadFromMaster_flag:
  assumes "ReadFromMaster m c = Inr c'" "initial_flag c"
  shows "initial_flag c'"
  using assms unfolding ReadFromMaster_def
  by (auto simp: andThen_eq_Inr_iff split: if_splits dest!: update_cache_flag set_target_flag)

lemma Heartbeat_wf:
  assumes "Heartbeat r [] c = Inr (h, c')" "server_wf c"
  shows "server_wf c'"
  using assms ReadFromMaster_flag by (auto simp: Heartbeat_def andThen_eq_Inr_iff Let_def server_wf_def split: if_splits)

lemma Heartbeat_idle: "Heartbeat Would_block [] c = Inr (heart_message c, c)"
  by (auto simp: Heartbeat_def ReadFromMaster_def master_spear_def substr_def)

end
