(* ===== verification/Cluster_Facts.thy ===== *)
theory Cluster_Facts
  imports Cluster
begin

text \<open>
  Every step of the cluster keeps its invariant: the tables of the coordinator agree with the
  servers behind the descriptors, and the messages on their way to a member turn its list into
  the list of all members.
\<close>

section \<open>Channels\<close>

lemma delivers_append:
  assumes "delivers l v" "notices_run (self_addr (server l)) ns v = Some v'" "\<forall>n \<in> set ns. notice_ok n"
  shows "delivers (l\<lparr>to_server := to_server l @ map notice_text ns\<rparr>) v'"
proof -
  obtain ns0 where "to_server l = map notice_text ns0" "\<forall>n \<in> set ns0. notice_ok n"
    "notices_run (self_addr (server l)) ns0 (view_of (server l)) = Some v"
    using assms(1) by (auto simp: delivers_def)
  with assms(2,3) show ?thesis
    unfolding delivers_def by (intro exI [of _ "ns0 @ ns"]) (auto simp: notices_run_append)
qed

lemma delivers_cong:
  "to_server l' = to_server l \<Longrightarrow> self_addr (server l') = self_addr (server l) \<Longrightarrow> view_of (server l') = view_of (server l) \<Longrightarrow>
     delivers l v \<Longrightarrow> delivers l' v"
  by (simp add: delivers_def)

text \<open>A server that receives the first message on its way\<close>

lemma delivers_next:
  assumes "delivers l v" "to_server l = m # rest" "server_wf (server l)"
  shows "\<exists>c'. Heartbeat (Received m) [] (server l) = Inr (heart_message (server l), c')"
proof -
  obtain n ns v1 where "m = notice_text n" "notice_step (self_addr (server l)) n (view_of (server l)) = Some v1"
    using assms(1,2) by (auto simp: delivers_def split: bind_splits)
  then show ?thesis using notice_refines [OF assms(3)] by blast
qed

lemma delivers_receive:
  assumes "delivers l v" "to_server l = m # rest" "server_wf (server l)" "Heartbeat (Received m) [] (server l) = Inr (h, c')"
  shows "delivers (l\<lparr>server := c', to_server := rest, to_master := out\<rparr>) v"
proof -
  obtain ns where ns: "to_server l = map notice_text ns" "notices_run (self_addr (server l)) ns (view_of (server l)) = Some v"
    "\<forall>n \<in> set ns. notice_ok n" using assms(1) by (auto simp: delivers_def)
  then obtain n ns' where n: "ns = n # ns'" "m = notice_text n" "rest = map notice_text ns'" using assms(2) by (cases ns) auto
  with ns(2) obtain v1 where v1: "notice_step (self_addr (server l)) n (view_of (server l)) = Some v1"
    "notices_run (self_addr (server l)) ns' v1 = Some v" by (auto split: bind_splits)
  obtain c1 where "Heartbeat (Received m) [] (server l) = Inr (heart_message (server l), c1)" "view_of c1 = v1"
    using notice_refines [OF assms(3) v1(1)] n(2) by blast
  moreover have "self_addr c' = self_addr (server l)" using keeps_Heartbeat [OF assms(4)] by (simp add: keeps_def self_addr_def)
  moreover have "\<forall>n \<in> set ns'. notice_ok n" using ns(3) n(1) by simp
  ultimately show ?thesis using assms(4) n(3) v1(2) by (auto simp: delivers_def)
qed

lemma deliver_sel:
  "deliver ps ls fd = Some l' \<longleftrightarrow>
     (\<exists>l. ls fd = Some l \<and> l' = l\<lparr>to_server := to_server l @ map snd (filter (\<lambda>p. fst p = fd) ps)\<rparr>)"
  by (auto simp: deliver_def)

lemma links_wf_mono:
  assumes "links_wf u ls"
    and r: "\<And>fd l. ls' fd = Some l \<Longrightarrow> \<exists>l0. ls fd = Some l0 \<and> server l = server l0 \<and> (link_wf l0 \<longrightarrow> link_wf l)"
  shows "links_wf u ls'"
  unfolding links_wf_def
proof (intro conjI allI impI; (elim conjE)?)
  fix fd l assume "ls' fd = Some l"
  from r [OF this] assms show "fd \<in> u" "link_wf l" unfolding links_wf_def by blast+
next
  fix fd l fd' l' assume l: "ls' fd = Some l" "ls' fd' = Some l'" "self_addr (server l) = self_addr (server l')"
  from r [OF l(1)] r [OF l(2)] assms l(3) show "fd = fd'" unfolding links_wf_def by metis
qed

lemma deliver_keeps [simp]:
  "links_wf u (deliver ps ls) = links_wf u ls" "entries_agree m (deliver ps ls) = entries_agree m ls"
  "server_at (deliver ps ls) fd = server_at ls fd"
proof -
  show "server_at (deliver ps ls) fd = server_at ls fd" by (cases "ls fd") (simp_all add: server_at_def deliver_def)
  have "(\<exists>l. deliver ps ls fd = Some l \<and> (e = fdmap_new fd \<or> e = entry_of fd (server l) \<and> fd \<in> set (fd_node m))) =
      (\<exists>l. ls fd = Some l \<and> (e = fdmap_new fd \<or> e = entry_of fd (server l) \<and> fd \<in> set (fd_node m)))" for fd e
    by (cases "ls fd") (auto simp: deliver_def)
  then show "entries_agree m (deliver ps ls) = entries_agree m ls" by (simp only: entries_agree_def)
  show "links_wf u (deliver ps ls) = links_wf u ls"
    by (rule iffI; rule links_wf_mono, assumption) (auto simp: deliver_def link_wf_def)
qed

section \<open>Servers and the coordinator\<close>

lemma heart_message_keeps: "keeps c c' \<Longrightarrow> pr_status c = ''P'' \<Longrightarrow> heart_message c' = heart_message c"
  by (simp add: keeps_def heart_message_def)

lemma self_addr_keeps: "keeps c c' \<Longrightarrow> self_addr c' = self_addr c"
  by (simp add: keeps_def self_addr_def)

lemma entry_of_keeps: "keeps c c' \<Longrightarrow> entry_of fd c' = entry_of fd c"
  by (simp add: keeps_def entry_of_def)

lemma link_wfI:
  assumes "link_wf l" "keeps (server l) (server l')" "server_wf (server l')"
    "set (to_master l') \<subseteq> {heart_message (server l)}"
  shows "link_wf l'"
proof -
  have "pr_status (server l) = ''P''" using assms(1) by (simp add: link_wf_def)
  with assms heart_message_keeps [OF assms(2)] show ?thesis by (simp add: link_wf_def keeps_def)
qed

text \<open>A step of one server\<close>

lemma relink:
  assumes ok: "cluster_ok u s" and l: "links s fd = Some l" and k: "keeps (server l) (server l')"
    and wf: "server_wf (server l')" and out: "set (to_master l') \<subseteq> {heart_message (server l)}"
    and del: "\<And>v. delivers l v \<Longrightarrow> delivers l' v"
    and wait: "to_server l = [] \<Longrightarrow> view_of (server l) = Waiting \<Longrightarrow> to_server l' = [] \<and> view_of (server l') = Waiting"
  shows "cluster_ok u (s\<lparr>links := (links s)(fd \<mapsto> l')\<rparr>)"
proof -
  let ?s = "s\<lparr>links := (links s)(fd \<mapsto> l')\<rparr>"
  have mem: "members ?s = members s" by (simp add: members_def)
  have self: "self_addr (server_at ((links s)(fd \<mapsto> l')) f) = self_addr (server_at (links s) f)" for f
    using l self_addr_keeps [OF k] by (simp add: server_at_def)
  have addrs: "member_addrs ?s = member_addrs s" by (simp add: member_addrs_def mem self)
  have w: "links_wf u (links s)" "entries_agree (coord s) (links s)" "coord_ok u s" using ok by (simp_all add: cluster_ok_def)
  then have "link_wf l'" using l link_wfI [OF _ k wf out] by (simp add: links_wf_def)
  then have "links_wf u (links ?s)" using w(1) l self_addr_keeps [OF k] by (simp add: links_wf_def) metis
  moreover have "entries_agree (coord ?s) (links ?s)" using w(2) l entry_of_keeps [OF k] by (fastforce simp: entries_agree_def)
  moreover have "coord_ok u ?s" using w(3) mem by (simp add: coord_ok_def)
  moreover have "view_ok ?s f l0" if "links ?s f = Some l0" for f l0
  proof (cases "f = fd")
    case True
    with that have "l0 = l'" by simp
    moreover have "view_ok s fd l" using ok l by (simp add: cluster_ok_def)
    ultimately show ?thesis using True del wait mem addrs by (auto simp: view_ok_def)
  next
    case False
    with that ok have "view_ok s f l0" by (simp add: cluster_ok_def)
    then show ?thesis using mem addrs by (simp add: view_ok_def)
  qed
  ultimately show ?thesis by (simp add: cluster_ok_def)
qed

lemma beats_ok:
  assumes ok: "cluster_ok u s" and l: "links s fd = Some l"
    and r: "r = Would_block \<and> rest = to_server l \<or> (\<exists>m. r = Received m \<and> to_server l = m # rest)"
    and h: "Heartbeat r [] (server l) = Inr (h, c')"
  shows "cluster_ok u (s\<lparr>links := (links s)(fd \<mapsto> \<lparr>server = c', to_server = rest, to_master = to_master l @ [h]\<rparr>)\<rparr>)"
proof (rule relink [OF ok l])
  have wf: "link_wf l" using ok l by (simp add: cluster_ok_def links_wf_def)
  then have s: "server_wf (server l)" by (simp add: link_wf_def)
  show "server_wf (server \<lparr>server = c', to_server = rest, to_master = to_master l @ [h]\<rparr>)" using Heartbeat_wf [OF h s] by simp
  show "keeps (server l) (server \<lparr>server = c', to_server = rest, to_master = to_master l @ [h]\<rparr>)" using keeps_Heartbeat [OF h] by simp
  show "set (to_master \<lparr>server = c', to_server = rest, to_master = to_master l @ [h]\<rparr>) \<subseteq> {heart_message (server l)}"
    using wf Heartbeat_sends [OF h] by (simp add: link_wf_def)
  have idle: "c' = server l" if "r = Would_block" using that h Heartbeat_idle [of "server l"] by simp
  show "delivers \<lparr>server = c', to_server = rest, to_master = to_master l @ [h]\<rparr> v" if d: "delivers l v" for v
    using r
  proof (elim disjE exE conjE)
    fix m assume "r = Received m" "to_server l = m # rest"
    with delivers_receive [OF d _ s, of m rest h c' "to_master l @ [h]"] h show ?thesis by (simp add: delivers_def)
  qed (use d idle in \<open>simp add: delivers_def\<close>)
  show "to_server \<lparr>server = c', to_server = rest, to_master = to_master l @ [h]\<rparr> = [] \<and>
      view_of (server \<lparr>server = c', to_server = rest, to_master = to_master l @ [h]\<rparr>) = Waiting"
    if "to_server l = []" "view_of (server l) = Waiting" using that r idle by auto
qed

lemma works_ok:
  assumes ok: "cluster_ok u s" and l: "links s fd = Some l"
    and w: "Client_chat r (server l) = Inr (reply, c') \<or> cache_pass net order received (server l) = Inr (out, c')"
  shows "cluster_ok u (s\<lparr>links := (links s)(fd \<mapsto> l\<lparr>server := c'\<rparr>)\<rparr>)"
proof (rule relink [OF ok l])
  have wf: "link_wf l" using ok l by (simp add: cluster_ok_def links_wf_def)
  have v: "same_view (server l) c'" and k: "keeps (server l) c'"
    using w same_view_Client_chat same_view_cache_pass keeps_Client_chat keeps_cache_pass by blast+
  note same_viewD [OF v] self_addr_keeps [OF k]
  then show "server_wf (server (l\<lparr>server := c'\<rparr>))" "keeps (server l) (server (l\<lparr>server := c'\<rparr>))"
    "set (to_master (l\<lparr>server := c'\<rparr>)) \<subseteq> {heart_message (server l)}"
    "\<And>v. delivers l v \<Longrightarrow> delivers (l\<lparr>server := c'\<rparr>) v"
    "to_server l = [] \<Longrightarrow> view_of (server l) = Waiting \<Longrightarrow>
       to_server (l\<lparr>server := c'\<rparr>) = [] \<and> view_of (server (l\<lparr>server := c'\<rparr>)) = Waiting"
    using wf k by (simp_all add: link_wf_def delivers_def)
qed

section \<open>Heartbeats at the coordinator\<close>

lemma post_to_iff: "post_to fd msg = Inr p \<longleftrightarrow> length msg < BUF_SIZE \<and> p = (fd, msg)"
  by (auto simp: post_to_def)

lemma post_all_iff: "post_all fds msg = Inr ps \<longleftrightarrow> (fds = [] \<or> length msg < BUF_SIZE) \<and> ps = map (\<lambda>fd. (fd, msg)) fds"
  by (induction fds arbitrary: ps) (auto simp: andThen_eq_Inr_iff post_to_iff)

lemma heart_text:
  "pr_status c = ''P'' \<Longrightarrow> heart_message c =
     ''x#'' @ local_cache_IP c @ ''#'' @ port_for_client c @ ''#'' @ port_for_cache c @ ''#P''"
  by (simp add: heart_message_def)

lemma entry_of_sel [simp]:
  "fd_ip_port (entry_of fd c) = local_cache_IP c @ ''#'' @ port_for_client c"
  "fd_ip_cache (entry_of fd c) = local_cache_IP c @ ''#'' @ port_for_cache c"
  "fd_status (entry_of fd c) = CHR ''P''" "fd_pair (entry_of fd c) = -1" "fd_num (entry_of fd c) = fd"
  by (simp_all add: entry_of_def new_primary_def)

lemma entry_of_not_new [simp]: "entry_of fd c \<noteq> fdmap_new fd'"
  by (simp add: entry_of_def new_primary_def fdmap_new_def)

lemma heartbeat_alone_total:
  assumes e: "caches_list m fd = Some (entry_of fd c)" and wf: "link_wf l" "server l = c"
  shows "start_cache fd (heart_message c) now m = Inr ([(fd, ''P#None'')], heard (local_cache_IP c) (port_for_client c) now m)"
proof -
  have f: "field_ok CHR ''#'' (local_cache_IP c)" "field_ok CHR ''#'' (port_for_client c)" "field_ok CHR ''#'' (port_for_cache c)"
    "field_ok CHR ''#'' ''P''" and p: "pr_status c = ''P''" using wf by (auto simp: link_wf_def field_ok_def)
  have "local_cache_IP c @ ''#'' @ port_for_client c \<noteq> ''0''" using f(1) by (auto simp: field_ok_def append_eq_Cons_conv)
  then show ?thesis using e split_heartbeat [OF f] heart_text [OF p]
    by (simp add: start_cache_def node_def heartbeat_reply_def post_to_def BUF_SIZE_def handleHeartBeatResponse_def vec_at_def heard_def)
qed

lemma heartbeat_alone:
  assumes e: "caches_list m fd = Some (entry_of fd c)" and wf: "link_wf l" "server l = c"
    and h: "start_cache fd (heart_message c) now m = Inr (ps, m')"
  shows "ps = [(fd, ''P#None'')]" "\<exists>f. m' = m\<lparr>cacheAddrMap := f\<rparr>"
  using heartbeat_alone_total [OF e wf, of now] h by (auto simp: heard_def)

lemma scale_out_success:
  assumes n: "fd_node m = ns @ [fd]" and d: "\<forall>f \<in> set (fd_node m). caches_list m f \<noteq> None"
    and h: "scale_out m = Inr (ps, m')"
  shows "ps = (fd, join CHR ''#'' (map (cache_addr m) (fd_node m))) # map (\<lambda>f. (f, ''N#'' @ cache_addr m fd)) (fd_node m) \<and>
    m' = m\<lparr>cacheAddrHash := addNode (length ns) (cacheAddrHash m)\<rparr>"
proof -
  let ?m = "m\<lparr>cacheAddrHash := addNode (length ns) (cacheAddrHash m)\<rparr>"
  have same: "cache_addr ?m = cache_addr m" by (simp add: cache_addr_def fun_eq_iff)
  have "all_cache (fd_node m) ?m = Inr (concat (map (\<lambda>t. CHR ''#'' # t) (map (cache_addr m) (fd_node m))))"
    using all_cache_Inr [of "fd_node m" ?m] d same by (simp add: comp_def)
  then have all: "all_cache (fd_node m) ?m = Inr (CHR ''#'' # join CHR ''#'' (map (cache_addr m) (fd_node m)))"
    using n by (subst (asm) join_concat) simp_all
  obtain e where e: "caches_list m fd = Some e" using d n by auto
  then have addr: "fd_ip_cache e = cache_addr m fd" by (simp add: cache_addr_def)
  have i: "length (fd_node m) - 1 = length ns" "vec_at (fd_node m) (length ns) = Inr fd"
    using n by (simp_all add: vec_at_def)
  have "scale_out m = andThen (post_to fd (join CHR ''#'' (map (cache_addr m) (fd_node m)))) (\<lambda>p.
      andThen (post_all (fd_node m) (''N#'' @ cache_addr m fd)) (\<lambda>ps. Inr (p # ps, ?m)))"
    unfolding scale_out_def Let_def i using all e i addr by (simp add: node_def substr_def)
  with h show ?thesis by (auto simp: andThen_eq_Inr_iff post_to_iff post_all_iff)
qed

lemma heartbeat_first:
  assumes new: "caches_list m fd = Some (fdmap_new fd)" and r: "rcache m = []"
    and d: "\<forall>f \<in> set (fd_node m). caches_list m f \<noteq> None" and wf: "link_wf l" "server l = c"
    and m1: "m1 = m\<lparr>caches_list := (caches_list m)(fd \<mapsto> entry_of fd c), fd_node := fd_node m @ [fd], pcache := fd # pcache m\<rparr>"
    and h: "start_cache fd (heart_message c) now m = Inr (ps, m')"
  shows "ps = (fd, join CHR ''#'' (map (cache_addr m1) (fd_node m1))) #
      map (\<lambda>f. (f, ''N#'' @ local_cache_IP c @ ''#'' @ port_for_cache c)) (fd_node m1) @ [(fd, ''P#None'')]"
    "\<exists>f. m' = m1\<lparr>cacheAddrHash := addNode (length (fd_node m)) (cacheAddrHash m), cacheAddrMap := f\<rparr>"
proof -
  have f: "field_ok CHR ''#'' (local_cache_IP c)" "field_ok CHR ''#'' (port_for_client c)" "field_ok CHR ''#'' (port_for_cache c)"
    "field_ok CHR ''#'' ''P''" and p: "pr_status c = ''P''" using wf by (auto simp: link_wf_def field_ok_def)
  have addr: "cache_addr m1 fd = local_cache_IP c @ ''#'' @ port_for_cache c" using m1 by (simp add: cache_addr_def)
  have d1: "\<forall>f \<in> set (fd_node m1). caches_list m1 f \<noteq> None" and n1: "fd_node m1 = fd_node m @ [fd]" using d m1 by auto
  have entry: "fdmap_new fd\<lparr>fd_ip_port := local_cache_IP c @ CHR ''#'' # port_for_client c,
      fd_ip_cache := local_cache_IP c @ CHR ''#'' # port_for_cache c, fd_status := CHR ''P''\<rparr> = entry_of fd c"
    by (simp add: fdmap_new_def entry_of_def new_primary_def)
  have first: "first_heartbeat fd [''x'', local_cache_IP c, port_for_client c, port_for_cache c, ''P''] m = scale_out m1"
    using new r m1 by (simp add: first_heartbeat_def vec_at_def modify_def node_def pair_primary_def entry)
  have "start_cache fd (heart_message c) now m = andThen (scale_out m1) (\<lambda>(ps, m2).
      andThen (heartbeat_reply fd m2) (\<lambda>p. Inr (ps @ [p], heard (local_cache_IP c) (port_for_client c) now m2)))"
    using new split_heartbeat [OF f] heart_text [OF p] first
    by (simp add: start_cache_def node_def handleHeartBeatResponse_def vec_at_def heard_def split: prod.splits)
  with h obtain ps0 m2 p0 where s: "scale_out m1 = Inr (ps0, m2)" "heartbeat_reply fd m2 = Inr p0"
    "ps = ps0 @ [p0]" "m' = heard (local_cache_IP c) (port_for_client c) now m2"
    by (auto simp: andThen_eq_Inr_iff)
  note so = scale_out_success [OF n1 d1 s(1)]
  then have "heartbeat_reply fd m2 = Inr (fd, ''P#None'')"
    using m1 by (simp add: heartbeat_reply_def node_def post_to_def BUF_SIZE_def)
  with so s addr m1 show "ps = (fd, join CHR ''#'' (map (cache_addr m1) (fd_node m1))) #
      map (\<lambda>f. (f, ''N#'' @ local_cache_IP c @ ''#'' @ port_for_cache c)) (fd_node m1) @ [(fd, ''P#None'')]"
    "\<exists>f. m' = m1\<lparr>cacheAddrHash := addNode (length (fd_node m)) (cacheAddrHash m), cacheAddrMap := f\<rparr>"
    by (auto simp: heard_def)
qed

section \<open>Members\<close>

lemma cluster_okD:
  assumes "cluster_ok u s"
  shows "coord_ok u s" "tables_ok u (coord s)" "entries_agree (coord s) (links s)" "links_wf u (links s)"
    "nodes_ok (caches_list (coord s)) (fd_node (coord s))" "distinct (fd_node (coord s))"
proof -
  show "coord_ok u s" "entries_agree (coord s) (links s)" "links_wf u (links s)" using assms by (simp_all add: cluster_ok_def)
  then show t: "tables_ok u (coord s)" by (simp add: coord_ok_def)
  then show "nodes_ok (caches_list (coord s)) (fd_node (coord s))" "distinct (fd_node (coord s))"
    by (simp_all add: tables_ok_def nodes_ok_def)
qed

lemma node_link:
  assumes ok: "cluster_ok u s" and f: "fd \<in> set (fd_node (coord s))"
  obtains l where "links s fd = Some l" "caches_list (coord s) fd = Some (entry_of fd (server l))" "link_wf l"
    "cache_addr (coord s) fd = fst (self_addr (server_at (links s) fd)) @ ''#'' @ snd (self_addr (server_at (links s) fd))"
proof -
  obtain e where e: "caches_list (coord s) fd = Some e" "fd_status e = CHR ''P''"
    using cluster_okD(5) [OF ok] f by (auto simp: nodes_ok_def)
  then have "e \<noteq> fdmap_new fd" by auto
  then obtain l where l: "links s fd = Some l" "e = entry_of fd (server l)"
    using cluster_okD(3) [OF ok] e(1) by (auto simp: entries_agree_def)
  moreover have "link_wf l" using cluster_okD(4) [OF ok] l(1) by (simp add: links_wf_def)
  ultimately show thesis using that e(1) by (simp add: cache_addr_def server_at_def self_addr_def)
qed

lemma members_nodes: "set (members s) \<subseteq> set (fd_node (coord s))"
  by (auto simp: members_def dest: in_set_butlastD)

lemma node_addrs_inj:
  assumes ok: "cluster_ok u s"
  shows "inj_on (\<lambda>fd. self_addr (server_at (links s) fd)) (set (fd_node (coord s)))"
proof (rule inj_onI)
  fix f g assume fg: "f \<in> set (fd_node (coord s))" "g \<in> set (fd_node (coord s))"
    "self_addr (server_at (links s) f) = self_addr (server_at (links s) g)"
  obtain l l' where "links s f = Some l" "links s g = Some l'" using node_link [OF ok fg(1)] node_link [OF ok fg(2)] by metis
  with fg(3) cluster_okD(4) [OF ok] show "f = g" by (simp add: links_wf_def server_at_def)
qed

lemma node_addr_clean:
  assumes "cluster_ok u s" "fd \<in> set (fd_node (coord s))"
  shows "CHR ''#'' \<notin> set (fst (self_addr (server_at (links s) fd)))" "CHR ''#'' \<notin> set (snd (self_addr (server_at (links s) fd)))"
proof -
  obtain l where "links s fd = Some l" "link_wf l" using node_link [OF assms] by metis
  then show "CHR ''#'' \<notin> set (fst (self_addr (server_at (links s) fd)))" "CHR ''#'' \<notin> set (snd (self_addr (server_at (links s) fd)))"
    by (simp_all add: link_wf_def field_ok_def self_addr_def server_at_def)
qed

lemma node_addr_ok:
  assumes "cluster_ok u s" "fd \<in> set (fd_node (coord s))"
  shows "addr_ok (self_addr (server_at (links s) fd))"
proof -
  obtain l where "links s fd = Some l" "link_wf l" using node_link [OF assms] by metis
  then show ?thesis by (simp add: addr_ok_def link_wf_def self_addr_def server_at_def)
qed

lemma map_addrs:
  assumes "cluster_ok u s" "set fds \<subseteq> set (fd_node (coord s))"
  shows "map (cache_addr (coord s)) fds = map (\<lambda>(a, p). a @ ''#'' @ p) (map (\<lambda>fd. self_addr (server_at (links s) fd)) fds)"
proof -
  have "cache_addr (coord s) fd = (\<lambda>(a, p). a @ ''#'' @ p) (self_addr (server_at (links s) fd))" if fd: "fd \<in> set fds" for fd
  proof -
    have "fd \<in> set (fd_node (coord s))" using fd assms(2) by blast
    then show ?thesis by (rule node_link [OF assms(1)]) (simp add: case_prod_beta)
  qed
  then show ?thesis by simp
qed

text \<open>What is sent to everybody arrives once at each.\<close>

lemma posted_once:
  "distinct fds \<Longrightarrow> map snd (filter (\<lambda>p. fst p = f) (map (\<lambda>fd. (fd, msg)) fds)) = (if f \<in> set fds then [msg] else [])"
  by (induction fds) auto

lemma remove1_map: "inj_on g (set xs) \<Longrightarrow> x \<in> set xs \<Longrightarrow> remove1 (g x) (map g xs) = map g (remove1 x xs)"
  by (induction xs) (auto simp: inj_on_def)

lemma card_nodes:
  assumes "tables_ok u m" "finite u"
  shows "length (fd_node m) \<le> card u"
proof -
  have "set (fd_node m) \<subseteq> u" "distinct (fd_node m)"
    using assms(1) by (fastforce simp: tables_ok_def nodes_ok_def entries_ok_def)+
  then show ?thesis using assms(2) by (metis card_mono distinct_card)
qed

text \<open>A step of the coordinator that appends to the channels\<close>

lemma delivered_ok:
  assumes ok: "cluster_ok u s" and co: "coord_ok u s'" and ls: "links s' = deliver ps (links s)"
    and ent: "entries_agree (coord s') (links s)"
    and views: "\<And>fd l l'. links s fd = Some l \<Longrightarrow> view_ok s fd l \<Longrightarrow>
      l' = l\<lparr>to_server := to_server l @ map snd (filter (\<lambda>p. fst p = fd) ps)\<rparr> \<Longrightarrow> view_ok s' fd l'"
  shows "cluster_ok u s'"
proof -
  have "view_ok s' fd l'" if f: "links s' fd = Some l'" for fd l'
  proof -
    obtain l where l: "links s fd = Some l" "l' = l\<lparr>to_server := to_server l @ map snd (filter (\<lambda>p. fst p = fd) ps)\<rparr>"
      using f unfolding ls deliver_sel by blast
    with ok show ?thesis by (intro views [OF l(1) _ l(2)]) (simp add: cluster_ok_def)
  qed
  then show ?thesis using co ent cluster_okD(4) [OF ok] by (simp add: cluster_ok_def ls)
qed

lemma coord_ok_map: "coord_ok u (s\<lparr>coord := (coord s)\<lparr>cacheAddrMap := f\<rparr>, links := ls\<rparr>) = coord_ok u s"
  by (simp add: coord_ok_def members_def tables_ok_def)

lemma entries_agree_map: "entries_agree (m\<lparr>cacheAddrMap := f\<rparr>) ls = entries_agree m ls"
  by (simp add: entries_agree_def)

lemma view_ok_append:
  assumes "view_ok s fd l" "caches_list (coord s) fd \<noteq> Some (fdmap_new fd)"
    "members s' = members s" "member_addrs s' = member_addrs s" "leaving s' = leaving s"
    "caches_list (coord s') fd = caches_list (coord s) fd"
    "\<And>v. v \<in> {Member (member_addrs s), Leaving (member_addrs s)} \<Longrightarrow> notices_run (self_addr (server l)) ns v = Some v" "\<forall>n \<in> set ns. notice_ok n"
  shows "view_ok s' fd (l\<lparr>to_server := to_server l @ map notice_text ns\<rparr>)"
  using assms delivers_append [of l _ ns] by (auto simp: view_ok_def)

lemma member_addrs_same:
  "members s' = members s \<Longrightarrow> server_at (links s') = server_at (links s) \<Longrightarrow> member_addrs s' = member_addrs s"
  by (simp add: member_addrs_def)

lemma heard_again_ok:
  assumes ok: "cluster_ok u s" and l: "links s fd = Some l" and e: "caches_list (coord s) fd = Some (entry_of fd (server l))"
    and h: "start_cache fd (heart_message (server l)) now (coord s) = Inr (ps, m')"
  shows "cluster_ok u (s\<lparr>coord := m', links := deliver ps (links s)\<rparr>)"
proof -
  have wf: "link_wf l" using cluster_okD(4) [OF ok] l by (simp add: links_wf_def)
  have ps: "ps = [(fd, ''P#None'')]" using heartbeat_alone(1) [OF e wf refl h] .
  obtain f where m': "m' = (coord s)\<lparr>cacheAddrMap := f\<rparr>" using heartbeat_alone(2) [OF e wf refl h] by blast
  let ?s = "s\<lparr>coord := m', links := deliver ps (links s)\<rparr>"
  have mem: "members ?s = members s" "member_addrs ?s = member_addrs s"
    by (simp_all add: members_def m') (simp add: member_addrs_def members_def m')
  show ?thesis
  proof (rule delivered_ok [OF ok])
    show "coord_ok u ?s" using cluster_okD(1) [OF ok] by (simp add: m' coord_ok_map)
    show "entries_agree (coord ?s) (links s)" using cluster_okD(3) [OF ok] by (simp add: m' entries_agree_map)
    show "view_ok ?s g l'" if g: "links s g = Some l0" "view_ok s g l0"
      "l' = l0\<lparr>to_server := to_server l0 @ map snd (filter (\<lambda>p. fst p = g) ps)\<rparr>" for g l0 l'
    proof (cases "g = fd")
      case True
      then have "view_ok ?s g (l0\<lparr>to_server := to_server l0 @ map notice_text [Notice (As_primary None)]\<rparr>)"
        using g(2) e mem by (intro view_ok_append) (auto simp: m')
      then show ?thesis using g(3) True ps by simp
    next
      case False
      then show ?thesis using g mem ps by (simp add: view_ok_def m')
    qed
  qed simp
qed

lemma coord_master_ok:
  "coord_ok u s \<Longrightarrow> leaving s = None \<Longrightarrow> master_ok u (coord s) \<and> members s = fd_node (coord s)"
  by (simp add: coord_ok_def master_ok_def hash_ok_def members_def)

lemma coord_okI:
  assumes "master_ok u (coord s)" "finite u" "rcache (coord s) = []" "leaving s = None"
    "shards_apart (int (card u)) 100 \<Longrightarrow> ring_exact (cacheAddrHash (coord s))"
  shows "coord_ok u s"
  using assms by (simp add: coord_ok_def master_ok_def hash_ok_def members_def)

text \<open>A server joins: everybody is told, and the new one gets the whole list.\<close>

lemma joined_ok:
  assumes ok: "cluster_ok u s" and free: "leaving s = None" and l: "links s fd = Some l"
    and e: "caches_list (coord s) fd = Some (fdmap_new fd)"
    and h: "start_cache fd (heart_message (server l)) now (coord s) = Inr (ps, m')"
  shows "cluster_ok u (s\<lparr>coord := m', links := deliver ps (links s)\<rparr>)"
proof -
  let ?m = "coord s" and ?c = "server l" and ?s = "s\<lparr>coord := m', links := deliver ps (links s)\<rparr>"
  let ?self = "self_addr ?c" and ?N = "''N#'' @ local_cache_IP ?c @ ''#'' @ port_for_cache ?c"
  let ?m1 = "?m\<lparr>caches_list := (caches_list ?m)(fd \<mapsto> entry_of fd ?c), fd_node := fd_node ?m @ [fd], pcache := fd # pcache ?m\<rparr>"
  have co: "coord_ok u s" and wf: "link_wf l" using cluster_okD [OF ok] l by (simp_all add: links_wf_def)
  have mok: "master_ok u ?m" and mem: "members s = fd_node ?m" using coord_master_ok [OF co free] by simp_all
  have nodes: "\<forall>f \<in> set (fd_node ?m). caches_list ?m f \<noteq> None" using cluster_okD(5) [OF ok] by (auto simp: nodes_ok_def)
  have r: "rcache ?m = []" using co by (simp add: coord_ok_def)
  have out: "fd \<notin> set (fd_node ?m)" using cluster_okD(5) [OF ok] e by (auto simp: nodes_ok_def)
  have ps: "ps = (fd, join CHR ''#'' (map (cache_addr ?m1) (fd_node ?m1))) # map (\<lambda>f. (f, ?N)) (fd_node ?m1) @ [(fd, ''P#None'')]"
    using heartbeat_first(1) [OF e r nodes wf refl refl h] .
  obtain f where m': "m' = ?m1\<lparr>cacheAddrHash := addNode (length (fd_node ?m)) (cacheAddrHash ?m), cacheAddrMap := f\<rparr>"
    using heartbeat_first(2) [OF e r nodes wf refl refl h] by blast
  have mok': "master_ok u m'" using start_cache_ok [OF mok h] .
  have mem': "members ?s = members s @ [fd]" by (simp add: members_def free m')
  have sl: "server_at (links s) fd = ?c" using l by (simp add: server_at_def)
  have addrs: "member_addrs ?s = member_addrs s @ [?self]" using mem' sl by (simp add: member_addrs_def)
  let ?as = "member_addrs s @ [?self]"
  have "map (cache_addr ?m1) (fd_node ?m) = map (cache_addr ?m) (fd_node ?m)" using out by (simp add: cache_addr_def)
  also have "\<dots> = map (\<lambda>(a, p). a @ ''#'' @ p) (member_addrs s)" using map_addrs [OF ok subset_refl] by (simp add: member_addrs_def mem)
  finally have "map (cache_addr ?m1) (fd_node ?m1) = map (\<lambda>(a, p). a @ ''#'' @ p) ?as"
    by (simp add: cache_addr_def self_addr_def)
  then have lst: "join CHR ''#'' (map (cache_addr ?m1) (fd_node ?m1)) = notice_text (Address_list ?as)"
    by (simp only: addr_fields_join [of ?as] notice_text.simps list.distinct append_is_Nil_conv simp_thms)
  have clean: "\<forall>(a, p) \<in> set ?as. CHR ''#'' \<notin> set a \<and> CHR ''#'' \<notin> set p"
    using node_addr_clean [OF ok] wf by (auto simp: member_addrs_def mem link_wf_def field_ok_def self_addr_def)
  have good: "\<forall>a \<in> set ?as. addr_ok a" "addr_ok (fst ?self, snd ?self)"
    using node_addr_ok [OF ok] wf by (auto simp: member_addrs_def mem link_wf_def self_addr_def addr_ok_def)
  have N: "?N = notice_text (Notice (New_cache (fst ?self) (snd ?self)))" by (simp add: self_addr_def)
  have sent: "map snd (filter (\<lambda>p. fst p = g) ps) =
      map notice_text (if g = fd then [Address_list ?as, Notice (New_cache (fst ?self) (snd ?self)), Notice (As_primary None)]
        else if g \<in> set (fd_node ?m) then [Notice (New_cache (fst ?self) (snd ?self))] else [])" for g
    unfolding ps lst using posted_once [of "fd_node ?m1" g ?N] cluster_okD(6) [OF ok] out N by auto
  show ?thesis
  proof (rule delivered_ok [OF ok])
    have "int (length (fd_node ?m)) = ch_nodes (cacheAddrHash ?m)" "ch_v_nodes (cacheAddrHash ?m) = 100"
      using co mem by (simp_all add: coord_ok_def)
    moreover have "length (fd_node ?m) + 1 \<le> card u"
      using card_nodes [of u m'] mok' co by (simp add: master_ok_def coord_ok_def m')
    ultimately have "ring_exact (cacheAddrHash m')" if "shards_apart (int (card u)) 100"
      using that ring_exact_addNode [of "cacheAddrHash ?m" "length (fd_node ?m)"] co
        shards_apart_mono [OF that, of "int (length (fd_node ?m)) + 1"] by (simp add: coord_ok_def m')
    then show "coord_ok u ?s" using mok' co r by (intro coord_okI) (simp_all add: coord_ok_def m' free)
    show "entries_agree (coord ?s) (links s)"
      using cluster_okD(3) [OF ok] l by (fastforce simp: entries_agree_def m')
    show "view_ok ?s g l'" if g: "links s g = Some l0" "view_ok s g l0"
      "l' = l0\<lparr>to_server := to_server l0 @ map snd (filter (\<lambda>p. fst p = g) ps)\<rparr>" for g l0 l'
    proof -
      consider (new) "g = fd" | (old) "g \<noteq> fd" "g \<in> set (fd_node ?m)" | (other) "g \<noteq> fd" "g \<notin> set (fd_node ?m)" by blast
      then show ?thesis
      proof cases
        case new
        then have l0: "l0 = l" "delivers l Waiting" using g l e by (simp_all add: view_ok_def) (auto simp: delivers_def intro: exI [of _ "[]"])
        have "notices_run ?self [Address_list ?as, Notice (New_cache (fst ?self) (snd ?self)), Notice (As_primary None)] Waiting = Some (Member ?as)"
          using clean by auto
        from delivers_append [OF l0(2) this] good show ?thesis
          using new g(3) l0(1) sent addrs free by (simp add: view_ok_def m')
      next
        case old
        have "self_addr (server l0) \<noteq> ?self" using cluster_okD(4) [OF ok] g(1) l old(1) by (auto simp: links_wf_def)
        then have run: "notices_run (self_addr (server l0)) [Notice (New_cache (fst ?self) (snd ?self))] (Member (member_addrs s)) = Some (Member ?as)"
          using clean by auto
        have "delivers l0 (Member (member_addrs s))" using g(2) old(2) mem by (simp add: view_ok_def)
        from delivers_append [OF this run] good(2) have "delivers l' (Member ?as)" using g(3) sent old by simp
        moreover have "caches_list ?m g \<noteq> Some (fdmap_new g)" using cluster_okD(5) [OF ok] old(2) by (auto simp: nodes_ok_def)
        ultimately show ?thesis using addrs free old(1) by (simp add: view_ok_def m')
      next
        case other
        then have "l' = l0" using g(3) sent by simp
        then show ?thesis using g(2) other mem mem' free by (simp add: view_ok_def m')
      qed
    qed
  qed simp
qed

section \<open>The detector and scaling in\<close>

lemma remove_primary_posts:
  assumes "fd \<in> set (fd_node m)" "caches_list m fd = Some e" "remove_primary fd m = Inr (ps, m')"
  shows "ps = map (\<lambda>f. (f, ''D#'' @ fd_ip_cache e)) (remove1 fd (fd_node m)) \<and>
    m' = m\<lparr>fd_node := remove1 fd (fd_node m), cacheAddrHash := deleteNode (length (takeWhile (\<lambda>x. x \<noteq> fd) (fd_node m))) (cacheAddrHash m)\<rparr>"
  using assms(1,2) remove_primary_Inr [OF assms(3)] assms(3)
  by (auto simp: remove_primary_def Let_def andThen_eq_Inr_iff index_found node_def post_all_iff)

text \<open>What the detector does to a cluster of primaries\<close>

lemma detects_cases:
  assumes ok: "cluster_ok u s" and h: "periodicDetectCache now order (coord s) = Inr (ps, m')"
  obtains (none) f where "ps = []" "m' = (coord s)\<lparr>cacheAddrMap := f\<rparr>"
  | (fresh) f fd where "caches_list (coord s) fd = Some (fdmap_new fd)" "ps = []"
      "m' = forget fd ((coord s)\<lparr>cacheAddrMap := f\<rparr>)"
  | (lost) f fd l j where "fd \<in> set (fd_node (coord s))" "links s fd = Some l"
      "ps = map (\<lambda>g. (g, ''D#'' @ fst (self_addr (server l)) @ ''#'' @ snd (self_addr (server l)))) (remove1 fd (fd_node (coord s)))"
      "m' = forget fd ((coord s)\<lparr>cacheAddrMap := f, fd_node := remove1 fd (fd_node (coord s)),
         cacheAddrHash := deleteNode j (cacheAddrHash (coord s))\<rparr>)"
proof -
  let ?m = "coord s"
  have ent: "entries_ok u (caches_list ?m)" using cluster_okD(2) [OF ok] by (simp add: tables_ok_def)
  from h obtain d m1 where d: "first_dead now order ?m = Inr (d, m1)"
    by (auto simp: periodicDetectCache_def andThen_eq_Inr_iff)
  show thesis
  proof (cases d)
    case None
    obtain f where "m1 = ?m\<lparr>cacheAddrMap := f\<rparr>" using first_dead_Inr [OF d] by blast
    with none None d h show thesis by (auto simp: periodicDetectCache_def)
  next
    case (Some fd)
    obtain m2 f where m2: "m1 = ?m\<lparr>cacheAddrMap := f\<rparr>" "disaster fd m1 = Inr (ps, m2)" "m' = forget fd m2"
      using detect_dead [OF ent _ h] d Some by metis
    from m2(2) obtain e where e1: "caches_list m1 fd = Some e" by (auto simp: disaster_def andThen_eq_Inr_iff)
    then have e: "caches_list ?m fd = Some e" using m2(1) by simp
    obtain l where l: "links s fd = Some l" "e = fdmap_new fd \<or> e = entry_of fd (server l) \<and> fd \<in> set (fd_node ?m)"
      using cluster_okD(3) [OF ok] e by (auto simp: entries_agree_def)
    show thesis
    proof (cases "e = fdmap_new fd")
      case True
      then have "ps = []" "m2 = m1" using m2(2) e1 by (simp_all add: disaster_def node_def)
      with fresh True e m2 show thesis by blast
    next
      case False
      with l have le: "e = entry_of fd (server l)" "fd \<in> set (fd_node m1)" using m2(1) by auto
      then have "remove_primary fd m1 = Inr (ps, m2)" using m2(2) e1 by (simp add: disaster_def node_def)
      from remove_primary_posts [OF le(2) e1 this] show thesis
        using m2(1,3) le l(1) by (intro lost [of fd l _ f]) (simp_all add: self_addr_def)
    qed
  qed
qed

lemma same_view_ok:
  assumes "view_ok s g l0" "members s' = members s" "member_addrs s' = member_addrs s" "leaving s' = leaving s"
    "caches_list (coord s') g = Some (fdmap_new g) \<Longrightarrow> caches_list (coord s) g = Some (fdmap_new g)"
  shows "view_ok s' g l0"
  using assms by (auto simp: view_ok_def)

lemma no_posts: "deliver [] ls = ls"
  by (simp add: deliver_def fun_eq_iff option.map_ident)

lemma detects_ok:
  assumes ok: "cluster_ok u s" and free: "leaving s = None"
    and h: "periodicDetectCache now order (coord s) = Inr (ps, m')"
  shows "cluster_ok u (s\<lparr>coord := m', links := deliver ps (links s)\<rparr>)"
proof -
  let ?m = "coord s" and ?s = "s\<lparr>coord := m', links := deliver ps (links s)\<rparr>"
  have co: "coord_ok u s" using cluster_okD [OF ok] by simp
  have mok: "master_ok u m'" and mem: "members s = fd_node ?m" "members ?s = fd_node m'"
    using periodic_ok [OF _ h] coord_master_ok [OF co free] free by (simp_all add: members_def)
  from ok h show ?thesis
  proof (cases rule: detects_cases)
    case (none f)
    show ?thesis
    proof (rule delivered_ok [OF ok])
      show "coord_ok u ?s" using co by (simp add: none coord_ok_map)
      show "entries_agree (coord ?s) (links s)" using cluster_okD(3) [OF ok] by (simp add: none entries_agree_map)
      show "view_ok ?s g l'" if g: "view_ok s g l0"
        "l' = l0\<lparr>to_server := to_server l0 @ map snd (filter (\<lambda>p. fst p = g) ps)\<rparr>" for g l0 l'
        using g same_view_ok [of s g l0 ?s] by (simp add: none members_def member_addrs_def)
    qed simp
  next
    case (fresh f fd)
    have out: "fd \<notin> set (fd_node ?m)" using cluster_okD(5) [OF ok] fresh(1) by (auto simp: nodes_ok_def)
    show ?thesis
    proof (rule delivered_ok [OF ok])
      show "coord_ok u ?s" using mok co by (intro coord_okI) (simp_all add: coord_ok_def fresh free)
      show "entries_agree (coord ?s) (links s)" using cluster_okD(3) [OF ok] by (simp add: fresh entries_agree_def)
      show "view_ok ?s g l'" if g: "view_ok s g l0"
        "l' = l0\<lparr>to_server := to_server l0 @ map snd (filter (\<lambda>p. fst p = g) ps)\<rparr>" for g l0 l'
        using g same_view_ok [of s g l0 ?s] by (simp add: fresh members_def member_addrs_def split: if_splits)
    qed simp
  next
    case (lost f fd l j)
    let ?a = "self_addr (server l)" and ?rest = "remove1 fd (fd_node ?m)"
    have dist: "distinct (fd_node ?m)" using cluster_okD(6) [OF ok] .
    have sl: "server_at (links s) fd = server l" using lost(2) by (simp add: server_at_def)
    have addrs: "member_addrs ?s = remove1 ?a (member_addrs s)"
      using remove1_map [OF node_addrs_inj [OF ok] lost(1)] mem by (simp add: member_addrs_def sl lost)
    have a: "?a \<in> set (member_addrs s)" "CHR ''#'' \<notin> set (fst ?a)"
      using lost(1) sl node_addr_clean(1) [OF ok lost(1)] by (auto simp: member_addrs_def mem intro!: image_eqI [of _ _ fd])
    have good: "addr_ok (fst ?a, snd ?a)" using node_addr_ok [OF ok lost(1)] sl by simp
    have sent: "map snd (filter (\<lambda>p. fst p = g) ps) =
        map notice_text (if g \<in> set ?rest then [Notice (Dead_cache (fst ?a) (snd ?a))] else [])" for g
      unfolding lost(3) posted_once [OF distinct_remove1 [OF dist]] by simp
    show ?thesis
    proof (rule delivered_ok [OF ok])
      show "coord_ok u ?s"
        using mok co by (intro coord_okI) (simp_all add: coord_ok_def lost free ring_exact_deleteNode)
      show "entries_agree (coord ?s) (links s)"
        using cluster_okD(3) [OF ok] by (fastforce simp: entries_agree_def lost in_set_remove1)
      show "view_ok ?s g l'" if g: "links s g = Some l0" "view_ok s g l0"
        "l' = l0\<lparr>to_server := to_server l0 @ map snd (filter (\<lambda>p. fst p = g) ps)\<rparr>" for g l0 l'
      proof (cases "g \<in> set ?rest")
        case True
        then have m: "g \<in> set (fd_node ?m)" using notin_set_remove1 by metis
        have run: "notices_run (self_addr (server l0)) [Notice (Dead_cache (fst ?a) (snd ?a))] (Member (member_addrs s)) =
            Some (Member (remove1 ?a (member_addrs s)))" using a by simp
        have "delivers l0 (Member (member_addrs s))" using g(2) m mem by (simp add: view_ok_def)
        from delivers_append [OF this run] good have "delivers l' (Member (member_addrs ?s))" using g(3) sent True addrs by simp
        moreover have "caches_list ?m g \<noteq> Some (fdmap_new g)" using cluster_okD(5) [OF ok] m by (auto simp: nodes_ok_def)
        ultimately show ?thesis using free by (simp add: view_ok_def lost)
      next
        case False
        then have "l' = l0" using g(3) sent by simp
        moreover have "g \<notin> set (members ?s)" unfolding mem(2) using False by (simp add: lost(4))
        moreover have "caches_list (coord ?s) g = Some (fdmap_new g) \<Longrightarrow> caches_list ?m g = Some (fdmap_new g)"
          by (simp add: lost(4) split: if_splits)
        ultimately show ?thesis using g(2) free by (simp add: view_ok_def)
      qed
    qed simp
  qed
qed

lemma shrink_begin_posts:
  assumes "shrink_begin m = Inr (Some fd, ps, m')" "caches_list m fd = Some e"
  shows "ps = map (\<lambda>f. (f, ''K#'' @ fd_ip_cache e)) (fd_node m)"
  using assms by (auto simp: shrink_begin_def Let_def andThen_eq_Inr_iff node_def post_all_iff split: if_splits)

lemma remove1_last: "distinct xs \<Longrightarrow> xs \<noteq> [] \<Longrightarrow> remove1 (last xs) xs = butlast xs"
  by (cases xs rule: rev_cases) (auto simp: remove1_append)

lemma shrinks_ok:
  assumes ok: "cluster_ok u s" and free: "leaving s = None"
    and h: "shrinkageCapacity x order (coord s) = Inr (ls, Some fd, ps, m')"
  shows "cluster_ok u (s\<lparr>coord := m', links := deliver ps (links s), leaving := Some fd\<rparr>)"
proof -
  let ?m = "coord s" and ?s = "s\<lparr>coord := m', links := deliver ps (links s), leaving := Some fd\<rparr>"
  have b: "shrink_begin ?m = Inr (Some fd, ps, m')" using h by (simp add: shrinkageCapacity_Inr)
  note m' = shrink_begin_Inr [OF b]
  have co: "coord_ok u s" using cluster_okD [OF ok] by simp
  have dist: "distinct (fd_node ?m)" using cluster_okD(6) [OF ok] .
  have fd: "fd \<in> set (fd_node ?m)" using m'(1,2) by simp
  obtain l where l: "links s fd = Some l" "caches_list ?m fd = Some (entry_of fd (server l))" using node_link [OF ok fd] by metis
  let ?a = "self_addr (server l)"
  have sl: "server_at (links s) fd = server l" using l(1) by (simp add: server_at_def)
  have mem: "members s = fd_node ?m" "members ?s = butlast (fd_node ?m)" using free m'(3) by (simp_all add: members_def)
  have rest: "butlast (fd_node ?m) = remove1 fd (fd_node ?m)" using remove1_last [OF dist m'(1)] m'(2) by simp
  have addrs: "member_addrs ?s = remove1 ?a (member_addrs s)"
    using remove1_map [OF node_addrs_inj [OF ok] fd] sl rest by (simp add: member_addrs_def mem)
  have a: "?a \<in> set (member_addrs s)" "CHR ''#'' \<notin> set (fst ?a)"
    using fd sl node_addr_clean(1) [OF ok fd] by (auto simp: member_addrs_def mem intro!: image_eqI [of _ _ fd])
  have good: "addr_ok (fst ?a, snd ?a)" using node_addr_ok [OF ok fd] sl by simp
  have K: "ps = map (\<lambda>g. (g, notice_text (Notice (Kill_cache (fst ?a) (snd ?a))))) (fd_node ?m)"
    using shrink_begin_posts [OF b l(2)] by (simp add: self_addr_def)
  have sent: "map snd (filter (\<lambda>p. fst p = g) ps) =
      map notice_text (if g \<in> set (fd_node ?m) then [Notice (Kill_cache (fst ?a) (snd ?a))] else [])" for g
    unfolding K posted_once [OF dist] by simp
  show ?thesis
  proof (rule delivered_ok [OF ok])
    have "int (length (butlast (fd_node ?m))) = int (length (fd_node ?m)) - 1" using m'(1) by (cases "fd_node ?m" rule: rev_cases) auto
    moreover have "tables_ok u m'" using cluster_okD(2) [OF ok] by (simp add: m'(3) tables_ok_def)
    ultimately show "coord_ok u ?s"
      using co m' mem by (simp add: coord_ok_def ring_ok_deleteNode ring_exact_deleteNode)
    show "entries_agree (coord ?s) (links s)" using cluster_okD(3) [OF ok] by (simp add: entries_agree_def m'(3))
    show "view_ok ?s g l'" if g: "links s g = Some l0" "view_ok s g l0"
      "l' = l0\<lparr>to_server := to_server l0 @ map snd (filter (\<lambda>p. fst p = g) ps)\<rparr>" for g l0 l'
    proof (cases "g \<in> set (fd_node ?m)")
      case True
      let ?v = "if g = fd then Leaving (member_addrs ?s) else Member (member_addrs ?s)"
      have "self_addr (server l0) = ?a \<longleftrightarrow> g = fd" using cluster_okD(4) [OF ok] g(1) l(1) by (auto simp: links_wf_def)
      then have run: "notices_run (self_addr (server l0)) [Notice (Kill_cache (fst ?a) (snd ?a))] (Member (member_addrs s)) = Some ?v"
        using a addrs by auto
      have "delivers l0 (Member (member_addrs s))" using g(2) True mem by (simp add: view_ok_def)
      from delivers_append [OF this run] good have d: "delivers l' ?v" using g(3) sent True by simp
      have "g \<noteq> fd" if "g \<in> set (members ?s)" using that dist unfolding mem rest by (metis distinct_remove1 set_remove1_eq DiffD2 singletonI)
      moreover have "caches_list ?m g \<noteq> Some (fdmap_new g)" using cluster_okD(5) [OF ok] True by (auto simp: nodes_ok_def)
      ultimately show ?thesis using d by (auto simp: view_ok_def m'(3))
    next
      case False
      then have "l' = l0" "g \<noteq> fd" using g(3) sent fd by auto
      moreover have "g \<notin> set (members ?s)" using False mem by (auto dest: in_set_butlastD)
      ultimately show ?thesis using g(2) by (simp add: view_ok_def m'(3))
    qed
  qed simp
qed

lemma leaves_ok:
  assumes ok: "cluster_ok u s" and fd: "leaving s = Some fd"
    and w: "heartBeatDetect now fd (coord s) = Inr (alive, m1)" and f: "shrink_finish fd m1 = Inr m'"
  shows "cluster_ok u (s\<lparr>coord := m', leaving := None\<rparr>)"
proof -
  let ?m = "coord s" and ?s = "s\<lparr>coord := m', leaving := None\<rparr>"
  have co: "coord_ok u s" "tables_ok u ?m" using cluster_okD [OF ok] by simp_all
  then have last: "fd_node ?m \<noteq> []" "fd = last (fd_node ?m)" using fd by (simp_all add: coord_ok_def)
  obtain g where m1: "m1 = ?m\<lparr>cacheAddrMap := g\<rparr>" using heartBeatDetect_Inr [OF w] .
  then have "tables_ok u m1" using co(2) by (simp add: tables_ok_def)
  from shrink_finish_ok [OF this _ _ f] last m1
  have t: "tables_ok u m'" "fd_node m' = butlast (fd_node ?m)" "cacheAddrHash m' = cacheAddrHash ?m" by simp_all
  have in_nodes: "fd \<in> set (fd_node ?m)" using last by simp
  obtain l where "links s fd = Some l" "caches_list ?m fd = Some (entry_of fd (server l))"
    using node_link [OF ok in_nodes] by metis
  then have "shrink_finish fd m1 = Inr (forget fd (m1\<lparr>fd_node := butlast (fd_node m1)\<rparr>))"
    using last(1) by (simp add: m1 shrink_finish_def node_def)
  then have c: "caches_list m' = (caches_list ?m)(fd := None)" "rcache m' = rcache ?m" using f by (auto simp: m1)
  have mem: "members ?s = members s" by (simp add: members_def t(2) fd)
  have addrs: "member_addrs ?s = member_addrs s" by (simp add: member_addrs_def mem)
  have "fd \<notin> set (butlast (fd_node ?m))"
    using cluster_okD(6) [OF ok] last by (cases "fd_node ?m" rule: rev_cases) auto
  then have nodes: "set (fd_node m') = set (fd_node ?m) - {fd}"
    using t(2) last by (cases "fd_node ?m" rule: rev_cases) auto
  have "coord_ok u ?s" using co(1) t c(2) mem by (simp add: coord_ok_def)
  moreover have "entries_agree m' (links s)" using cluster_okD(3) [OF ok] by (simp add: entries_agree_def c(1) nodes)
  moreover have "view_ok ?s g l0" if "view_ok s g l0" for g l0
    using that by (auto simp: view_ok_def mem addrs c(1))
  ultimately show ?thesis using ok by (simp add: cluster_ok_def)
qed

lemma connects_ok:
  assumes ok: "cluster_ok u s" and fd: "fd \<notin> u" "0 < fd"
    and f: "field_ok CHR ''#'' ip" "field_ok CHR ''#'' cp" "field_ok CHR ''#'' pp"
    and fresh: "\<forall>l \<in> ran (links s). self_addr (server l) \<noteq> (ip, pp)"
  shows "cluster_ok (insert fd u) (s\<lparr>coord := accept_cache fd (coord s),
    links := (links s)(fd \<mapsto> \<lparr>server = Cache_new 10 ''P'' ip cp pp, to_server = [], to_master = []\<rparr>)\<rparr>)"
proof -
  let ?l = "\<lparr>server = Cache_new 10 ''P'' ip cp pp, to_server = [], to_master = []\<rparr>"
  let ?s = "s\<lparr>coord := accept_cache fd (coord s), links := (links s)(fd \<mapsto> ?l)\<rparr>"
  have co: "coord_ok u s" "tables_ok u (coord s)" and lw: "links_wf u (links s)" using cluster_okD [OF ok] by simp_all
  have out: "fd \<notin> set (fd_node (coord s))"
  proof
    assume "fd \<in> set (fd_node (coord s))"
    then obtain l where "links s fd = Some l" using node_link [OF ok] by metis
    with lw fd(1) show False by (simp add: links_wf_def)
  qed
  have mem: "members ?s = members s" by (simp add: members_def accept_cache_def)
  have "f \<noteq> fd" if "f \<in> set (members s)" for f using that out members_nodes by blast
  then have addrs: "member_addrs ?s = member_addrs s" by (auto simp: member_addrs_def mem server_at_def)
  have u: "finite u" "card u \<le> card (insert fd u)" using co(1) by (simp_all add: coord_ok_def card_insert_le)
  have "shards_apart (int (card u)) 100" if "shards_apart (int (card (insert fd u))) 100"
    by (rule shards_apart_mono [OF that]) (use u(2) in simp)
  then have "coord_ok (insert fd u) ?s"
    using co tables_accept [OF co(2) fd] mem by (simp add: coord_ok_def) (simp add: accept_cache_def)
  moreover have "entries_agree (coord ?s) (links ?s)"
    using cluster_okD(3) [OF ok] by (fastforce simp: entries_agree_def accept_cache_def)
  moreover have "links_wf (insert fd u) (links ?s)"
  proof -
    have "link_wf ?l" using f by (simp add: link_wf_def server_wf_def Cache_new_def)
    moreover have "self_addr (server ?l) = (ip, pp)" by (simp add: self_addr_def Cache_new_def)
    moreover have "self_addr (server l) \<noteq> (ip, pp)" if "links s g = Some l" for g l using fresh that by (auto simp: ran_def)
    ultimately show ?thesis using lw by (simp add: links_wf_def) metis
  qed
  moreover have "view_ok ?s g l" if g: "links ?s g = Some l" for g l
  proof (cases "g = fd")
    case True
    have "g \<notin> set (members ?s)" "leaving ?s \<noteq> Some g" unfolding mem using True out members_nodes co(1) by (auto simp: coord_ok_def)
    moreover have "to_server l = []" "view_of (server l) = Waiting" using True g by (auto simp: view_of_def Cache_new_def)
    ultimately show ?thesis unfolding view_ok_def by blast
  next
    case False
    with g ok have "view_ok s g l" by (simp add: cluster_ok_def)
    then show ?thesis using False by (simp add: view_ok_def mem addrs) (simp add: accept_cache_def)
  qed
  ultimately show ?thesis by (simp add: cluster_ok_def)
qed

lemma goes_ok:
  assumes ok: "cluster_ok u s" and gone: "caches_list (coord s) fd = None"
  shows "cluster_ok u (s\<lparr>links := (links s)(fd := None)\<rparr>)"
proof -
  let ?s = "s\<lparr>links := (links s)(fd := None)\<rparr>"
  have mem: "members ?s = members s" by (simp add: members_def)
  have "f \<noteq> fd" if "f \<in> set (members s)" for f
    using that gone cluster_okD(5) [OF ok] members_nodes by (fastforce simp: nodes_ok_def)
  then have addrs: "member_addrs ?s = member_addrs s" by (auto simp: member_addrs_def mem server_at_def)
  have "coord_ok u ?s" using cluster_okD(1) [OF ok] mem by (simp add: coord_ok_def)
  moreover have "entries_agree (coord ?s) (links ?s)" using cluster_okD(3) [OF ok] gone by (fastforce simp: entries_agree_def)
  moreover have "links_wf u (links ?s)" by (rule links_wf_mono [OF cluster_okD(4) [OF ok]]) (auto split: if_splits)
  moreover have "view_ok ?s g l" if "links ?s g = Some l" for g l
    using that ok by (auto simp: cluster_ok_def view_ok_def mem addrs split: if_splits)
  ultimately show ?thesis by (simp add: cluster_ok_def)
qed

section \<open>All steps\<close>

lemma hears_ok:
  assumes ok: "cluster_ok u s" and l: "links s fd = Some l" "to_master l = h # hs"
    and free: "leaving s = None \<or> caches_list (coord s) fd \<noteq> Some (fdmap_new fd)"
    and r: "start_cache fd h now (coord s) = Inr (ps, m')"
  shows "cluster_ok u (s\<lparr>coord := m', links := deliver ps ((links s)(fd \<mapsto> l\<lparr>to_master := hs\<rparr>))\<rparr>)"
proof -
  let ?l = "l\<lparr>to_master := hs\<rparr>" and ?s = "s\<lparr>links := (links s)(fd \<mapsto> l\<lparr>to_master := hs\<rparr>)\<rparr>"
  have wf: "link_wf l" using cluster_okD(4) [OF ok] l(1) by (simp add: links_wf_def)
  have "cluster_ok u ?s" by (rule relink [OF ok l(1)]) (use wf l(2) in \<open>auto simp: link_wf_def delivers_def\<close>)
  moreover have "links ?s fd = Some ?l" "coord ?s = coord s" "leaving ?s = leaving s" by simp_all
  moreover have "start_cache fd (heart_message (server ?l)) now (coord ?s) = Inr (ps, m')"
    using r wf l(2) by (simp add: link_wf_def)
  moreover obtain e where "caches_list (coord s) fd = Some e"
    using r wf l(2) by (auto simp: link_wf_def start_cache_def heart_message_def andThen_eq_Inr_iff)
  then have "caches_list (coord s) fd = Some (fdmap_new fd) \<or> caches_list (coord s) fd = Some (entry_of fd (server l))"
    using cluster_okD(3) [OF ok] l(1) unfolding entries_agree_def by (metis option.inject)
  ultimately show ?thesis using free joined_ok [of u ?s fd ?l now ps m'] heard_again_ok [of u ?s fd ?l now ps m'] by auto
qed

lemma boot_ok: "cluster_ok {} \<lparr>coord = Master_Start, links = Map.empty, leaving = None\<rparr>"
proof -
  have "cacheAddrHash Master_Start = empty_ring 100" by (simp add: Master_Start_def empty_ring_def)
  then have "coord_ok {} \<lparr>coord = Master_Start, links = Map.empty, leaving = None\<rparr>"
    using master_ok_start ring_exact_empty [of 100] by (intro coord_okI) (simp_all add: Master_Start_def)
  then show ?thesis by (simp add: cluster_ok_def entries_agree_def links_wf_def Master_Start_def)
qed

lemma cluster_reach_ok: "cluster_reach u s \<Longrightarrow> cluster_ok u s"
proof (induction rule: cluster_reach.induct)
  case boot
  show ?case by (rule boot_ok)
next
  case (connects u s fd ip cp pp)
  from connects.IH connects.hyps(2-) show ?case by (rule connects_ok)
qed (blast intro: beats_ok works_ok hears_ok detects_ok shrinks_ok leaves_ok goes_ok)+

end
