(* ===== verification/Cluster_Properties.thy ===== *)
theory Cluster_Properties
  imports Cluster_Facts
begin

text \<open>
  What holds in every state the coordinator and its primaries can reach together: the lists of
  the members agree with the coordinator's tables once the messages on their way have arrived,
  every message is understood, and a key is routed to one server by everybody.
\<close>

section \<open>Members and the messages on their way\<close>

lemma member_delivers:
  assumes ok: "cluster_ok u s" and fd: "fd \<in> set (fd_node (coord s))" and l: "links s fd = Some l"
  obtains v where "delivers l v" "v = (if leaving s = Some fd then Leaving (member_addrs s) else Member (member_addrs s))"
proof -
  have "fd \<in> set (members s)" if "leaving s \<noteq> Some fd"
  proof (cases "leaving s")
    case None
    with fd show ?thesis by (simp add: members_def)
  next
    case (Some g)
    with cluster_okD(1) [OF ok] have "fd_node (coord s) = butlast (fd_node (coord s)) @ [g]" by (simp add: coord_ok_def)
    then have "fd \<in> set (butlast (fd_node (coord s)) @ [g])" using fd by simp
    with that Some show ?thesis by (simp add: members_def)
  qed
  then have "delivers l (if leaving s = Some fd then Leaving (member_addrs s) else Member (member_addrs s))"
    using ok l by (auto simp: cluster_ok_def view_ok_def)
  with that show thesis by blast
qed

lemma member_list:
  assumes ok: "cluster_ok u s" and fd: "fd \<in> set (fd_node (coord s))" and l: "links s fd = Some l"
  obtains c' where "receive_messages (to_server l) (server l) = Inr c'" "cache_list c' = member_addrs s"
    "status c' = ''K'' \<longleftrightarrow> leaving s = Some fd"
proof -
  obtain v where v: "delivers l v" "v = (if leaving s = Some fd then Leaving (member_addrs s) else Member (member_addrs s))"
    by (rule member_delivers [OF ok fd l])
  have "server_wf (server l)" using cluster_okD(4) [OF ok] l by (simp add: links_wf_def link_wf_def)
  with v(1) obtain c' where "receive_messages (to_server l) (server l) = Inr c'" "view_of c' = v"
    unfolding delivers_def using notices_received by metis
  with v(2) that show thesis by (auto simp: view_of_def split: if_splits)
qed

text \<open>A first history: one primary connects, sends a heartbeat, and the coordinator hears it.\<close>

definition demo_cluster :: Cluster where
  "demo_cluster = \<lparr>coord = demo_master, links = [5 \<mapsto> \<lparr>server = Cache_new 10 ''P'' ''a'' ''1'' ''2'',
     to_server = [''a#2'', ''N#a#2'', ''P#None''], to_master = []\<rparr>], leaving = None\<rparr>"

lemma demo_heart: "heart_message (Cache_new 10 ''P'' ''a'' ''1'' ''2'') = ''x#a#1#2#P''"
  by (simp add: heart_message_def Cache_new_def)

lemma demo_cluster_reach: "cluster_reach {5} demo_cluster"
proof -
  let ?c = "Cache_new 10 ''P'' ''a'' ''1'' ''2''"
  let ?l = "\<lambda>out. \<lparr>server = ?c, to_server = [], to_master = out\<rparr>"
  let ?s = "\<lambda>out. \<lparr>coord = accept_cache 5 Master_Start, links = [5 \<mapsto> ?l out], leaving = None\<rparr>"
  have "cluster_reach {5} (?s [])"
    using connects [OF boot, of 5 "''a''" "''1''" "''2''"] by (simp add: field_ok_def)
  from beats [OF this, of 5 "?l []" Would_block "[]"] have "cluster_reach {5} (?s [heart_message ?c])"
    using Heartbeat_idle [of ?c] by simp
  moreover have d: "deliver [(5, ''a#2''), (5, ''N#a#2''), (5, ''P#None'')] [5 \<mapsto> ?l []] = links demo_cluster"
    by (rule ext) (simp add: deliver_def demo_cluster_def)
  ultimately show ?thesis using hears [of "{5}" "?s [heart_message ?c]" 5 "?l [heart_message ?c]" "heart_message ?c" "[]" 100]
    demo_join unfolding demo_heart by (simp add: demo_cluster_def)
qed

lemma demo_link:
  "5 \<in> set (fd_node (coord demo_cluster))" "links demo_cluster 5 = Some \<lparr>server = Cache_new 10 ''P'' ''a'' ''1'' ''2'',
     to_server = [''a#2'', ''N#a#2'', ''P#None''], to_master = []\<rparr>"
  "members demo_cluster = [5]" "map (cache_addr (coord demo_cluster)) [5] = [''a#2'']"
  by (simp_all add: demo_cluster_def demo_master_def demo_entry_def members_def cache_addr_def)

section \<open>Routing\<close>

lemma member_routes:
  assumes ok: "cluster_ok u s" and apart: "shards_apart (int (card u)) 100" and list: "cache_list c' = member_addrs s"
    and some: "members s \<noteq> []"
  obtains g l' where "g \<in> set (members s)" "links s g = Some l'" "peer_of c' key = self_addr (server l')"
    "handleClientMessage key (coord s) = Inr (local_cache_IP (server l') @ '':'' @ port_for_client (server l'))"
proof -
  let ?ns = "fd_node (coord s)" and ?ring = "cacheAddrHash (coord s)"
  have co: "ring_exact ?ring" "ch_nodes ?ring = int (length (members s))" "ch_v_nodes ?ring = 100"
    using cluster_okD(1) [OF ok] apart by (simp_all add: coord_ok_def)
  have len: "length (cache_list c') = length (members s)" by (simp add: list member_addrs_def)
  have le: "length (members s) \<le> length ?ns" by (simp add: members_def)
  have "length ?ns \<le> card u" using card_nodes cluster_okD(1) [OF ok] by (simp add: coord_ok_def)
  with le len have "int (length (cache_list c')) \<le> int (card u)" by simp
  then have "ring_exact (local_ring c')"
    using ring_exact_add_nodes shards_apart_mono [OF apart] by (simp add: local_ring_def add_nodes_initialize [symmetric])
  moreover have "ch_v_nodes (local_ring c') = 100" by (simp add: local_ring_def initialize_def)
  ultimately have "key2Index (local_ring c') = key2Index ?ring"
    using co len local_ring_ok(2) [of c'] by (intro ring_exact_unique) simp_all
  moreover have "cache_list c' \<noteq> []" using some len by auto
  then obtain i where i: "server_index (local_ring c') key = Inr i" "i < length (cache_list c')" by (rule local_ring_index)
  ultimately have idx: "server_index ?ring key = Inr i" by (simp add: server_index_def GetServer_def)
  have im: "i < length (members s)" "i < length ?ns" using i(2) len le by simp_all
  then have g: "?ns ! i = members s ! i" "?ns ! i \<in> set ?ns" by (auto simp: members_def nth_butlast split: if_splits)
  obtain l' where l': "links s (?ns ! i) = Some l'" "caches_list (coord s) (?ns ! i) = Some (entry_of (?ns ! i) (server l'))" "link_wf l'"
    using node_link [OF ok g(2)] by metis
  have "handleClientMessage key (coord s) = Inr (local_cache_IP (server l') @ '':'' @ port_for_client (server l'))"
    using handle_client_addr [OF idx im(2) l'(2)] l'(3) by (simp add: link_wf_def)
  moreover have "peer_of c' key = self_addr (server l')"
    using i list im(1) g(1) l'(1) by (simp add: peer_of_def member_addrs_def server_at_def)
  ultimately show thesis using that l'(1) g(1) im(1) nth_mem by metis
qed

lemma heard_by_coordinator:
  assumes ok: "cluster_ok u s" and fd: "fd \<in> set (fd_node (coord s))" and l: "links s fd = Some l"
  shows "\<exists>m'. start_cache fd (heart_message (server l)) now (coord s) = Inr ([(fd, ''P#None'')], m')"
proof -
  have e: "caches_list (coord s) fd = Some (entry_of fd (server l))" and wf: "link_wf l"
    using node_link [OF ok fd] l by (metis option.inject)+
  with heartbeat_alone_total [OF e wf refl] show ?thesis by blast
qed

section \<open>Properties\<close>

text \<open>
  C1. Agreement on the members, in a cluster of primaries with distinct addresses whose descriptors are
  not used twice and in which, while one server leaves, no other joins and the failure detector makes no
  pass (theorem \<open>detector_races\<close> shows what those lead to): in every state such a cluster can reach, in
  whatever order connections, heartbeats, deliveries, requests, passes of the detector and scale-ins
  follow each other, each server of \<open>fd_node\<close> has, once it has received the messages on their way to it,
  exactly the coordinator's list of members, in the same order; and it is told to leave if and only if
  it is the one that is leaving.
\<close>

theorem cluster_views_agree:
  assumes "cluster_reach u s" "fd \<in> set (fd_node (coord s))" "links s fd = Some l"
  shows "\<exists>c'. receive_messages (to_server l) (server l) = Inr c' \<and>
    map (\<lambda>(a, p). a @ ''#'' @ p) (cache_list c') = map (cache_addr (coord s)) (members s) \<and>
    (status c' = ''K'' \<longleftrightarrow> leaving s = Some fd)"
proof -
  have ok: "cluster_ok u s" using cluster_reach_ok [OF assms(1)] .
  obtain c' where "receive_messages (to_server l) (server l) = Inr c'" "cache_list c' = member_addrs s"
    "status c' = ''K'' \<longleftrightarrow> leaving s = Some fd" by (rule member_list [OF ok assms(2,3)])
  with map_addrs [OF ok members_nodes] show ?thesis by (auto simp: member_addrs_def)
qed

theorem cluster_views_agree_witness:
  "\<exists>c'. receive_messages [''a#2'', ''N#a#2'', ''P#None''] (Cache_new 10 ''P'' ''a'' ''1'' ''2'') = Inr c' \<and>
     map (\<lambda>(a, p). a @ ''#'' @ p) (cache_list c') = [''a#2'']"
proof -
  let ?l = "\<lparr>server = Cache_new 10 ''P'' ''a'' ''1'' ''2'', to_server = [''a#2'', ''N#a#2'', ''P#None''], to_master = []\<rparr>"
  have "\<exists>c'. receive_messages (to_server ?l) (server ?l) = Inr c' \<and>
      map (\<lambda>(a, p). a @ ''#'' @ p) (cache_list c') = map (cache_addr (coord demo_cluster)) (members demo_cluster)"
    using cluster_views_agree [OF demo_cluster_reach demo_link(1,2)] by blast
  then show ?thesis unfolding demo_link(3,4) Link.select_convs .
qed

text \<open>
  C16. Messages are well typed: in every reachable state, what is on its way to a server of
  \<open>fd_node\<close> is a sequence of notices of the protocol (a list of servers, a new server, a server that
  leaves or is dead, the role of a primary) whose addresses are pairs of fields without a separator, none
  of them empty, and each of which is one that the server may receive at that point: the list of servers
  first and only once, and no server taken off the list that is not in it.  What is on its way from the
  server is its heartbeat, and neither side goes wrong on the next message: the server receives it and
  the coordinator answers it.
\<close>

theorem cluster_messages_typed:
  assumes "cluster_reach u s" "fd \<in> set (fd_node (coord s))" "links s fd = Some l"
  shows "(\<exists>ns v. to_server l = map notice_text ns \<and> (\<forall>n \<in> set ns. notice_ok n) \<and>
      notices_run (self_addr (server l)) ns (view_of (server l)) = Some v) \<and>
    set (to_master l) \<subseteq> {heart_message (server l)} \<and>
    (\<forall>m rest. to_server l = m # rest \<longrightarrow> (\<exists>c'. Heartbeat (Received m) [] (server l) = Inr (heart_message (server l), c'))) \<and>
    (\<forall>h \<in> set (to_master l). \<exists>m'. start_cache fd h now (coord s) = Inr ([(fd, ''P#None'')], m'))"
proof (intro conjI allI impI ballI)
  have ok: "cluster_ok u s" using cluster_reach_ok [OF assms(1)] .
  have wf: "link_wf l" using cluster_okD(4) [OF ok] assms(3) by (simp add: links_wf_def)
  obtain v where d: "delivers l v" by (rule member_delivers [OF ok assms(2,3)])
  then show "\<exists>ns v. to_server l = map notice_text ns \<and> (\<forall>n \<in> set ns. notice_ok n) \<and>
      notices_run (self_addr (server l)) ns (view_of (server l)) = Some v" unfolding delivers_def by blast
  show out: "set (to_master l) \<subseteq> {heart_message (server l)}" using wf by (simp add: link_wf_def)
  show "\<exists>m'. start_cache fd h now (coord s) = Inr ([(fd, ''P#None'')], m')" if "h \<in> set (to_master l)" for h
    using that out heard_by_coordinator [OF ok assms(2,3)] by auto
  show "\<exists>c'. Heartbeat (Received m) [] (server l) = Inr (heart_message (server l), c')" if "to_server l = m # rest" for m rest
    using delivers_next [OF d that] wf by (simp add: link_wf_def)
qed

theorem cluster_messages_typed_witness:
  "\<exists>h c'. Heartbeat (Received ''a#2'') [] (Cache_new 10 ''P'' ''a'' ''1'' ''2'') = Inr (h, c')"
proof -
  note t = cluster_messages_typed [OF demo_cluster_reach demo_link(1,2)]
  from conjunct1 [OF conjunct2 [OF conjunct2 [OF t]]] show ?thesis unfolding Link.select_convs by blast
qed

text \<open>
  C8. Agreement on the routing: in every reachable state, a server that has received the messages
  on their way to it sends any key, when it hands over its entries, to the same server whose
  address the coordinator gives to the clients for that key, also while a server is leaving, provided
  that no two servers share a position on the ring.
\<close>

theorem cluster_routing_agrees:
  assumes "cluster_reach u s" "fd \<in> set (fd_node (coord s))" "links s fd = Some l" "members s \<noteq> []"
    "shards_apart (int (card u)) 100"
  shows "\<exists>c' g l'. receive_messages (to_server l) (server l) = Inr c' \<and> g \<in> set (members s) \<and> links s g = Some l' \<and>
    peer_of c' key = self_addr (server l') \<and>
    handleClientMessage key (coord s) = Inr (local_cache_IP (server l') @ '':'' @ port_for_client (server l'))"
proof -
  have ok: "cluster_ok u s" using cluster_reach_ok [OF assms(1)] .
  obtain c' where c': "receive_messages (to_server l) (server l) = Inr c'" "cache_list c' = member_addrs s"
    by (rule member_list [OF ok assms(2,3)])
  obtain g l' where "g \<in> set (members s)" "links s g = Some l'" "peer_of c' key = self_addr (server l')"
    "handleClientMessage key (coord s) = Inr (local_cache_IP (server l') @ '':'' @ port_for_client (server l'))"
    by (rule member_routes [OF ok assms(5) c'(2) assms(4)])
  with c'(1) show ?thesis by blast
qed

theorem cluster_routing_agrees_witness:
  "\<exists>c'. receive_messages [''a#2'', ''N#a#2'', ''P#None''] (Cache_new 10 ''P'' ''a'' ''1'' ''2'') = Inr c' \<and>
     peer_of c' ''k'' = (''a'', ''2'') \<and> handleClientMessage ''k'' demo_master = Inr ''a:1''"
  using cluster_routing_agrees [OF demo_cluster_reach, of 5 _ "''k''"] shards_apart_one [of 100]
  by (auto simp: demo_cluster_def demo_master_def members_def self_addr_def Cache_new_def)

end
