(* ===== verification/Cluster_Requests.thy ===== *)
theory Cluster_Requests
  imports Cluster_Properties
begin

text \<open>
  The requests of the clients in a cluster: the coordinator names the server of each key, and the
  \<open>Client_chat\<close> of that server answers.  Together the servers implement one recency list per member,
  and what has been written is read back, by whichever client.
\<close>

section \<open>Requests\<close>

text \<open>The descriptor behind the address that the coordinator gives for a key\<close>

definition route :: "string \<Rightarrow> Cluster \<Rightarrow> int result" where
  "route key s = andThen (server_index (cacheAddrHash (coord s)) key) (vec_at (fd_node (coord s)))"

definition serve :: "int \<Rightarrow> string \<Rightarrow> Cluster \<Rightarrow> (frame \<times> Cluster) result" where
  "serve g req s =
     andThen (deref_opt (links s g)) (\<lambda>l.
     andThen (Client_chat (Received req) (server l)) (\<lambda>(reply, c').
       Inr (case reply of Some b \<Rightarrow> b | None \<Rightarrow> [], s\<lparr>links := (links s)(g \<mapsto> l\<lparr>server := c'\<rparr>)\<rparr>)))"

fun requests :: "string list \<Rightarrow> Cluster \<Rightarrow> (frame list \<times> Cluster) result" where
  "requests [] s = Inr ([], s)"
| "requests (r # rs) s =
     andThen (route (req_key r) s) (\<lambda>g.
     andThen (serve g r s) (\<lambda>(b, s1).
     andThen (requests rs s1) (\<lambda>(bs, s2). Inr (b # bs, s2))))"

section \<open>The abstract stores\<close>

text \<open>
  One recency list for each member, and the value that fills its send buffer behind the next reply:
  indeterminate until the member has answered once.  \<open>to\<close> routes a key, \<open>addr\<close> is the address in the
  replies.
\<close>

type_synonym stores = "int \<Rightarrow> (string, string) recency \<times> char option"

definition store_step :: "string \<Rightarrow> (string, string) recency \<times> char option \<Rightarrow> (string, string) recency \<times> char option" where
  "store_step req st = (lru_step 10 (req_op req) (fst st), Some NUL)"

fun spec_requests :: "(string \<Rightarrow> int) \<Rightarrow> (int \<Rightarrow> string) \<Rightarrow> string list \<Rightarrow> stores \<Rightarrow> frame list \<times> stores" where
  "spec_requests to addr [] A = ([], A)"
| "spec_requests to addr (r # rs) A =
     (let g = to (req_key r);
          (bs, A') = spec_requests to addr rs (A(g := store_step r (A g)))
      in (padded (snd (A g)) (spec_reply (addr g) (fst (A g)) r) # bs, A'))"

definition stores_are :: "nat \<Rightarrow> Cluster \<Rightarrow> stores \<Rightarrow> bool" where
  "stores_are b s A \<longleftrightarrow> (\<forall>g \<in> set (members s). \<exists>l. links s g = Some l \<and> lru_repr (MainCache (server l)) (fst (A g)) \<and>
     send_buff_client (server l) = (\<lambda>_. snd (A g)) \<and> lcapacity (MainCache (server l)) = 10 \<and>
     vals_bounded b (fst (A g)) \<and> 2 * b + length (local_addr (server l)) + 10 \<le> BUF_SIZE)"

definition target :: "Cluster \<Rightarrow> string \<Rightarrow> int" where
  "target s key = (case route key s of Inr g \<Rightarrow> g | Inl _ \<Rightarrow> 0)"

definition client_addr :: "Cluster \<Rightarrow> int \<Rightarrow> string" where
  "client_addr s g = local_addr (server_at (links s) g)"

lemma spec_requests_append:
  "spec_requests to addr (rs @ rs') A =
     (let (bs, A1) = spec_requests to addr rs A; (bs', A2) = spec_requests to addr rs' A1 in (bs @ bs', A2))"
  by (induction rs arbitrary: A) (auto simp: Let_def split: prod.splits)

text \<open>Each store sees the requests that are routed to it.\<close>

lemma spec_requests_store:
  "fst (snd (spec_requests to addr rs A) g) = lru_run 10 (map req_op (filter (\<lambda>r. to (req_key r) = g) rs)) (fst (A g))"
  by (induction rs arbitrary: A) (simp_all add: Let_def case_prod_beta store_step_def)

lemma spec_requests_cleared: "snd (A g) = Some NUL \<Longrightarrow> snd (snd (spec_requests to addr rs A) g) = Some NUL"
  by (induction rs arbitrary: A) (simp_all add: Let_def case_prod_beta store_step_def)

section \<open>Every server has a store\<close>

definition server_good :: "Cache \<Rightarrow> bool" where
  "server_good c \<longleftrightarrow> store_ok (MainCache c) \<and> buffer_ok c"

lemma keeps_good: "keeps c c' \<Longrightarrow> server_good c \<Longrightarrow> server_good c'"
  by (simp add: keeps_def server_good_def)

lemma server_good_new: "server_good (Cache_new n st ip cp pp)"
proof -
  have "buffer_ok (Cache_new n st ip cp pp)" by (auto simp: buffer_ok_def Cache_new_def)
  then show ?thesis using store_ok_new by (simp add: server_good_def)
qed

lemma cluster_good: "cluster_reach u s \<Longrightarrow> links s g = Some l \<Longrightarrow> server_good (server l)"
proof (induction arbitrary: g l rule: cluster_reach.induct)
  case (connects u s fd ip cp pp)
  then show ?case using server_good_new by (auto split: if_splits)
next
  case (beats u s fd l0 r rest h c')
  have "server_good (server l0)" using beats.IH [OF beats.hyps(2)] .
  then have "server_good c'" by (rule keeps_good [OF keeps_Heartbeat [OF beats.hyps(4)]])
  with beats.prems beats.IH show ?case by (auto split: if_splits)
next
  case (works u s fd l0 r reply c' net order received out)
  have "keeps (server l0) c'" using works.hyps(3) keeps_Client_chat keeps_cache_pass by blast
  then have "server_good c'" using works.IH [OF works.hyps(2)] by (rule keeps_good)
  with works.prems works.IH show ?case by (auto split: if_splits)
next
  case (hears u s fd l0 h hs now ps m')
  then show ?case by (auto simp: deliver_sel split: if_splits)
next
  case (detects u s now order ps m')
  then show ?case by (auto simp: deliver_sel)
next
  case (shrinks u s x order ls fd ps m')
  then show ?case by (auto simp: deliver_sel)
qed (auto split: if_splits)

lemma cluster_stores: "cluster_reach u s \<Longrightarrow> links s g = Some l \<Longrightarrow> store_ok (MainCache (server l))"
  using cluster_good by (auto simp: server_good_def)

section \<open>Routing and serving\<close>

lemma route_total:
  assumes ok: "cluster_ok u s" and some: "members s \<noteq> []" and apart: "shards_apart (int (card u)) 100"
  obtains g l where "route key s = Inr g" "g \<in> set (members s)" "links s g = Some l"
    "handleClientMessage key (coord s) = Inr (local_addr (server l))"
proof -
  let ?ring = "cacheAddrHash (coord s)" and ?ns = "fd_node (coord s)"
  have r: "ring_ok ?ring" "ch_nodes ?ring = int (length (members s))" "ch_v_nodes ?ring = 100"
    using cluster_okD(1) [OF ok] by (simp_all add: coord_ok_def)
  have "ring_exact ?ring" using cluster_okD(1) [OF ok] apart by (simp add: coord_ok_def)
  moreover have "0 < ch_nodes ?ring" using r(2) some by simp
  ultimately have "map_of (key2Index ?ring) (shard_key 0 0) \<noteq> None" using r(3) by (auto simp: ring_exact_def)
  then have "key2Index ?ring \<noteq> []" by auto
  with r(1) obtain i where i: "server_index ?ring key = Inr i" using server_index_total unfolding ring_ok_def by blast
  have im: "i < length (members s)" using server_index_bound [OF r(1) i] r(2) by simp
  then have n: "i < length ?ns" "?ns ! i = members s ! i" by (auto simp: members_def nth_butlast split: if_splits)
  then have g: "?ns ! i \<in> set ?ns" using nth_mem by blast
  obtain l where l: "links s (?ns ! i) = Some l" "caches_list (coord s) (?ns ! i) = Some (entry_of (?ns ! i) (server l))" "link_wf l"
    using node_link [OF ok g] by metis
  have "handleClientMessage key (coord s) = Inr (local_cache_IP (server l) @ '':'' @ port_for_client (server l))"
    using handle_client_addr [OF i n(1) l(2)] l(3) by (simp add: link_wf_def)
  moreover have "route key s = Inr (?ns ! i)" using i n(1) by (simp add: route_def vec_at_def)
  ultimately show thesis using that l(1) n(2) im by (simp add: local_addr_def)
qed

lemma serve_step:
  assumes r: "cluster_reach u s" and a: "stores_are b s A" and g: "g \<in> set (members s)" and m: "length req \<le> b"
  obtains s' where "serve g req s = Inr (padded (snd (A g)) (spec_reply (client_addr s g) (fst (A g)) req), s')"
    "cluster_reach u s'" "stores_are b s' (A(g := store_step req (A g)))" "coord s' = coord s" "leaving s' = leaving s"
    "client_addr s' = client_addr s"
proof -
  obtain l where l: "links s g = Some l" "lru_repr (MainCache (server l)) (fst (A g))" "lcapacity (MainCache (server l)) = 10"
    "vals_bounded b (fst (A g))" "2 * b + length (local_addr (server l)) + 10 \<le> BUF_SIZE"
    "send_buff_client (server l) = (\<lambda>_. snd (A g))"
    using a g by (auto simp: stores_are_def)
  obtain L where L: "Client_chat (Received req) (server l) =
      Inr (Some (padded (snd (A g)) (spec_reply (local_addr (server l)) (fst (A g)) req)),
        (server l)\<lparr>MainCache := L, kv_update_flag := True, kv_to_replica := req, send_buff_client := bzero\<rparr>)"
    "lru_repr L (lru_step (lcapacity (MainCache (server l))) (req_op req) (fst (A g)))"
    "lcapacity L = lcapacity (MainCache (server l))"
    by (rule chat_step_padded [OF l(2,4) m l(5,6)])
  let ?c = "(server l)\<lparr>MainCache := L, kv_update_flag := True, kv_to_replica := req, send_buff_client := bzero\<rparr>"
  let ?s = "s\<lparr>links := (links s)(g \<mapsto> l\<lparr>server := ?c\<rparr>)\<rparr>"
  have addr: "local_addr ?c = local_addr (server l)" by (simp add: local_addr_def)
  show thesis
  proof (rule that)
    show "serve g req s = Inr (padded (snd (A g)) (spec_reply (client_addr s g) (fst (A g)) req), ?s)"
      using l(1) L(1) by (simp add: serve_def client_addr_def server_at_def)
    show "cluster_reach u ?s" using works [OF r l(1) disjI1 [OF L(1)]] .
    have "vals_bounded b (lru_step 10 (req_op req) (fst (A g)))" using vals_bounded_step [OF l(4) m] .
    with a L(2,3) l(3,5) addr show "stores_are b ?s (A(g := store_step req (A g)))"
      by (auto simp: stores_are_def members_def store_step_def bzero_def)
    show "client_addr ?s = client_addr s" using l(1) addr by (auto simp: client_addr_def server_at_def fun_eq_iff)
  qed simp_all
qed

lemma route_cong: "coord s' = coord s \<Longrightarrow> route key s' = route key s \<and> target s' = target s"
  by (simp add: route_def target_def fun_eq_iff)

lemma requests_refine:
  assumes "cluster_reach u s" "members s \<noteq> []" "shards_apart (int (card u)) 100" "stores_are b s A" "\<forall>r \<in> set rs. length r \<le> b"
  shows "\<exists>s'. requests rs s = Inr (fst (spec_requests (target s) (client_addr s) rs A), s') \<and>
    stores_are b s' (snd (spec_requests (target s) (client_addr s) rs A)) \<and> cluster_reach u s' \<and> coord s' = coord s"
  using assms
proof (induction rs arbitrary: s A)
  case (Cons r rs)
  have ok: "cluster_ok u s" using cluster_reach_ok [OF Cons.prems(1)] .
  obtain g l where g: "route (req_key r) s = Inr g" "g \<in> set (members s)"
    by (rule route_total [OF ok Cons.prems(2,3)])
  let ?A = "A(g := store_step r (A g))"
  obtain s1 where s1: "serve g r s = Inr (padded (snd (A g)) (spec_reply (client_addr s g) (fst (A g)) r), s1)" "cluster_reach u s1" "stores_are b s1 ?A"
    "coord s1 = coord s" "leaving s1 = leaving s" "client_addr s1 = client_addr s"
    using serve_step [OF Cons.prems(1,4) g(2), of r] Cons.prems(5) by auto
  have "members s1 \<noteq> []" using Cons.prems(2) s1(4,5) by (auto simp: members_def split: if_splits)
  moreover have "target s1 = target s" using route_cong [OF s1(4)] by blast
  ultimately have "\<exists>s2. requests rs s1 = Inr (fst (spec_requests (target s) (client_addr s) rs ?A), s2) \<and>
    stores_are b s2 (snd (spec_requests (target s) (client_addr s) rs ?A)) \<and> cluster_reach u s2 \<and> coord s2 = coord s"
    using Cons.IH [OF s1(2) _ Cons.prems(3) s1(3)] Cons.prems(5) s1(4,6) by (simp del: fun_upd_apply)
  then obtain s2 where
    "requests rs s1 = Inr (fst (spec_requests (target s) (client_addr s) rs ?A), s2)"
    "stores_are b s2 (snd (spec_requests (target s) (client_addr s) rs ?A))" "cluster_reach u s2" "coord s2 = coord s"
    by blast
  moreover have "target s (req_key r) = g" using g(1) by (simp add: target_def)
  ultimately show ?case using g(1) s1(1) by (simp add: Let_def case_prod_beta)
qed simp

section \<open>Properties\<close>

lemma padded_ex: "\<exists>rest. padded x t = padded rest t"
  by blast

lemma shielded_read:
  assumes "shielded K k v es"
  shows "shielded K k v (lru_touch k es)"
proof -
  have d: "distinct (map fst es)" and m: "map_of es k = Some v"
    using assms shielded_map_of [OF assms] by (simp_all add: shielded_def)
  have "distinct (map fst ((k, v) # del_key k es))"
    using distinct_del_key [OF d, of k] by (auto simp: image_iff del_key_def)
  then show ?thesis unfolding shielded_def lru_touch_def using m
    by (intro conjI exI [of _ "[]"] exI [of _ "del_key k es"]) simp_all
qed

lemma shielded_requests:
  assumes "shielded K k v es" "\<forall>r \<in> set rs. req_key r = k \<longrightarrow> CHR ''#'' \<notin> set r"
    "req_key ` set rs - {k} \<subseteq> K" "k \<notin> K" "finite K" "int (card K) < cap"
  shows "shielded K k v (lru_run cap (map req_op rs) es)"
  using assms
proof (induction rs arbitrary: es)
  case (Cons r rs)
  have "shielded K k v (lru_step cap (req_op r) es)"
  proof (cases "req_key r = k")
    case True
    then have "req_op r = Get r" "r = k" using Cons.prems(2) by (auto simp: req_op_def req_key_def takeWhile_eq_all_conv)
    with shielded_read [OF Cons.prems(1)] show ?thesis by simp
  next
    case False
    then have "op_key (req_op r) \<in> K"
      using Cons.prems(3) by (auto simp: req_op_def req_key_def takeWhile_eq_all_conv)
    then show ?thesis using Cons.prems(1,4-6) by (intro shielded_step)
  qed
  with Cons.IH [OF this] Cons.prems show ?case by auto
qed simp

text \<open>
  C3. The cluster implements its specification: in every reachable state with a member, provided that no
  two servers share a position on the ring and that the requests and the values stored are short enough
  for every reply to fit the send buffer (\<open>2 b\<close> bytes, the address of the server and ten more), any
  sequence of requests of clients, each answered by the server that the coordinator names for its key,
  ends without error.  The replies are those of one recency list of ten entries per member, with each
  request at the list of its member; each is sent in a whole buffer, behind it NULs, or the indeterminate
  bytes of the buffer if it is the first reply of that server.  The coordinator is not involved in more
  than the routing.
\<close>

theorem cluster_refines_stores:
  assumes "cluster_reach u s" "members s \<noteq> []" "shards_apart (int (card u)) 100" "stores_are b s A" "\<forall>r \<in> set rs. length r \<le> b"
  shows "(\<forall>key. \<exists>g l. route key s = Inr g \<and> links s g = Some l \<and> handleClientMessage key (coord s) = Inr (local_addr (server l))) \<and>
    (\<exists>s'. requests rs s = Inr (fst (spec_requests (target s) (client_addr s) rs A), s') \<and>
      stores_are b s' (snd (spec_requests (target s) (client_addr s) rs A)) \<and> cluster_reach u s' \<and> coord s' = coord s)"
proof -
  have "\<exists>g l. route key s = Inr g \<and> links s g = Some l \<and> handleClientMessage key (coord s) = Inr (local_addr (server l))" for key
    by (rule route_total [OF cluster_reach_ok [OF assms(1)] assms(2,3), of key]) blast
  with requests_refine [OF assms] show ?thesis by blast
qed

lemma demo_stores: "stores_are 4 demo_cluster (\<lambda>_. ([], None))" "members demo_cluster \<noteq> []" "shards_apart (int (card {5::int})) 100"
  using lru_repr_Cache_new [of 10 "''P''" "''a''" "''1''" "''2''"] shards_apart_one [of 100]
  by (simp_all add: stores_are_def demo_link vals_bounded_def local_addr_def BUF_SIZE_def)
    (simp add: Cache_new_def)

lemma demo_route: "route key demo_cluster = Inr 5" "target demo_cluster key = 5" "client_addr demo_cluster 5 = ''a:1''"
proof -
  obtain g l where "route key demo_cluster = Inr g" "links demo_cluster g = Some l"
    by (rule route_total [OF cluster_reach_ok [OF demo_cluster_reach] demo_stores(2,3)])
  then show r: "route key demo_cluster = Inr 5" by (simp add: demo_cluster_def split: if_splits)
  then show "target demo_cluster key = 5" by (simp add: target_def)
  show "client_addr demo_cluster 5 = ''a:1''"
    by (simp add: client_addr_def server_at_def demo_link local_addr_def Cache_new_def)
qed

theorem cluster_refines_stores_witness:
  "\<exists>s'. requests [''k#v'', ''k'', ''x''] demo_cluster =
     Inr ([padded None ''SUCCESS#k#a:1'', padded (Some NUL) ''SUCCESS#k#a:1#v'', padded (Some NUL) ''FAILED#x#a:1''], s') \<and> cluster_reach {5} s'"
proof -
  have "\<forall>r \<in> set [''k#v'', ''k'', ''x'']. length r \<le> 4" by simp
  from cluster_refines_stores [OF demo_cluster_reach demo_stores(2,3,1) this] show ?thesis
    by (auto simp: Let_def demo_route store_step_def spec_reply_def req_op_def req_key_def req_val_def lru_put_def lru_touch_def)
qed

text \<open>
  C4. Read your write, over the whole cluster: in every reachable state with a member, what a client has
  written is what any client reads later, whatever else is stored, as long as nobody else has written the
  key, fewer than ten other keys have been used at the server of the key in between, and no server has
  joined or left since (the requests follow each other with the coordinator as it is).  The conditions:
  no two servers share a position on the ring, keys hold no separator, and the requests and the values
  stored are short enough for every reply to fit the send buffer.  The reply to the read is never the
  first of its server, so that NULs follow it and the client reads exactly this text.
\<close>

theorem cluster_read_your_write:
  assumes "cluster_reach u s" "members s \<noteq> []" "shards_apart (int (card u)) 100"
    and key: "CHR ''#'' \<notin> set key" "length key + length val < b" "\<forall>r \<in> set rs. length r \<le> b"
      "\<forall>r \<in> set rs. req_key r = key \<longrightarrow> CHR ''#'' \<notin> set r"
    and few: "card (req_key ` {r \<in> set rs. route (req_key r) s = route key s} - {key}) < 10"
    and fits: "\<forall>g \<in> set (members s). \<forall>l. links s g = Some l \<longrightarrow> 2 * b + length (local_addr (server l)) + 10 \<le> BUF_SIZE \<and>
      (\<exists>es. lru_repr (MainCache (server l)) es \<and> vals_bounded b es)"
  shows "\<exists>replies s' addr rest. handleClientMessage key (coord s) = Inr addr \<and>
    requests ((key @ ''#'' @ val) # rs @ [key]) s = Inr (replies, s') \<and>
    hd replies = padded rest (''SUCCESS#'' @ key @ ''#'' @ addr) \<and>
    last replies = padded (Some NUL) (''SUCCESS#'' @ key @ ''#'' @ addr @ ''#'' @ val)"
proof -
  have ok: "cluster_ok u s" using cluster_reach_ok [OF assms(1)] .
  have cap: "lcapacity (MainCache (server l)) = 10 \<and> buffer_ok (server l)" if "links s g = Some l" for g l
    using cluster_good [OF assms(1) that] by (auto simp: store_ok_def server_good_def)
  have "\<forall>g. \<exists>A. g \<in> set (members s) \<longrightarrow> (\<exists>l. links s g = Some l \<and> lru_repr (MainCache (server l)) (fst A) \<and>
      vals_bounded b (fst A) \<and> send_buff_client (server l) = (\<lambda>_. snd A))"
  proof
    fix g
    show "\<exists>A. g \<in> set (members s) \<longrightarrow> (\<exists>l. links s g = Some l \<and> lru_repr (MainCache (server l)) (fst A) \<and>
      vals_bounded b (fst A) \<and> send_buff_client (server l) = (\<lambda>_. snd A))"
    proof (cases "g \<in> set (members s)")
      case True
      then obtain l where l: "links s g = Some l" using node_link [OF ok] members_nodes by (metis subsetD)
      obtain es where "lru_repr (MainCache (server l)) es" "vals_bounded b es" using fits True l by blast
      moreover obtain x where "send_buff_client (server l) = (\<lambda>_. x)" using cap [OF l] by (auto simp: buffer_ok_def)
      ultimately show ?thesis using l by (intro exI [of _ "(es, x)"]) simp
    qed simp
  qed
  then obtain A where A: "\<And>g. g \<in> set (members s) \<Longrightarrow> \<exists>l. links s g = Some l \<and> lru_repr (MainCache (server l)) (fst (A g)) \<and>
      vals_bounded b (fst (A g)) \<and> send_buff_client (server l) = (\<lambda>_. snd (A g))"
    by metis
  have stores: "stores_are b s A" unfolding stores_are_def using A cap fits by blast
  let ?w = "key @ ''#'' @ val" and ?to = "target s" and ?ad = "client_addr s"
  obtain g l where g: "route key s = Inr g" "links s g = Some l" "handleClientMessage key (coord s) = Inr (local_addr (server l))"
    "g \<in> set (members s)"
    by (rule route_total [OF ok assms(2,3)])
  have addr: "?ad g = local_addr (server l)" using g(2) by (simp add: client_addr_def server_at_def)
  have to: "?to key = g" using g(1) by (simp add: target_def)
  have w: "req_key ?w = key" "req_val ?w = val" "req_op ?w = Put key val" "req_key key = key" "req_op key = Get key"
    using key(1) by (simp_all add: req_key_def req_val_def req_op_def takeWhile_eq_all_conv)
  let ?A1 = "A(g := store_step ?w (A g))"
  let ?K = "req_key ` {r \<in> set rs. route (req_key r) s = route key s} - {key}"
  have rt: "?to (req_key r) = g \<longleftrightarrow> route (req_key r) s = route key s" for r
  proof -
    obtain g' where "route (req_key r) s = Inr g'" by (rule route_total [OF ok assms(2,3)])
    with g(1) show ?thesis by (simp add: target_def)
  qed
  let ?here = "filter (\<lambda>r. ?to (req_key r) = g) rs"
  have "distinct (map fst (fst (A g)))" using A [OF g(4)] lru_repr_distinct by blast
  then have "shielded ?K key val (lru_put 10 key val (fst (A g)))" by (intro shielded_mono [OF shielded_after_put]) simp_all
  then have "shielded ?K key val (lru_run 10 (map req_op ?here) (lru_put 10 key val (fst (A g))))"
    using key(4) few by (intro shielded_requests) (auto simp: rt)
  then have "map_of (fst (snd (spec_requests ?to ?ad rs ?A1) g)) key = Some val"
    using shielded_map_of w(3) by (fastforce simp: spec_requests_store store_step_def)
  moreover have "snd (snd (spec_requests ?to ?ad rs ?A1) g) = Some NUL"
    by (rule spec_requests_cleared) (simp add: store_step_def)
  moreover have "\<forall>r \<in> set (?w # rs @ [key]). length r \<le> b" using key(2,3) by auto
  from requests_refine [OF assms(1-3) stores this] obtain s' where
    "requests (?w # rs @ [key]) s = Inr (fst (spec_requests ?to ?ad (?w # rs @ [key]) A), s')" by blast
  ultimately show ?thesis using g(3) w to addr key(1)
    by (simp add: Let_def case_prod_beta spec_requests_append spec_reply_def padded_ex)
qed

theorem cluster_read_your_write_witness:
  "\<exists>replies s' addr. handleClientMessage ''k'' (coord demo_cluster) = Inr addr \<and>
    requests [''k#v'', ''l#w'', ''k''] demo_cluster = Inr (replies, s') \<and>
    last replies = padded (Some NUL) (''SUCCESS#k#'' @ addr @ ''#v'')"
proof -
  have "card (req_key ` {r \<in> set [''l#w'']. route (req_key r) demo_cluster = route ''k'' demo_cluster} - {''k''}) < 10"
    by (simp add: demo_route req_key_def)
  moreover have "\<forall>g \<in> set (members demo_cluster). \<forall>l. links demo_cluster g = Some l \<longrightarrow>
      2 * 4 + length (local_addr (server l)) + 10 \<le> BUF_SIZE \<and> (\<exists>es. lru_repr (MainCache (server l)) es \<and> vals_bounded 4 es)"
    using demo_stores(1) unfolding stores_are_def by fastforce
  ultimately have "\<exists>replies s' addr rest. handleClientMessage ''k'' (coord demo_cluster) = Inr addr \<and>
    requests [''k#v'', ''l#w'', ''k''] demo_cluster = Inr (replies, s') \<and>
    hd replies = padded rest (''SUCCESS#k#'' @ addr) \<and> last replies = padded (Some NUL) (''SUCCESS#k#'' @ addr @ ''#v'')"
    using cluster_read_your_write [OF demo_cluster_reach demo_stores(2,3), of "''k''" "''v''" 4 "[''l#w'']"]
    by (simp add: req_key_def del: requests.simps)
  then show ?thesis by blast
qed

end
