(* ===== verification/Two_Shards.thy ===== *)
theory Two_Shards
  imports Consistent_Hash
begin

text \<open>
  The positions of two servers with 100 virtual nodes each, computed: no two of them are shared
  between the servers, so that the hypothesis \<open>shards_apart\<close> of the theorems on exact rings holds
  for two servers.
\<close>

section \<open>Evaluation of the hash\<close>

lemma digit_chars:
  "char_of (48 :: nat) = CHR ''0''" "char_of (49 :: nat) = CHR ''1''" "char_of (50 :: nat) = CHR ''2''" "char_of (51 :: nat) = CHR ''3''"
    "char_of (52 :: nat) = CHR ''4''" "char_of (53 :: nat) = CHR ''5''" "char_of (54 :: nat) = CHR ''6''" "char_of (55 :: nat) = CHR ''7''"
    "char_of (56 :: nat) = CHR ''8''" "char_of (57 :: nat) = CHR ''9''"
  by code_simp+

lemma node_numbers:
  "[0..99] = [0, 1, 2, 3, 4, 5, 6, 7, 8, 9, 10, 11, 12, 13, 14, 15, 16, 17, 18, 19, 20, 21, 22, 23, 24, 25,
   26, 27, 28, 29, 30, 31, 32, 33, 34, 35, 36, 37, 38, 39, 40, 41, 42, 43, 44, 45, 46, 47, 48,
   49, 50, 51, 52, 53, 54, 55, 56, 57, 58, 59, 60, 61, 62, 63, 64, 65, 66, 67, 68, 69, 70, 71,
   72, 73, 74, 75, 76, 77, 78, 79, 80, 81, 82, 83, 84, 85, 86, 87, 88, 89, 90, 91, 92, 93, 94,
   95, 96, 97, 98, 99]"
  by code_simp

text \<open>The hash of the part of the name that all virtual nodes of a server share\<close>

lemma shard_prefix:
  "foldl hash_byte 2166136261 ''SHARD-0NODE-'' = 2690878285" "foldl hash_byte 2166136261 ''SHARD-1NODE-'' = 3522803140"
  by (simp_all add: hash_byte_def)

lemma two_shards:
  "shard_key 0 j = hash_mix (foldl hash_byte 2690878285 (show_int j))"
  "shard_key 1 j = hash_mix (foldl hash_byte 3522803140 (show_int j))"
proof -
  have "dec_digits 0 = ''0''" "dec_digits 1 = ''1''" by (simp_all add: dec_digits.simps digit_chars)
  then have "shard_name 0 j = ''SHARD-0NODE-'' @ show_int j" "shard_name 1 j = ''SHARD-1NODE-'' @ show_int j"
    by (simp_all add: shard_name_def show_int_def)
  then show "shard_key 0 j = hash_mix (foldl hash_byte 2690878285 (show_int j))"
    "shard_key 1 j = hash_mix (foldl hash_byte 3522803140 (show_int j))"
    by (simp_all only: shard_key_def murmur3_32_def foldl_append shard_prefix)
qed

section \<open>The positions\<close>

lemma hashed_names_0:
  "map (\<lambda>j. foldl hash_byte 2690878285 (show_int j)) [0..99] =
     [4189361607, 4172583988, 4222916845, 4206139226, 4122251131, 4105473512, 4155806369, 4139028750,
      4055140655, 4038363036, 2286223948, 2303001567, 2319779186, 2336556805, 2219113472,
      2235891091, 2252668710, 2269446329, 2420444900, 2437222519, 441230311, 424452692,
      474785549, 458007930, 374119835, 357342216, 407675073, 390897454, 307009359, 290231740,
      340417502, 357195121, 306862264, 323639883, 407527978, 424305597, 373972740, 390750359,
      206196550, 222974169, 373134097, 356356478, 339578859, 322801240, 440244573, 423466954,
      406689335, 389911716, 238913145, 222135526, 272321288, 289098907, 305876526, 322654145,
      339431764, 356209383, 372987002, 389764621, 138100336, 154877955, 2185411139, 2168633520,
      2218966377, 2202188758, 2252521615, 2235743996, 2286076853, 2269299234, 2319632091,
      2302854472, 2621482138, 2638259757, 2587926900, 2604704519, 2554371662, 2571149281,
      2520816424, 2537594043, 2487261186, 2504038805, 2654198733, 2637421114, 2620643495,
      2603865876, 2587088257, 2570310638, 2553533019, 2536755400, 2519977781, 2503200162,
      2553385924, 2570163543, 2586941162, 2603718781, 2486275448, 2503053067, 2519830686,
      2536608305, 2419164972, 2435942591]"
  by (simp add: node_numbers digit_chars hash_byte_def show_int_def dec_digits.simps)

lemma positions_0:
  "map (\<lambda>j. uint (shard_key 0 j)) [0..99] =
     [495835069, 1318847792, 3621605786, 104161538, 1044917349, 813264671, 1681404004, 3640158447,
      4273089994, 1188117544, 1802664742, 1006076847, 2069595893, 2651707701, 864454999,
      2705428338, 2353126930, 1418804427, 1392533339, 1760475679, 2999238970, 2025391558,
      2286602349, 2623271954, 2946019110, 3322129742, 4205277838, 2924691763, 3555732839,
      3311083705, 3289763026, 2730419457, 3821129133, 1142406566, 1444571104, 939910944,
      3334378779, 2414668379, 2129718389, 3680083564, 1105335982, 3186760867, 3000538497,
      4220883727, 3338615982, 2679542783, 66436640, 1412787218, 4079295737, 3621096223,
      3796996699, 3467105496, 4243411938, 3997033670, 3751488982, 3464800125, 2492187219,
      2817596626, 4270915349, 364557039, 3640645427, 3458756349, 1344425159, 475186477,
      3291426026, 3974230791, 2488688478, 3472449514, 749405386, 243524902, 667716457,
      487312115, 1129414255, 93274579, 343529328, 54297664, 106058840, 4197630360, 2796211266,
      983002391, 3095028205, 806307467, 628706157, 3386240813, 512663319, 3121878518,
      1284116970, 956052193, 3552295653, 1530241843, 3429638471, 2985358320, 1487075874,
      675368720, 3766578832, 1810822204, 689483541, 303713941, 1828726349, 703943872]"
proof -
  have "map (\<lambda>j. uint (shard_key 0 j)) [0..99] =
      map (uint \<circ> hash_mix) (map (\<lambda>j. foldl hash_byte 2690878285 (show_int j)) [0..99])"
    by (simp add: two_shards)
  then show ?thesis unfolding hashed_names_0 by (simp add: hash_mix_def Let_def)
qed

lemma hashed_names_1:
  "map (\<lambda>j. foldl hash_byte 3522803140 (show_int j)) [0..99] =
     [2149150492, 2165928111, 2182705730, 2199483349, 2082040016, 2098817635, 2115595254, 2132372873,
      2283371444, 2300149063, 3658238541, 3641460922, 3624683303, 3607905684, 3591128065,
      3574350446, 3557572827, 3540795208, 3524017589, 3507239970, 1074735478, 1091513097,
      1041180240, 1057957859, 1141845954, 1158623573, 1108290716, 1125068335, 1208956430,
      1225734049, 1175548287, 1158770668, 1209103525, 1192325906, 1108437811, 1091660192,
      1141993049, 1125215430, 1309769239, 1292991620, 1006639264, 1023416883, 1040194502,
      1056972121, 1073749740, 1090527359, 1107304978, 1124082597, 1140860216, 1157637835,
      1107452073, 1090674454, 1073896835, 1057119216, 1174562549, 1157784930, 1141007311,
      1124229692, 1241673025, 1224895406, 1208264882, 1225042501, 1174709644, 1191487263,
      1141154406, 1157932025, 1107599168, 1124376787, 1342485834, 1359263453, 3456612923,
      3439835304, 3490168161, 3473390542, 3523723399, 3506945780, 3557278637, 3540501018,
      3322391971, 3305614352, 3290263756, 3307041375, 3323818994, 3340596613, 3223153280,
      3239930899, 3256708518, 3273486137, 3424484708, 3441262327, 1243644501, 1226866882,
      1210089263, 1193311644, 1176534025, 1159756406, 1142978787, 1126201168, 1377865453,
      1361087834]"
  by (simp add: node_numbers digit_chars hash_byte_def show_int_def dec_digits.simps)

lemma positions_1:
  "map (\<lambda>j. uint (shard_key 1 j)) [0..99] =
     [1306020829, 1629961922, 1521074384, 1322386202, 1485472605, 2614858323, 709294410, 1604704023,
      720258703, 1907373004, 2244926807, 3203691024, 2559495594, 955884688, 1197858479,
      3920644329, 1971904837, 3040117093, 3296545280, 1052128956, 2008415006, 1550234950,
      665261756, 308783868, 448324274, 1686910201, 1392348323, 32008063, 33634638, 590190784,
      1493714265, 2034357427, 1030168735, 1860242885, 2335847988, 1350198943, 1649027857,
      1200610628, 1017350612, 1123103274, 2452664516, 651198336, 2335570076, 3353324363,
      597353676, 3217999234, 638224325, 2167559095, 3340370614, 118550939, 4103019228,
      3124958137, 3664689554, 4031278399, 1867087341, 3031700950, 2761298121, 594749265,
      2706148233, 2439903932, 4137467304, 3481750457, 383229073, 1487165108, 3336686181,
      3498785621, 1185507054, 329900895, 1865188595, 221546214, 1227624927, 961945949,
      4236288482, 3984053209, 638750158, 3156809098, 3747725459, 1527702347, 3054823755,
      406946713, 911722214, 293313430, 417025278, 3901546230, 1243695143, 3954899342,
      3601790329, 611430930, 4218088406, 3801204451, 1842420534, 3789905675, 3951617229,
      1486241159, 2845206313, 1542892465, 4268379765, 3965758846, 504573236, 3265411456]"
proof -
  have "map (\<lambda>j. uint (shard_key 1 j)) [0..99] =
      map (uint \<circ> hash_mix) (map (\<lambda>j. foldl hash_byte 3522803140 (show_int j)) [0..99])"
    by (simp add: two_shards)
  then show ?thesis unfolding hashed_names_1 by (simp add: hash_mix_def Let_def)
qed

lemma positions_disjoint:
  "set (map (\<lambda>j. uint (shard_key 0 j)) [0..99]) \<inter> set (map (\<lambda>j. uint (shard_key 1 j)) [0..99]) = {}"
  unfolding positions_0 positions_1 by simp

lemma two_servers_apart: "shards_apart 2 100"
proof -
  have d: "shard_key 0 j \<noteq> shard_key 1 j'" if "j \<in> set [0..99]" "j' \<in> set [0..99]" for j j'
  proof
    assume e: "shard_key 0 j = shard_key 1 j'"
    have "uint (shard_key 0 j) \<in> set (map (\<lambda>j. uint (shard_key 0 j)) [0..99])"
      "uint (shard_key 1 j') \<in> set (map (\<lambda>j. uint (shard_key 1 j)) [0..99])" using that by (auto simp: image_iff)
    with e positions_disjoint show False by auto
  qed
  have two: "i \<in> set [0..1] \<Longrightarrow> i = 0 \<or> i = 1" for i :: int by auto
  show ?thesis unfolding shards_apart_def int_range_def
  proof (intro ballI impI)
    fix i i' j j' :: int
    assume ij: "i \<in> set [0..2 - 1]" "i' \<in> set [0..2 - 1]" "j \<in> set [0..100 - 1]" "j' \<in> set [0..100 - 1]"
      "shard_key i j = shard_key i' j'"
    then have "j \<in> set [0..99]" "j' \<in> set [0..99]" by simp_all
    with ij d [of j j'] d [of j' j] two [of i] two [of i'] show "i = i'" by force
  qed
qed

end

