(* ===== verification/Cluster_Scaling.thy ===== *)
theory Cluster_Scaling
  imports Cluster_Properties Two_Shards
begin

text \<open>
  Scaling in, in any state the coordinator and its primaries can reach: what the leaving server
  sends, to whom, and where the entries are afterwards.
\<close>

section \<open>Scaling in\<close>

lemma received_store: "receive_messages ms c = Inr c' \<Longrightarrow> MainCache c' = MainCache c"
  by (induction ms arbitrary: c) (auto simp: andThen_eq_Inr_iff dest: Heartbeat_store)

lemma leaving_stays: "notices_run self ns (Leaving l) = Some v \<Longrightarrow> v = Leaving l"
proof (induction ns)
  case (Cons n ns)
  then obtain v1 where v1: "notice_step self n (Leaving l) = Some v1" "notices_run self ns v1 = Some v" by (auto split: bind_splits)
  then have "v1 = Leaving l" by (cases "(self, n, Leaving l)" rule: notice_step.cases) auto
  with v1 Cons.IH show ?case by simp
qed simp

lemma member_stays:
  assumes "cluster_ok u s" "g \<in> set (members s)" "links s g = Some l"
  shows "status (server l) \<noteq> ''K''"
proof
  assume k: "status (server l) = ''K''"
  have d: "delivers l (Member (member_addrs s))" and wf: "server_wf (server l)"
    using assms by (auto simp: cluster_ok_def view_ok_def links_wf_def link_wf_def)
  have "view_of (server l) = Leaving (cache_list (server l))"
    using wf k by (auto simp: server_wf_def view_of_def)
  with d leaving_stays show False by (fastforce simp: delivers_def)
qed

text \<open>What the leaving server sends, and where it arrives\<close>

lemma leaver_hands_over:
  assumes ok: "cluster_ok u s" and lv: "leaving s = Some fd" and l: "links s fd = Some l" and some: "members s \<noteq> []"
    and store: "lru_repr (MainCache (server l)) es" "set order = fst ` set es" "\<forall>(k, v) \<in> set es. length k + length v + 1 < BUF_SIZE"
    and up: "\<forall>peer \<in> set (member_addrs s). can_connect net peer"
  obtains c' c'' where "receive_messages (to_server l) (server l) = Inr c'" "cache_list c' = member_addrs s"
    "cache_pass net order received c' =
       Inr (Pass_exit (map (\<lambda>k. (fst (peer_of c' k), snd (peer_of c' k), k @ ''#'' @ the (map_of es k))) order), c'')"
proof -
  have fd: "fd \<in> set (fd_node (coord s))" using cluster_okD(1) [OF ok] lv by (simp add: coord_ok_def)
  obtain c' where c': "receive_messages (to_server l) (server l) = Inr c'" "cache_list c' = member_addrs s"
    "status c' = ''K'' \<longleftrightarrow> leaving s = Some fd" by (rule member_list [OF ok fd l])
  have "addrs_ok c'" using node_addr_clean(1) [OF ok] members_nodes [of s]
    unfolding addrs_ok_def c'(2) member_addrs_def by (auto simp: case_prod_beta)
  moreover have "cache_list c' \<noteq> []" using some c'(2) by (simp add: member_addrs_def)
  moreover have "lru_repr (MainCache c') es" using store(1) received_store [OF c'(1)] by simp
  moreover have "status c' = ''K''" using c'(3) lv by simp
  moreover have "\<forall>peer \<in> set (cache_list c'). can_connect net peer" using up c'(2) by simp
  ultimately show thesis using scale_in_spec [of c' es order net received] store(2,3) c'(1,2) that by blast
qed

text \<open>
  C9. Scaling in, in any reachable state in which a server leaves and others stay: once the leaving
  server has received the messages on their way to it, its pass sends each of its entries to the server
  whose address the coordinator gives the clients for that key, and that server holds the value after it
  has received what is sent to it: no entry is lost, and every client finds it.  The conditions: no two
  servers share a position on the ring, every member accepts the connections of the leaving server and
  can open its listening socket (one failure ends a process and loses entries), every member has room for
  its own entries and those whose keys the coordinator routes to it, and each entry fits a message and
  its key holds no separator.
\<close>

theorem cluster_scale_in:
  assumes reach: "cluster_reach u s" "leaving s = Some fd" "links s fd = Some l" "members s \<noteq> []" "shards_apart (int (card u)) 100"
    and store: "lru_repr (MainCache (server l)) es" "distinct order" "set order = fst ` set es"
      "\<forall>(k, v) \<in> set es. CHR ''#'' \<notin> set k \<and> length k + length v + 1 < BUF_SIZE" "map_of es key = Some v"
    and up: "\<forall>g \<in> set (members s). \<forall>p. links s g = Some p \<longrightarrow>
      can_connect net (self_addr (server p)) \<and> can_listen sys (server p)"
    and room: "\<forall>g \<in> set (members s). \<forall>p. links s g = Some p \<longrightarrow> (\<exists>fs. lru_repr (MainCache (server p)) fs \<and>
      int (length fs + card {k \<in> fst ` set es. handleClientMessage k (coord s) = Inr (local_addr (server p))}) \<le>
        lcapacity (MainCache (server p)))"
  shows "\<exists>c' ms c'' g p p' gs. receive_messages (to_server l) (server l) = Inr c' \<and>
    cache_pass net order received c' = Inr (Pass_exit ms, c'') \<and> g \<in> set (members s) \<and> links s g = Some p \<and>
    handleClientMessage key (coord s) = Inr (local_addr (server p)) \<and>
    accept_all sys (sent_to (cache_addr (coord s) g) ms) (server p) = Inr p' \<and>
    lru_repr (MainCache p') gs \<and> map_of gs key = Some v"
proof -
  have ok: "cluster_ok u s" using cluster_reach_ok [OF reach(1)] .
  have up': "\<forall>peer \<in> set (member_addrs s). can_connect net peer"
  proof
    fix peer assume "peer \<in> set (member_addrs s)"
    then obtain g where g: "g \<in> set (members s)" "peer = self_addr (server_at (links s) g)" by (auto simp: member_addrs_def)
    obtain p where "links s g = Some p" using node_link [OF ok] g(1) members_nodes by blast
    with g up show "can_connect net peer" by (simp add: server_at_def)
  qed
  have small: "\<forall>(k, v) \<in> set es. length k + length v + 1 < BUF_SIZE" using store(4) by auto
  obtain c' c'' where c': "receive_messages (to_server l) (server l) = Inr c'" "cache_list c' = member_addrs s"
    "cache_pass net order received c' =
       Inr (Pass_exit (map (\<lambda>k. (fst (peer_of c' k), snd (peer_of c' k), k @ ''#'' @ the (map_of es k))) order), c'')"
    by (rule leaver_hands_over [OF ok reach(2-4) store(1,3) small up'])
  note routes = member_routes [OF ok reach(5) c'(2) reach(4), folded local_addr_def]
  obtain g p where g: "g \<in> set (members s)" "links s g = Some p" "peer_of c' key = self_addr (server p)"
    "handleClientMessage key (coord s) = Inr (local_addr (server p))"
    by (rule routes)
  let ?a = "cache_addr (coord s) g"
  let ?ks = "filter (\<lambda>k. fst (peer_of c' k) @ ''#'' @ snd (peer_of c' k) = ?a) order"
  have a: "?a = fst (self_addr (server p)) @ ''#'' @ snd (self_addr (server p))"
    by (rule node_link [OF ok subsetD [OF members_nodes g(1)]]) (use g(2) in \<open>simp add: server_at_def\<close>)
  moreover have "key \<in> set order" using map_of_SomeD [OF store(5)] store(3) by force
  ultimately have key: "key \<in> set ?ks" using g(3) by simp
  have "set ?ks \<subseteq> {k \<in> fst ` set es. handleClientMessage k (coord s) = Inr (local_addr (server p))}"
  proof
    fix k assume k: "k \<in> set ?ks"
    obtain g' p' where g': "g' \<in> set (members s)" "links s g' = Some p'" "peer_of c' k = self_addr (server p')"
      "handleClientMessage k (coord s) = Inr (local_addr (server p'))" by (rule routes)
    have "fst (peer_of c' k) @ ''#'' @ snd (peer_of c' k) = ?a" using k by simp
    then have "fst (self_addr (server p')) @ ''#'' @ snd (self_addr (server p')) =
        fst (self_addr (server p)) @ ''#'' @ snd (self_addr (server p))" using a g'(3) by simp
    moreover have "CHR ''#'' \<notin> set (fst (self_addr (server p')))" "CHR ''#'' \<notin> set (fst (self_addr (server p)))"
      using node_addr_clean(1) [OF ok subsetD [OF members_nodes g'(1)]] node_addr_clean(1) [OF ok subsetD [OF members_nodes g(1)]]
        g(2) g'(2) by (simp_all add: server_at_def)
    ultimately have "self_addr (server p') = self_addr (server p)"
      by (metis addr_pair_join append_Cons append_Nil prod.collapse)
    then have "g' = g" using cluster_okD(4) [OF ok] g(2) g'(2) unfolding links_wf_def by metis
    then show "k \<in> {k \<in> fst ` set es. handleClientMessage k (coord s) = Inr (local_addr (server p))}"
      using g'(2,4) g(2) k store(3) by simp
  qed
  then have "card (set ?ks) \<le> card {k \<in> fst ` set es. handleClientMessage k (coord s) = Inr (local_addr (server p))}"
    by (intro card_mono) simp_all
  moreover have "card (set ?ks) = length ?ks" by (rule distinct_card) (simp add: store(2))
  moreover obtain fs where fs: "lru_repr (MainCache (server p)) fs"
    "int (length fs + card {k \<in> fst ` set es. handleClientMessage k (coord s) = Inr (local_addr (server p))}) \<le>
       lcapacity (MainCache (server p))"
    using room g(1,2) by blast
  ultimately have fits: "int (length fs + length ?ks) \<le> lcapacity (MainCache (server p))" by linarith
  have clean: "\<forall>k \<in> set ?ks. CHR ''#'' \<notin> set k" using store(3,4) by auto
  have listen: "can_listen sys (server p)" using up g(1,2) by blast
  from accept_all_values [OF fs(1) member_stays [OF ok g(1,2)] fits clean listen, of "\<lambda>k. the (map_of es k)"] obtain p' gs where
    "accept_all sys (map (\<lambda>k. k @ ''#'' @ the (map_of es k)) ?ks) (server p) = Inr p'" "lru_repr (MainCache p') gs" "map_of gs key = Some v"
    using key store(5) by auto
  with c'(1,3) g(1,2,4) show ?thesis unfolding sent_to_map [symmetric] by blast
qed

text \<open>A second history: another primary joins, stores an entry, and is told to leave.\<close>

definition demo_two :: Master where
  "demo_two = \<lparr>cacheAddrHash = addNode 1 (cacheAddrHash demo_master),
     cacheAddrMap = [''a#1'' \<mapsto> 100, ''b#3'' \<mapsto> 200],
     caches_list = [5 \<mapsto> demo_entry,
       6 \<mapsto> \<lparr>fd_status = CHR ''P'', fd_num = 6, fd_pair = -1, fd_ip_port = ''b#3'', fd_ip_cache = ''b#4''\<rparr>],
     fd_node = [5, 6], pcache = [6, 5], rcache = []\<rparr>"

lemma demo_second_joins:
  "start_cache 6 ''x#b#3#4#P'' 200 (accept_cache 6 demo_master) =
     Inr ([(6, ''a#2#b#4''), (5, ''N#b#4''), (6, ''N#b#4''), (6, ''P#None'')], demo_two)"
proof -
  have "master_split ''x#b#3#4#P'' ''#'' = [''x'', ''b'', ''3'', ''4'', ''P'']"
    using split_heartbeat [of "''b''" "''3''" "''4''" "''P''"] by (simp add: field_ok_def)
  then show ?thesis
    by (simp add: start_cache_def first_heartbeat_def accept_cache_def vec_at_def modify_def node_def
        demo_master_def demo_entry_def fdmap_new_def pair_primary_def scale_out_def Let_def substr_def post_to_def
        heartbeat_reply_def BUF_SIZE_def handleHeartBeatResponse_def demo_two_def fun_upd_twist)
qed

lemma demo_shrink:
  "shrinkageCapacity CHR ''s'' [] demo_two =
     Inr ([], Some 6, [(5, ''K#b#4''), (6, ''K#b#4'')], demo_two\<lparr>cacheAddrHash := deleteNode 1 (cacheAddrHash demo_two)\<rparr>)"
  by (simp add: shrinkageCapacity_def shrink_begin_def Let_def vec_at_def node_def demo_two_def BUF_SIZE_def post_to_def)

abbreviation demo_leaver :: Cache where
  "demo_leaver \<equiv> Cache_new 10 ''P'' ''b'' ''3'' ''4''"

lemma demo_leaving:
  obtains s c where "cluster_reach {6, 5} s" "leaving s = Some 6" "members s = [5]"
    "links s 6 = Some \<lparr>server = c, to_server = [''a#2#b#4'', ''N#b#4'', ''P#None'', ''K#b#4''], to_master = []\<rparr>"
    "links s 5 = Some \<lparr>server = Cache_new 10 ''P'' ''a'' ''1'' ''2'',
       to_server = [''a#2'', ''N#a#2'', ''P#None'', ''N#b#4'', ''K#b#4''], to_master = []\<rparr>"
    "lru_repr (MainCache c) [(''k'', ''v'')]" "cache_addr (coord s) 5 = ''a#2''"
proof -
  let ?l = "\<lambda>c out. \<lparr>server = c, to_server = [], to_master = out\<rparr>"
  let ?s = "\<lambda>out. demo_cluster\<lparr>coord := accept_cache 6 demo_master, links := (links demo_cluster)(6 \<mapsto> ?l demo_leaver out)\<rparr>"
  have free: "leaving demo_cluster = None" "coord demo_cluster = demo_master" by (simp_all add: demo_cluster_def)
  have "cluster_reach {6, 5} (?s [])"
    using connects [OF demo_cluster_reach, of 6 "''b''" "''3''" "''4''"]
    by (simp add: demo_cluster_def field_ok_def self_addr_def Cache_new_def)
  from beats [OF this, of 6 "?l demo_leaver []" Would_block "[]"] have
    1: "cluster_reach {6, 5} (?s [''x#b#3#4#P''])"
    using Heartbeat_idle [of demo_leaver] by (simp add: heart_message_def Cache_new_def)
  let ?posts = "[(6, ''a#2#b#4''), (5, ''N#b#4''), (6, ''N#b#4''), (6, ''P#None'')]"
  let ?ls = "deliver ?posts ((links demo_cluster)(6 \<mapsto> ?l demo_leaver []))"
  let ?t = "demo_cluster\<lparr>coord := demo_two, links := ?ls\<rparr>"
  have 2: "cluster_reach {6, 5} ?t"
    using hears [OF 1, of 6 "?l demo_leaver [''x#b#3#4#P'']" "''x#b#3#4#P''" "[]" 200] demo_second_joins free
    by simp
  have 3: "?ls 6 = Some \<lparr>server = demo_leaver, to_server = [''a#2#b#4'', ''N#b#4'', ''P#None''], to_master = []\<rparr>"
    by (simp add: deliver_def)
  have v: "vals_bounded 3 []" "length ''k#v'' \<le> 3" "2 * 3 + length (local_addr demo_leaver) + 10 \<le> BUF_SIZE"
    by (simp_all add: vals_bounded_def local_addr_def Cache_new_def BUF_SIZE_def)
  obtain L where L: "Client_chat (Received ''k#v'') demo_leaver = Inr (Some (over_buffer (send_buff_client demo_leaver)
        (spec_reply (local_addr demo_leaver) [] ''k#v'')),
      demo_leaver\<lparr>MainCache := L, kv_update_flag := True, kv_to_replica := ''k#v'', send_buff_client := bzero\<rparr>)"
    "lru_repr L (lru_step (lcapacity (MainCache demo_leaver)) (req_op ''k#v'') [])"
    by (rule chat_step [OF lru_repr_Cache_new(1) v])
  let ?c = "demo_leaver\<lparr>MainCache := L, kv_update_flag := True, kv_to_replica := ''k#v'', send_buff_client := bzero\<rparr>"
  let ?w = "?t\<lparr>links := ?ls(6 \<mapsto> \<lparr>server = ?c, to_server = [''a#2#b#4'', ''N#b#4'', ''P#None''], to_master = []\<rparr>)\<rparr>"
  have 4: "cluster_reach {6, 5} ?w" using works [OF 2, of 6 "\<lparr>server = demo_leaver, to_server = [''a#2#b#4'', ''N#b#4'', ''P#None''], to_master = []\<rparr>"
        "Received ''k#v''" "Some (over_buffer (send_buff_client demo_leaver) (spec_reply (local_addr demo_leaver) [] ''k#v''))" ?c] L(1) 3 by simp
  let ?s = "?w\<lparr>coord := demo_two\<lparr>cacheAddrHash := deleteNode 1 (cacheAddrHash demo_two)\<rparr>,
     links := deliver [(5, ''K#b#4''), (6, ''K#b#4'')] (links ?w), leaving := Some 6\<rparr>"
  have "cluster_reach {6, 5} ?s"
    using shrinks [OF 4, of "CHR ''s''" "[]"] demo_shrink free by simp
  moreover have "lru_repr (MainCache ?c) [(''k'', ''v'')]"
    using L(2) lru_repr_Cache_new(2) [of 10 "''P''" "''b''" "''3''" "''4''"]
    by (simp add: req_op_def req_key_def req_val_def lru_put_def)
  moreover have "members ?s = [5]" "cache_addr (coord ?s) 5 = ''a#2''"
    by (simp_all add: members_def demo_two_def demo_entry_def cache_addr_def)
  moreover have "links ?s 5 = Some \<lparr>server = Cache_new 10 ''P'' ''a'' ''1'' ''2'',
       to_server = [''a#2'', ''N#a#2'', ''P#None'', ''N#b#4'', ''K#b#4''], to_master = []\<rparr>"
    "links ?s 6 = Some \<lparr>server = ?c, to_server = [''a#2#b#4'', ''N#b#4'', ''P#None'', ''K#b#4''], to_master = []\<rparr>"
    by (simp_all add: deliver_def demo_cluster_def)
  ultimately show thesis using that by simp
qed

theorem cluster_scale_in_witness:
  "\<exists>s l c' ms c'' p' gs. cluster_reach {6, 5} s \<and> leaving s = Some 6 \<and> links s 6 = Some l \<and>
    receive_messages (to_server l) (server l) = Inr c' \<and>
    cache_pass (\<lambda>_ _. demo_sys) [''k''] None c' = Inr (Pass_exit ms, c'') \<and>
    handleClientMessage ''k'' (coord s) = Inr ''a:1'' \<and>
    accept_all demo_sys (sent_to ''a#2'' ms) (Cache_new 10 ''P'' ''a'' ''1'' ''2'') = Inr p' \<and>
    lru_repr (MainCache p') gs \<and> map_of gs ''k'' = Some ''v''"
proof -
  let ?net = "\<lambda>_ _. demo_sys"
  let ?p = "Cache_new 10 ''P'' ''a'' ''1'' ''2''"
  obtain s c where s: "cluster_reach {6, 5} s" "leaving s = Some 6" "members s = [5]"
    and l: "links s 6 = Some \<lparr>server = c, to_server = [''a#2#b#4'', ''N#b#4'', ''P#None'', ''K#b#4''], to_master = []\<rparr>"
    and p: "links s 5 = Some \<lparr>server = ?p, to_server = [''a#2'', ''N#a#2'', ''P#None'', ''N#b#4'', ''K#b#4''], to_master = []\<rparr>"
    and r: "lru_repr (MainCache c) [(''k'', ''v'')]" "cache_addr (coord s) 5 = ''a#2''"
    by (rule demo_leaving)
  have a: "shards_apart (int (card {6, 5 :: int})) 100" using two_servers_apart by simp
  have "stoi ''2'' = Inr 2" by (simp add: stoi_def is_space_def is_digit_def digits_value_def)
  then have up: "can_connect ?net (self_addr ?p)"
    by (simp add: demo_sys_def can_connect_def client_socket_def check_call_def host_port_def BUF_SIZE_def self_addr_def Cache_new_def)
  have "card {k \<in> fst ` set [(''k'', ''v'')]. handleClientMessage k (coord s) = Inr (local_addr ?p)} \<le>
      card (fst ` set [(''k'', ''v'')])" by (rule card_mono) auto
  then have room: "\<exists>fs. lru_repr (MainCache ?p) fs \<and>
      int (length fs + card {k \<in> fst ` set [(''k'', ''v'')]. handleClientMessage k (coord s) = Inr (local_addr ?p)}) \<le> lcapacity (MainCache ?p)"
    using lru_repr_Cache_new [of 10 "''P''" "''a''" "''1''" "''2''"] by (intro exI [of _ "[]"]) simp
  have ne: "members s \<noteq> []" using s(3) by simp
  have st: "distinct [''k'']" "set [''k''] = fst ` set [(''k'', ''v'')]"
    "\<forall>(k, v) \<in> set [(''k'', ''v'')]. CHR ''#'' \<notin> set k \<and> length k + length v + 1 < BUF_SIZE"
    "map_of [(''k'', ''v'')] ''k'' = Some ''v''" by (simp_all add: BUF_SIZE_def)
  have up': "\<forall>g \<in> set (members s). \<forall>q. links s g = Some q \<longrightarrow>
      can_connect ?net (self_addr (server q)) \<and> can_listen demo_sys (server q)"
    using s(3) p up demo_listen by simp
  have room': "\<forall>g \<in> set (members s). \<forall>q. links s g = Some q \<longrightarrow> (\<exists>fs. lru_repr (MainCache (server q)) fs \<and>
      int (length fs + card {k \<in> fst ` set [(''k'', ''v'')]. handleClientMessage k (coord s) = Inr (local_addr (server q))}) \<le>
        lcapacity (MainCache (server q)))"
    using s(3) p room by (simp only: ball_simps list.set) simp
  obtain c' ms c'' g q p' gs where h: "receive_messages [''a#2#b#4'', ''N#b#4'', ''P#None'', ''K#b#4''] c = Inr c'"
    "cache_pass ?net [''k''] None c' = Inr (Pass_exit ms, c'')" "g \<in> set (members s)" "links s g = Some q"
    "handleClientMessage ''k'' (coord s) = Inr (local_addr (server q))"
    "accept_all demo_sys (sent_to (cache_addr (coord s) g) ms) (server q) = Inr p'" "lru_repr (MainCache p') gs" "map_of gs ''k'' = Some ''v''"
    using cluster_scale_in [OF s(1,2) l ne a _ st up' room', of None, unfolded Link.select_convs, OF r(1)] by blast
  have g: "g = 5" "server q = ?p" using h(3,4) s(3) p by auto
  have addr: "local_addr ?p = ''a:1''" by (simp add: local_addr_def Cache_new_def)
  show ?thesis using h(1,2,5-8) s(1,2) l unfolding g addr r(2) by (metis Link.select_convs(1,2))
qed

end
