(* ===== verification/Progress.thy ===== *)
theory Progress
  imports Prelude
begin

text \<open>
  Loops that run for ever and make progress in each turn: the contract \<open>progress\<close> of a turn, which
  always succeeds, keeps an invariant and lowers a rank, and its extension by an observation that
  no turn changes.  The failure detector and the one-shot timers interpret it.
\<close>

locale progress =
  fixes turn :: "'e \<Rightarrow> 's \<Rightarrow> 's result"
    and env :: "'e \<Rightarrow> bool"
    and inv :: "'s \<Rightarrow> bool"
    and rank :: "'s \<Rightarrow> nat"
  assumes turn_progress: "env e \<Longrightarrow> inv s \<Longrightarrow> \<exists>s'. turn e s = Inr s' \<and> inv s' \<and> rank s' \<le> rank s - 1"
begin

fun turns :: "'e list \<Rightarrow> 's \<Rightarrow> 's result" where
  "turns [] s = Inr s"
| "turns (e # es) s = andThen (turn e s) (turns es)"

lemma turns_progress:
  "\<forall>e \<in> set es. env e \<Longrightarrow> inv s \<Longrightarrow> \<exists>s'. turns es s = Inr s' \<and> inv s' \<and> rank s' \<le> rank s - length es"
proof (induction es arbitrary: s)
  case (Cons e es)
  obtain s1 where 1: "turn e s = Inr s1" "inv s1" "rank s1 \<le> rank s - 1"
    using turn_progress [of e s] Cons.prems by auto
  obtain s' where "turns es s1 = Inr s'" "inv s'" "rank s' \<le> rank s1 - length es"
    using Cons.IH [of s1] Cons.prems(1) 1(2) by auto
  with 1 show ?case by auto
qed simp

lemma turns_finish:
  assumes "\<forall>e \<in> set es. env e" "inv s" "rank s \<le> length es"
  shows "\<exists>s'. turns es s = Inr s' \<and> inv s' \<and> rank s' = 0"
  using turns_progress [OF assms(1,2)] assms(3) by fastforce

lemma turns_inv: "\<forall>e \<in> set es. env e \<Longrightarrow> inv s \<Longrightarrow> turns es s = Inr s' \<Longrightarrow> inv s'"
  using turns_progress by fastforce

end

locale progress_frame = progress +
  fixes obs :: "'b \<Rightarrow> 'c"
  assumes turn_obs: "env e \<Longrightarrow> inv s \<Longrightarrow> turn e s = Inr s' \<Longrightarrow> obs s' = obs s"
begin

lemma turns_obs: "\<forall>e \<in> set es. env e \<Longrightarrow> inv s \<Longrightarrow> turns es s = Inr s' \<Longrightarrow> obs s' = obs s"
proof (induction es arbitrary: s)
  case (Cons e es)
  then obtain s1 where 1: "turn e s = Inr s1" "turns es s1 = Inr s'" by (auto simp: andThen_eq_Inr_iff)
  moreover have "inv s1" using turn_progress [of e s] Cons.prems(1,2) 1(1) by auto
  ultimately show ?case using Cons.IH [of s1] turn_obs [of e s s1] Cons.prems by simp
qed simp

lemma turns_reach:
  assumes "\<forall>e \<in> set es. env e" "inv s" "rank s \<le> length es"
  shows "\<exists>s'. turns es s = Inr s' \<and> inv s' \<and> rank s' = 0 \<and> obs s' = obs s"
  using turns_finish [OF assms] turns_obs [OF assms(1,2)] by blast

end

end
