(* ===== verification/Detector.thy ===== *)
theory Detector
  imports Master_Properties Progress
begin

text \<open>
  The failure detector as the loop it is (\<open>while (true)\<close> in \<open>periodicDetectCache\<close> of
  \<open>master.cpp\<close>): one pass handles the first dead server it meets and leaves the others to the
  passes after it.  While no further server dies, as many passes as there are dead servers remove
  them all, and keep the live ones.
\<close>

section \<open>Passes\<close>

text \<open>
  A pass is the value of \<open>time\<close> and the iteration order of \<open>caches_list\<close>, which may depend on the
  state; \<open>out\<close> is what has been sent so far.
\<close>

type_synonym detector_pass = "int \<times> (Master \<Rightarrow> int list)"

definition detect_turn :: "detector_pass \<Rightarrow> post list \<times> Master \<Rightarrow> (post list \<times> Master) result" where
  "detect_turn p st =
     andThen (periodicDetectCache (fst p) (snd p (snd st)) (snd st)) (\<lambda>(ps, m). Inr (fst st @ ps, m))"

fun detect_passes :: "detector_pass list \<Rightarrow> post list \<times> Master \<Rightarrow> (post list \<times> Master) result" where
  "detect_passes [] st = Inr st"
| "detect_passes (p # ps) st = andThen (detect_turn p st) (detect_passes ps)"

definition heard_at :: "Master \<Rightarrow> string \<Rightarrow> int" where
  "heard_at m addr = (case cacheAddrMap m addr of Some t \<Rightarrow> t | None \<Rightarrow> 0)"

definition expired :: "int \<Rightarrow> Master \<Rightarrow> fdmap \<Rightarrow> bool" where
  "expired now m e \<longleftrightarrow> heartBeatInterval \<le> now - heard_at m (fd_ip_port e)"

definition expired_fds :: "int \<Rightarrow> Master \<Rightarrow> int set" where
  "expired_fds now m = {fd. \<exists>e. caches_list m fd = Some e \<and> expired now m e}"

definition live_fds :: "int \<Rightarrow> Master \<Rightarrow> int set" where
  "live_fds now m = {fd. \<exists>e. caches_list m fd = Some e \<and> \<not> expired now m e}"

text \<open>From \<open>t0\<close> to \<open>t1\<close> no server dies: it is dead at \<open>t0\<close> or still alive at \<open>t1\<close>.\<close>

definition settled :: "int \<Rightarrow> int \<Rightarrow> Master \<Rightarrow> bool" where
  "settled t0 t1 m \<longleftrightarrow> (\<forall>fd e. caches_list m fd = Some e \<longrightarrow> expired t0 m e \<or> \<not> expired t1 m e)"

text \<open>No dead replica is without a primary, and the addresses fit into a message.\<close>

definition no_orphan :: "int \<Rightarrow> Master \<Rightarrow> bool" where
  "no_orphan now m \<longleftrightarrow>
     (\<forall>fd e. caches_list m fd = Some e \<and> expired now m e \<and> fd_status e = CHR ''R'' \<longrightarrow> fd_pair e \<noteq> -1)"

definition short_addrs :: "Master \<Rightarrow> bool" where
  "short_addrs m \<longleftrightarrow> (\<forall>fd e. caches_list m fd = Some e \<longrightarrow> length (fd_ip_cache e) \<le> 30000)"

definition enumerates :: "(Master \<Rightarrow> int list) \<Rightarrow> bool" where
  "enumerates ord \<longleftrightarrow> (\<forall>m. finite (dom (caches_list m)) \<longrightarrow> set (ord m) = dom (caches_list m))"

section \<open>One pass\<close>

lemma heard_at_insert: "heard_at (m\<lparr>cacheAddrMap := (cacheAddrMap m)(a \<mapsto> heard_at m a)\<rparr>) = heard_at m"
  by (auto simp: heard_at_def)

lemma heartBeatDetect_node:
  "caches_list m fd = Some e \<Longrightarrow> heartBeatDetect now fd m =
     Inr (\<not> expired now m e, m\<lparr>cacheAddrMap := (cacheAddrMap m)(fd_ip_port e \<mapsto> heard_at m (fd_ip_port e))\<rparr>)"
  by (auto simp: heartBeatDetect_def node_def expired_def heard_at_def Let_def)

text \<open>The search succeeds, changes no time stamp, and finds a dead server when there is one.\<close>

lemma first_dead_total:
  assumes "entries_ok u (caches_list m)" "set ks \<subseteq> dom (caches_list m)"
  shows "\<exists>d f. first_dead now ks m = Inr (d, m\<lparr>cacheAddrMap := f\<rparr>) \<and> heard_at (m\<lparr>cacheAddrMap := f\<rparr>) = heard_at m \<and>
    (case d of None \<Rightarrow> set ks \<inter> expired_fds now m = {} | Some fd \<Rightarrow> fd \<in> expired_fds now m)"
  using assms
proof (induction ks arbitrary: m)
  case Nil
  then show ?case by (intro exI [of _ None] exI [of _ "cacheAddrMap m"]) simp
next
  case (Cons k ks)
  then obtain e where e: "caches_list m k = Some e" by auto
  let ?m1 = "m\<lparr>cacheAddrMap := (cacheAddrMap m)(fd_ip_port e \<mapsto> heard_at m (fd_ip_port e))\<rparr>"
  have k: "fd_num e = k" using Cons.prems(1) e by (simp add: entries_ok_def)
  have step: "first_dead now (k # ks) m =
      (if expired now m e then Inr (Some k, ?m1) else first_dead now ks ?m1)"
    using heartBeatDetect_node [OF e] k e by (simp add: node_def)
  have same: "expired_fds now ?m1 = expired_fds now m"
    by (simp add: expired_fds_def expired_def heard_at_insert)
  show ?case
  proof (cases "expired now m e")
    case True
    then have "first_dead now (k # ks) m = Inr (Some k, ?m1)" "k \<in> expired_fds now m"
      using step e by (auto simp: expired_fds_def)
    with heard_at_insert [of m "fd_ip_port e"] show ?thesis
      by (intro exI [of _ "Some k"] exI [of _ "cacheAddrMap ?m1"]) (simp add: fun_upd_def del: first_dead.simps)
  next
    case False
    obtain d f where "first_dead now ks ?m1 = Inr (d, ?m1\<lparr>cacheAddrMap := f\<rparr>)"
      "heard_at (?m1\<lparr>cacheAddrMap := f\<rparr>) = heard_at ?m1"
      "case d of None \<Rightarrow> set ks \<inter> expired_fds now ?m1 = {} | Some fd \<Rightarrow> fd \<in> expired_fds now ?m1"
      using Cons.IH [of ?m1] Cons.prems by auto
    then have d: "first_dead now ks ?m1 = Inr (d, m\<lparr>cacheAddrMap := f\<rparr>)"
      "heard_at (m\<lparr>cacheAddrMap := f\<rparr>) = heard_at m"
      "case d of None \<Rightarrow> set ks \<inter> expired_fds now m = {} | Some fd \<Rightarrow> fd \<in> expired_fds now m"
      unfolding same heard_at_insert by simp_all
    have "k \<notin> expired_fds now m" using False e by (auto simp: expired_fds_def)
    with d step False show ?thesis
      by (intro exI [of _ d] exI [of _ f]) (auto simp del: first_dead.simps split: option.splits)
  qed
qed

lemma with_colon_addr: "field_ok CHR ''#'' a \<Longrightarrow> with_colon (a @ ''#'' @ c) = Inr (a @ '':'' @ c)"
  by (simp add: with_colon_def spear_loop_takeWhile field_ok_def takeWhile_append2)

text \<open>
  Handling a dead server changes at most the entry of its partner, which is an unpaired primary
  afterwards.
\<close>

definition unpaired_primary :: "fdmap \<Rightarrow> fdmap" where
  "unpaired_primary e = e\<lparr>fd_pair := -1, fd_status := CHR ''P''\<rparr>"

definition partner_freed :: "int \<Rightarrow> Master \<Rightarrow> Master \<Rightarrow> bool" where
  "partner_freed fd m m' \<longleftrightarrow> cacheAddrMap m' = cacheAddrMap m \<and> (caches_list m' = caches_list m \<or>
     (\<exists>q b. q \<noteq> fd \<and> caches_list m q = Some b \<and> caches_list m' = (caches_list m)(q \<mapsto> unpaired_primary b)))"

lemma entry_addr: "entries_ok u (caches_list m) \<Longrightarrow> caches_list m fd = Some e \<Longrightarrow> fd_status e \<noteq> CHR ''n'' \<Longrightarrow> addr_wf e"
  by (cases "e = fdmap_new fd") (auto simp: entries_ok_def)

lemma promote_replica_total:
  assumes t: "tables_ok u m" and e: "caches_list m fd = Some e" "fd_status e = CHR ''P''" "0 < fd_pair e"
    and s: "short_addrs m"
  shows "\<exists>ps m'. promote_replica fd m = Inr (ps, m') \<and> partner_freed fd m m'"
proof -
  have i: "entries_ok u (caches_list m)" using t by (simp add: tables_ok_def)
  obtain b where b: "caches_list m (fd_pair e) = Some b" "opposite (fd_status e) (fd_status b)" "fd_pair e \<noteq> fd"
    by (rule partner [OF t e(1)]) (use e(3) in auto)
  have "addr_wf e" "addr_wf b"
    using entry_addr [OF i e(1)] entry_addr [OF i b(1)] e(2) b(2) by (auto simp: opposite_def)
  then obtain x y x' y' where xy: "field_ok CHR ''#'' x" "fd_ip_cache e = x @ ''#'' @ y"
    "field_ok CHR ''#'' x'" "fd_ip_cache b = x' @ ''#'' @ y'" by (auto simp: addr_wf_def)
  let ?msg = "''C#'' @ (x @ '':'' @ y) @ ''#'' @ x' @ '':'' @ y'"
  have "length (fd_ip_cache e) \<le> 30000" "length (fd_ip_cache b) \<le> 30000"
    using s e(1) b(1) by (auto simp: short_addrs_def)
  then have "length ?msg < BUF_SIZE" using xy by (simp add: BUF_SIZE_def)
  note posts = post_all_Inr [OF this]
  show ?thesis
    using e b with_colon_addr [OF xy(1)] with_colon_addr [OF xy(3)] xy(2,4) posts
    by (auto simp: promote_replica_def node_def modify_def Let_def partner_freed_def unpaired_primary_def)
qed

lemma disaster_total:
  assumes t: "tables_ok u m" and e: "caches_list m fd = Some e"
    and o: "fd_status e = CHR ''R'' \<Longrightarrow> fd_pair e \<noteq> -1" and s: "short_addrs m"
  shows "\<exists>ps m'. disaster fd m = Inr (ps, m') \<and> partner_freed fd m m'"
proof -
  consider (R) "fd_status e = CHR ''R''" | (P) "fd_status e = CHR ''P''" "0 < fd_pair e"
    | (alone) "fd_status e = CHR ''P''" "\<not> 0 < fd_pair e"
    | (other) "fd_status e \<noteq> CHR ''R''" "fd_status e \<noteq> CHR ''P''" by blast
  then show ?thesis
  proof cases
    case R
    obtain b where b: "caches_list m (fd_pair e) = Some b" "opposite (fd_status e) (fd_status b)" "fd_pair e \<noteq> fd"
      by (rule partner [OF t e o [OF R]]) blast
    then have "b\<lparr>fd_pair := -1\<rparr> = unpaired_primary b" using R by (simp add: opposite_def unpaired_primary_def)
    with R e b show ?thesis
      by (simp add: disaster_def replica_down_def node_def modify_def partner_freed_def) blast
  next
    case P
    with promote_replica_total [OF t e P s] e show ?thesis by (simp add: disaster_def node_def)
  next
    case alone
    have "length (fd_ip_cache e) \<le> 30000" using s e by (auto simp: short_addrs_def)
    then have "length (''D#'' @ fd_ip_cache e) < BUF_SIZE" by (simp add: BUF_SIZE_def)
    from post_all_Inr [OF this] alone e show ?thesis
      by (simp add: disaster_def node_def remove_primary_def Let_def partner_freed_def)
  next
    case other
    then show ?thesis using e by (simp add: disaster_def node_def partner_freed_def)
  qed
qed

lemma entries_after:
  assumes "partner_freed fd m m'"
  shows "caches_list (forget fd m') k = Some e' \<Longrightarrow>
      \<exists>e. k \<noteq> fd \<and> caches_list m k = Some e \<and> (e' = e \<or> e' = unpaired_primary e)"
    "caches_list m k = Some e \<Longrightarrow> k \<noteq> fd \<Longrightarrow>
      \<exists>e'. caches_list (forget fd m') k = Some e' \<and> (e' = e \<or> e' = unpaired_primary e)"
  using assms by (auto simp: partner_freed_def split: if_splits)

lemma expired_after:
  assumes "partner_freed fd m m'"
  shows "expired t (forget fd m') e = expired t m e"
  using assms by (simp add: partner_freed_def expired_def heard_at_def)

lemma unpaired_primary_sel [simp]:
  "expired t m (unpaired_primary e) = expired t m e" "fd_ip_cache (unpaired_primary e) = fd_ip_cache e"
  "fd_status (unpaired_primary e) = CHR ''P''"
  by (simp_all add: unpaired_primary_def expired_def)

lemma fds_after:
  assumes "partner_freed fd m m'"
  shows "expired_fds t (forget fd m') = expired_fds t m - {fd}"
    "live_fds t (forget fd m') = live_fds t m - {fd}"
  using entries_after [OF assms] expired_after [OF assms]
  unfolding expired_fds_def live_fds_def by (fastforce simp del: forget_sel)+

section \<open>Progress\<close>

definition detect_inv :: "int set \<Rightarrow> int \<Rightarrow> int \<Rightarrow> post list \<times> Master \<Rightarrow> bool" where
  "detect_inv u t0 t1 st \<longleftrightarrow> master_ok u (snd st) \<and> finite (dom (caches_list (snd st))) \<and>
     settled t0 t1 (snd st) \<and> no_orphan t0 (snd st) \<and> short_addrs (snd st)"

definition detect_env :: "int \<Rightarrow> int \<Rightarrow> detector_pass \<Rightarrow> bool" where
  "detect_env t0 t1 p \<longleftrightarrow> t0 \<le> fst p \<and> fst p \<le> t1 \<and> enumerates (snd p)"

lemma conditions_after:
  assumes f: "partner_freed fd m m'" and i: "settled t0 t1 m" "no_orphan t0 m" "short_addrs m"
  shows "settled t0 t1 (forget fd m')" "no_orphan t0 (forget fd m')" "short_addrs (forget fd m')"
  using entries_after(1) [OF f] expired_after [OF f] i
  unfolding settled_def no_orphan_def short_addrs_def by (fastforce simp del: forget_sel)+

lemma conditions_map:
  assumes "heard_at (m\<lparr>cacheAddrMap := f\<rparr>) = heard_at m"
  shows "settled t0 t1 (m\<lparr>cacheAddrMap := f\<rparr>) = settled t0 t1 m" "no_orphan t0 (m\<lparr>cacheAddrMap := f\<rparr>) = no_orphan t0 m"
    "short_addrs (m\<lparr>cacheAddrMap := f\<rparr>) = short_addrs m" "expired_fds t (m\<lparr>cacheAddrMap := f\<rparr>) = expired_fds t m"
    "live_fds t (m\<lparr>cacheAddrMap := f\<rparr>) = live_fds t m"
  using assms by (simp_all add: settled_def no_orphan_def short_addrs_def expired_fds_def live_fds_def expired_def)

lemma expired_mono: "expired now m e \<Longrightarrow> now \<le> now' \<Longrightarrow> expired now' m e"
  by (simp add: expired_def)

text \<open>One pass: with no dead server nothing changes, else exactly one is removed.\<close>

lemma pass_removes_one:
  assumes inv: "detect_inv u t0 t1 (out, m)" and env: "detect_env t0 t1 (now, ord)"
  shows "\<exists>ps m'. periodicDetectCache now (ord m) m = Inr (ps, m') \<and> detect_inv u t0 t1 (out', m') \<and>
    live_fds t1 m' = live_fds t1 m \<and>
    (expired_fds t0 m = {} \<and> expired_fds t0 m' = {} \<or>
     (\<exists>fd \<in> expired_fds t0 m. expired_fds t0 m' = expired_fds t0 m - {fd}))"
proof -
  have ok: "master_ok u m" and fin: "finite (dom (caches_list m))" and c: "settled t0 t1 m" "no_orphan t0 m" "short_addrs m"
    using inv by (auto simp: detect_inv_def)
  have ent: "entries_ok u (caches_list m)" using ok by (simp add: master_ok_def tables_ok_def)
  have time: "t0 \<le> now" "now \<le> t1" and ord: "set (ord m) = dom (caches_list m)"
    using env fin by (auto simp: detect_env_def enumerates_def)
  obtain d f where d: "first_dead now (ord m) m = Inr (d, m\<lparr>cacheAddrMap := f\<rparr>)"
    and h: "heard_at (m\<lparr>cacheAddrMap := f\<rparr>) = heard_at m"
    and s: "case d of None \<Rightarrow> set (ord m) \<inter> expired_fds now m = {} | Some fd \<Rightarrow> fd \<in> expired_fds now m"
    using first_dead_total [OF ent, of "ord m" now] ord by auto
  let ?m1 = "m\<lparr>cacheAddrMap := f\<rparr>"
  note same = conditions_map [OF h]
  show ?thesis
  proof (cases d)
    case None
    have "expired_fds t0 m = {}"
    proof (rule equals0I)
      fix fd assume "fd \<in> expired_fds t0 m"
      then have "fd \<in> expired_fds now m" "fd \<in> dom (caches_list m)"
        using expired_mono time(1) by (auto simp: expired_fds_def)
      with s None ord show False by auto
    qed
    moreover have "periodicDetectCache now (ord m) m = Inr ([], ?m1)" using d None by (simp add: periodicDetectCache_def)
    moreover have "detect_inv u t0 t1 (out', ?m1)" using ok fin c same by (simp add: detect_inv_def master_ok_map)
    ultimately show ?thesis using same by auto
  next
    case (Some fd)
    then obtain e where e: "caches_list m fd = Some e" "expired now m e" using s by (auto simp: expired_fds_def)
    have late: "expired t1 m e" using expired_mono [OF e(2) time(2)] .
    have dead: "expired t0 m e" using c(1) e(1) late by (auto simp: settled_def)
    have pos: "0 < fd" using ent e(1) by (auto simp: entries_ok_def)
    have orphan: "fd_status e = CHR ''R'' \<Longrightarrow> fd_pair e \<noteq> -1" using c(2) e(1) dead by (auto simp: no_orphan_def)
    have ok1: "master_ok u ?m1" and t1: "tables_ok u ?m1" and e1: "caches_list ?m1 fd = Some e" and s1: "short_addrs ?m1"
      using ok e(1) c(3) same by (simp_all add: master_ok_map) (simp add: master_ok_def tables_ok_def)
    obtain ps m2 where m2: "disaster fd ?m1 = Inr (ps, m2)" "partner_freed fd ?m1 m2"
      using disaster_total [OF t1 e1 orphan s1] by blast
    have run: "periodicDetectCache now (ord m) m = Inr (ps, forget fd m2)"
      using d Some m2(1) pos by (simp add: periodicDetectCache_def)
    have "dom (caches_list (forget fd m2)) \<subseteq> dom (caches_list m)" using entries_after(1) [OF m2(2)] by fastforce
    then have fin': "finite (dom (caches_list (forget fd m2)))" using fin by (rule finite_subset)
    have inv': "detect_inv u t0 t1 (out', forget fd m2)"
      using disaster_ok [OF ok1 m2(1)] fin' conditions_after [OF m2(2)] c same by (simp add: detect_inv_def)
    have "fd \<in> expired_fds t0 m" "fd \<notin> live_fds t1 m" using e(1) dead late by (auto simp: expired_fds_def live_fds_def)
    then show ?thesis using run inv' fds_after [OF m2(2)] same by (intro exI [of _ ps] exI [of _ "forget fd m2"]) auto
  qed
qed

lemma expired_finite: "finite (dom (caches_list m)) \<Longrightarrow> finite (expired_fds t m)"
  by (rule finite_subset [of _ "dom (caches_list m)"]) (auto simp: expired_fds_def)

lemma turn_removes_one:
  assumes "detect_env t0 t1 p" "detect_inv u t0 t1 st"
  shows "\<exists>st'. detect_turn p st = Inr st' \<and> detect_inv u t0 t1 st' \<and> live_fds t1 (snd st') = live_fds t1 (snd st) \<and>
    card (expired_fds t0 (snd st')) \<le> card (expired_fds t0 (snd st)) - 1"
proof -
  obtain now ord out m where p: "p = (now, ord)" "st = (out, m)" by (cases p, cases st)
  have "finite (expired_fds t0 m)" using assms(2) p(2) by (simp add: detect_inv_def expired_finite)
  moreover obtain ps m' where "periodicDetectCache now (ord m) m = Inr (ps, m')" "\<And>out'. detect_inv u t0 t1 (out', m')"
    "live_fds t1 m' = live_fds t1 m" "expired_fds t0 m = {} \<and> expired_fds t0 m' = {} \<or>
     (\<exists>fd \<in> expired_fds t0 m. expired_fds t0 m' = expired_fds t0 m - {fd})"
    using pass_removes_one [of u t0 t1 out m now ord] assms p by (fastforce simp: detect_inv_def)
  ultimately show ?thesis using p by (auto simp: detect_turn_def)
qed

interpretation detector: progress_frame detect_turn "detect_env t0 t1" "detect_inv u t0 t1"
    "\<lambda>st. card (expired_fds t0 (snd st))" "\<lambda>st. live_fds t1 (snd st)"
  for u t0 t1
proof unfold_locales
  fix p st
  assume "detect_env t0 t1 p" "detect_inv u t0 t1 st"
  from turn_removes_one [OF this]
  show "\<exists>st'. detect_turn p st = Inr st' \<and> detect_inv u t0 t1 st' \<and>
      card (expired_fds t0 (snd st')) \<le> card (expired_fds t0 (snd st)) - 1"
    "\<And>st'. detect_turn p st = Inr st' \<Longrightarrow> live_fds t1 (snd st') = live_fds t1 (snd st)"
    by auto
qed

lemma detect_passes_turns: "detect_passes ps = detector.turns ps"
  by (induction ps) (rule ext, simp)+

lemma reach_finite: "master_history u lv m \<Longrightarrow> finite u"
  by (induction rule: master_history.induct) auto

lemma detect_inv_reach:
  assumes "master_reach u m" "settled t0 t1 m" "no_orphan t0 m" "short_addrs m"
  shows "detect_inv u t0 t1 (out, m)"
proof -
  have "dom (caches_list m) \<subseteq> u" using entries_of [OF reach_ok [OF assms(1)]] by (auto simp: entries_ok_def)
  then have "finite (dom (caches_list m))" using reach_finite [OF assms(1)] by (rule finite_subset)
  with assms reach_ok [OF assms(1)] show ?thesis by (simp add: detect_inv_def)
qed

lemma none_expired:
  assumes "detect_inv u t0 t1 (out, m)" "card (expired_fds t0 m) = 0"
  shows "dom (caches_list m) = live_fds t1 m" "set (fd_node m) \<subseteq> live_fds t1 m"
proof -
  have i: "finite (dom (caches_list m))" "settled t0 t1 m" "nodes_ok (caches_list m) (fd_node m)"
    using assms(1) by (simp_all add: detect_inv_def master_ok_def tables_ok_def)
  then have "expired_fds t0 m = {}" using assms(2) expired_finite card_0_eq by blast
  with i(2) show d: "dom (caches_list m) = live_fds t1 m"
    by (auto simp: expired_fds_def live_fds_def settled_def)
  show "set (fd_node m) \<subseteq> live_fds t1 m" unfolding d [symmetric] using i(3) by (auto simp: nodes_ok_def)
qed

section \<open>Properties\<close>

text \<open>
  C12. The failure detector catches up: from any state the coordinator can reach, while no
  further server dies and no replica without a primary is dead, as many passes as there are dead
  servers, whatever the order each of them meets the servers in, end without error; they remove
  every dead server, keep every live one, and leave only live servers to route keys to.
\<close>

theorem detector_catches_up:
  assumes "master_reach u m" "settled t0 t1 m" "no_orphan t0 m" "short_addrs m"
    "\<forall>(now, ord) \<in> set passes. t0 \<le> now \<and> now \<le> t1 \<and> enumerates ord"
    "card (expired_fds t0 m) \<le> length passes"
  shows "\<exists>ps m'. detect_passes passes ([], m) = Inr (ps, m') \<and>
    dom (caches_list m') = live_fds t1 m \<and> set (fd_node m') \<subseteq> live_fds t1 m"
proof -
  have "\<forall>p \<in> set passes. detect_env t0 t1 p" using assms(5) by (auto simp: detect_env_def)
  from detector.turns_reach [OF this detect_inv_reach [OF assms(1-4), of "[]"]] assms(6)
  obtain ps m' where st: "detector.turns passes ([], m) = Inr (ps, m')" "detect_inv u t0 t1 (ps, m')"
    "card (expired_fds t0 m') = 0" "live_fds t1 m' = live_fds t1 m" by auto
  with none_expired [OF st(2,3)] show ?thesis by (simp add: detect_passes_turns)
qed

theorem detector_catches_up_witness:
  "\<exists>ps m'. detect_passes [(201, \<lambda>m. sorted_list_of_set (dom (caches_list m))),
      (203, \<lambda>m. sorted_list_of_set (dom (caches_list m)))] ([], demo_pair) = Inr (ps, m') \<and> dom (caches_list m') = {7}"
proof -
  have "settled 201 203 demo_pair" "no_orphan 201 demo_pair" "short_addrs demo_pair"
    "expired_fds 201 demo_pair = {5}" "live_fds 203 demo_pair = {7}"
    by (auto simp: settled_def no_orphan_def short_addrs_def expired_fds_def live_fds_def expired_def heard_at_def
        demo_pair_def demo_entry_def heartBeatInterval_def split: if_splits)
  moreover have "enumerates (\<lambda>m. sorted_list_of_set (dom (caches_list m)))" by (simp add: enumerates_def)
  ultimately show ?thesis
    using detector_catches_up [OF demo_pair_reach, of 201 203 "[(201, \<lambda>m. sorted_list_of_set (dom (caches_list m))),
      (203, \<lambda>m. sorted_list_of_set (dom (caches_list m)))]"] by auto
qed

end
