(* ===== verification/Frames.thy ===== *)
theory Frames
  imports Cluster
begin

text \<open>
  What is on the wire: every \<open>send\<close> of the coordinator, of the heartbeat and of the hand-over sends
  the whole buffer of \<open>BUF_SIZE\<close> bytes, the text, a NUL and whatever the buffer held behind it; a
  \<open>recv\<close> takes what has arrived, at most \<open>BUF_SIZE\<close> bytes, into a buffer of zeros.  The other
  theories let messages arrive whole; here is when they do, and what happens otherwise.
\<close>

section \<open>Buffers and the byte stream\<close>

definition strcpy :: "string \<Rightarrow> string \<Rightarrow> string" where
  "strcpy buf msg = msg @ NUL # drop (Suc (length msg)) buf"

text \<open>The frames of successive messages that are copied into one buffer\<close>

fun send_frames :: "string \<Rightarrow> string list \<Rightarrow> string list" where
  "send_frames buf [] = []"
| "send_frames buf (msg # texts) = strcpy buf msg # send_frames (strcpy buf msg) texts"

text \<open>Successive calls of \<open>recv\<close>, by the number of bytes each of them takes, and the text a buffer holds\<close>

fun recv_pieces :: "nat list \<Rightarrow> string \<Rightarrow> string list" where
  "recv_pieces [] stream = []"
| "recv_pieces (n # ns) stream = take n stream # recv_pieces ns (drop n stream)"

definition text_ok :: "string \<Rightarrow> bool" where
  "text_ok msg \<longleftrightarrow> NUL \<notin> set msg \<and> length msg < BUF_SIZE"

lemma strcpy_length: "length msg < length buf \<Longrightarrow> length (strcpy buf msg) = length buf"
  by (simp add: strcpy_def)

text \<open>
  When every \<open>recv\<close> finds a whole frame, the texts arrive as they were sent, although every frame carries
  the remains of the longer messages before it behind its NUL.
\<close>

lemma frames_whole:
  assumes "length buf = BUF_SIZE" "\<forall>t \<in> set texts. text_ok t"
  shows "map c_str (recv_pieces (replicate (length texts) BUF_SIZE) (concat (send_frames buf texts) @ rest)) = texts"
  using assms
proof (induction texts arbitrary: buf)
  case (Cons t texts)
  have len: "length (strcpy buf t) = BUF_SIZE" using Cons.prems by (simp add: strcpy_length text_ok_def)
  have "c_str (strcpy buf t) = t" using Cons.prems(2) by (simp add: strcpy_def c_str_append text_ok_def)
  with Cons.IH [OF len] Cons.prems(2) len show ?case by simp
qed simp

text \<open>One frame in two pieces\<close>

lemma frame_split:
  assumes "NUL \<notin> set msg" "n \<le> length msg"
  shows "map c_str (recv_pieces [n, length (strcpy buf msg) - n] (strcpy buf msg)) = [take n msg, drop n msg]"
proof -
  have "NUL \<notin> set (take n msg)" "NUL \<notin> set (drop n msg)"
    using assms(1) by (auto dest: in_set_takeD in_set_dropD)
  then show ?thesis using assms(2) by (simp add: strcpy_def c_str_append c_str_free)
qed

lemma frame_split_behind:
  assumes "NUL \<notin> set msg" "length msg < n"
  shows "map c_str (recv_pieces [n, length (strcpy buf msg) - n] (strcpy buf msg)) = [msg, c_str (drop n buf)]"
proof -
  have "take n (strcpy buf msg) = msg @ NUL # take (n - Suc (length msg)) (drop (Suc (length msg)) buf)"
    using assms(2) by (simp add: strcpy_def take_Cons')
  moreover have "drop n (strcpy buf msg) = drop n buf"
    using assms(2) by (simp add: strcpy_def drop_Cons')
  moreover have "take (length (strcpy buf msg) - n) (drop n (strcpy buf msg)) = drop n (strcpy buf msg)" by simp
  ultimately show ?thesis using assms(1) by (simp add: c_str_append)
qed

lemma unknown_message:
  assumes "initial_flag c" "2 \<le> length m" "hd m \<notin> {CHR ''K'', CHR ''N'', CHR ''P'', CHR ''R'', CHR ''C'', CHR ''D''}"
  shows "Heartbeat (Received m) [] c = Inr (heart_message c, c)"
proof -
  obtain i where "master_spear m = Inr i" using master_spear_ok [OF assms(2)] by blast
  moreover obtain x xs where "m = x # xs" using assms(2) by (cases m) auto
  ultimately have "ReadFromMaster m c = Inr c" using assms(3) by (simp add: ReadFromMaster_def substr_def)
  then show ?thesis using assms(1) by (simp add: Heartbeat_def)
qed

section \<open>Properties\<close>

text \<open>
  C25. A frame that arrives in two pieces: the first \<open>recv\<close> of a server takes part of the port of a
  new server for the whole of it, and the rest is ignored, so that the new server is entered in the list
  under an address that is not its own.
\<close>

theorem split_frame_corrupts_list:
  assumes "initial_flag c" "status c \<noteq> ''K''" "CHR ''#'' \<notin> set ip" "NUL \<notin> set (ip @ port)"
    "k + 2 \<le> length port" "is_digit (port ! k)" "(ip, take k port) \<noteq> self_addr c"
    "frame = strcpy buf (''N#'' @ ip @ ''#'' @ port)" "n = length ip + 3 + k"
  shows "\<exists>c'. receive_messages (map c_str (recv_pieces [n, length frame - n] frame)) c = Inr c' \<and>
    cache_list c' = cache_list c @ [(ip, take k port)]"
proof -
  let ?m = "''N#'' @ ip @ ''#'' @ port" and ?p = "New_cache ip (take k port)"
  have "map c_str (recv_pieces [n, length frame - n] frame) = [take n ?m, drop n ?m]"
    unfolding assms(8) by (rule frame_split) (use assms(4,5,9) in auto)
  moreover have "take n ?m = command_text ?p" "drop n ?m = drop k port"
    using assms(9) by (simp_all add: eval_nat_numeral)
  ultimately have pieces: "map c_str (recv_pieces [n, length frame - n] frame) = [command_text ?p, drop k port]" by simp
  let ?c = "command_effect ?p c"
  obtain h where 1: "Heartbeat (Received (command_text ?p)) [] c = Inr (h, ?c)"
    using heartbeat_command_step [of c ?p "[]"] assms(1-3) by auto
  have "hd (drop k port) = port ! k" using assms(5) by (simp add: hd_drop_conv_nth)
  then have "hd (drop k port) \<notin> {CHR ''K'', CHR ''N'', CHR ''P'', CHR ''R'', CHR ''C'', CHR ''D''}"
    using assms(6) by (auto simp: is_digit_def)
  then have 2: "Heartbeat (Received (drop k port)) [] ?c = Inr (heart_message ?c, ?c)"
    using assms(1,5) by (intro unknown_message) simp_all
  show ?thesis unfolding pieces using 1 2 assms(7) by (simp del: command_text.simps)
qed

theorem split_frame_corrupts_list_witness:
  "\<exists>frame c'. frame = strcpy [] ''N#b#3456'' \<and>
     receive_messages (map c_str (recv_pieces [5, length frame - 5] frame))
       (Cache_new 10 ''P'' ''a'' ''1'' ''2''\<lparr>initial_flag := True\<rparr>) = Inr c' \<and> cache_list c' = [(''b'', ''3'')]"
  using split_frame_corrupts_list [OF _ _ _ _ _ _ _ refl refl,
      of "Cache_new 10 ''P'' ''a'' ''1'' ''2''\<lparr>initial_flag := True\<rparr>" "''b''" "''3456''" 1 "[]"]
  by (simp add: Cache_new_def is_digit_def self_addr_def)

end
