(* ===== verification/Thread_Pool.thy ===== *)
theory Thread_Pool
  imports Prelude "HOL-Library.Word" "HOL-Library.Multiset"
begin

text \<open>
  \<open>cache/src/threadPool.hpp\<close>: the worker pool of the cache server as a step relation.  Every
  critical section of the code is one step; the condition variable is the set of the workers that
  sleep in \<open>wait\<close>, from which \<open>notify_one\<close> and \<open>notify_all\<close> wake them (and which a worker may leave on
  its own, a spurious wake-up).  A task is a number; \<open>submitted\<close>, \<open>taken\<close> and \<open>finished\<close> record the
  history, and \<open>destructor\<close> how far the destructor is.
\<close>

section \<open>State and steps\<close>

text \<open>A worker is about to take the mutex, sleeps in \<open>__cv.wait\<close>, runs a task, or has returned.\<close>

datatype worker = Ready | Waiting | Running nat | Exited

datatype destruction = Alive | Stopping | Joining

record ThreadPool =
  threads :: "worker list"
  tasks :: "nat list"
  isPoolStoped :: bool
  numActiveThreads :: "32 word"
  pool_capacity :: "32 word"
  destructor :: destruction
  submitted :: "nat list"
  taken :: "nat list"
  finished :: "nat list"

text \<open>The capacity is cut to 32 bits.\<close>

definition ThreadPool_new :: "64 word \<Rightarrow> ThreadPool" where
  "ThreadPool_new capacity =
     \<lparr>threads = replicate (unat (ucast capacity :: 32 word)) Ready, tasks = [], isPoolStoped = False,
      numActiveThreads = 0, pool_capacity = ucast capacity, destructor = Alive,
      submitted = [], taken = [], finished = []\<rparr>"

definition before_task_hook :: "ThreadPool \<Rightarrow> ThreadPool" where
  "before_task_hook p = p\<lparr>numActiveThreads := numActiveThreads p + 1\<rparr>"

definition after_task_hook :: "ThreadPool \<Rightarrow> ThreadPool" where
  "after_task_hook p = p\<lparr>numActiveThreads := numActiveThreads p - 1\<rparr>"

text \<open>
  The condition variable: \<open>notify_one\<close> wakes one sleeping worker, the \<open>i\<close>-th, if there is any;
  \<open>notify_all\<close> wakes all of them.
\<close>

definition wake :: "worker \<Rightarrow> worker" where
  "wake w = (if w = Waiting then Ready else w)"

definition notify_one :: "nat \<Rightarrow> ThreadPool \<Rightarrow> ThreadPool" where
  "notify_one i p = (if i < length (threads p) then p\<lparr>threads := (threads p)[i := wake (threads p ! i)]\<rparr> else p)"

definition notify_all :: "ThreadPool \<Rightarrow> ThreadPool" where
  "notify_all p = p\<lparr>threads := map wake (threads p)\<rparr>"

definition notifies :: "nat \<Rightarrow> ThreadPool \<Rightarrow> bool" where
  "notifies i p \<longleftrightarrow> Waiting \<in> set (threads p) \<longrightarrow> i < length (threads p) \<and> threads p ! i = Waiting"

definition enqueue :: "nat \<Rightarrow> nat \<Rightarrow> ThreadPool \<Rightarrow> ThreadPool result" where
  "enqueue task i p =
     (if isPoolStoped p then Inl Runtime_error
      else Inr (notify_one i (p\<lparr>tasks := tasks p @ [task], submitted := submitted p @ [task]\<rparr>)))"

text \<open>
  The first critical section of \<open>wait_loop\<close>: while its predicate does not hold, the worker sleeps;
  once it holds, the worker returns or takes a task.  And the second.
\<close>

definition wait_predicate :: "ThreadPool \<Rightarrow> bool" where
  "wait_predicate p \<longleftrightarrow> isPoolStoped p \<or> tasks p \<noteq> []"

definition worker_take :: "nat \<Rightarrow> ThreadPool \<Rightarrow> ThreadPool" where
  "worker_take i p =
     (if \<not> wait_predicate p then p\<lparr>threads := (threads p)[i := Waiting]\<rparr>
      else case tasks p of
        [] \<Rightarrow> p\<lparr>threads := (threads p)[i := Exited]\<rparr>
      | task # rest \<Rightarrow> before_task_hook (p\<lparr>threads := (threads p)[i := Running task], tasks := rest,
                         taken := taken p @ [task]\<rparr>))"

definition worker_finish :: "nat \<Rightarrow> nat \<Rightarrow> ThreadPool \<Rightarrow> ThreadPool" where
  "worker_finish i task p =
     after_task_hook (p\<lparr>threads := (threads p)[i := Ready], finished := finished p @ [task]\<rparr>)"

text \<open>The destructor: it stops the pool, wakes the workers, and joins them.\<close>

definition pool_stop :: "ThreadPool \<Rightarrow> ThreadPool" where
  "pool_stop p = p\<lparr>isPoolStoped := True, destructor := Stopping\<rparr>"

definition pool_notify :: "ThreadPool \<Rightarrow> ThreadPool" where
  "pool_notify p = notify_all (p\<lparr>destructor := Joining\<rparr>)"

definition pool_joined :: "ThreadPool \<Rightarrow> bool" where
  "pool_joined p \<longleftrightarrow> destructor p = Joining \<and> set (threads p) \<subseteq> {Exited}"

inductive worker_step :: "ThreadPool \<Rightarrow> ThreadPool \<Rightarrow> bool" where
  take_task: "i < length (threads p) \<Longrightarrow> threads p ! i = Ready \<Longrightarrow> worker_step p (worker_take i p)"
| finish_task: "i < length (threads p) \<Longrightarrow> threads p ! i = Running t \<Longrightarrow> worker_step p (worker_finish i t p)"

inductive shutdown_step :: "ThreadPool \<Rightarrow> ThreadPool \<Rightarrow> bool" where
  worker: "worker_step p p' \<Longrightarrow> shutdown_step p p'"
| notify: "destructor p = Stopping \<Longrightarrow> shutdown_step p (pool_notify p)"

inductive pool_step :: "ThreadPool \<Rightarrow> ThreadPool \<Rightarrow> bool" where
  work: "shutdown_step p p' \<Longrightarrow> pool_step p p'"
| spurious: "i < length (threads p) \<Longrightarrow> threads p ! i = Waiting \<Longrightarrow> pool_step p (notify_one i p)"
| submit: "notifies i p \<Longrightarrow> enqueue t i p = Inr p' \<Longrightarrow> pool_step p p'"
| stop: "destructor p = Alive \<Longrightarrow> pool_step p (pool_stop p)"

inductive_cases worker_stepE: "worker_step p p'"
inductive_cases shutdown_stepE: "shutdown_step p p'"
inductive_cases pool_stepE: "pool_step p p'"

definition pool_reachable :: "64 word \<Rightarrow> ThreadPool \<Rightarrow> bool" where
  "pool_reachable n p \<longleftrightarrow> pool_step\<^sup>*\<^sup>* (ThreadPool_new n) p"

lemma reach_new [intro]: "pool_reachable n (ThreadPool_new n)"
  by (simp add: pool_reachable_def)

lemma reach_step: "pool_reachable n p \<Longrightarrow> pool_step p p' \<Longrightarrow> pool_reachable n p'"
  by (simp add: pool_reachable_def)

section \<open>Invariant\<close>

fun running_tasks :: "worker list \<Rightarrow> nat list" where
  "running_tasks [] = []"
| "running_tasks (Running t # ws) = t # running_tasks ws"
| "running_tasks (_ # ws) = running_tasks ws"

lemma running_length: "length (running_tasks ws) \<le> length ws"
  by (induction ws rule: running_tasks.induct) auto

lemma running_update:
  "i < length ws \<Longrightarrow> mset (running_tasks (ws[i := w])) + mset (running_tasks [ws ! i]) =
    mset (running_tasks ws) + mset (running_tasks [w])"
proof (induction ws arbitrary: i)
  case (Cons v ws)
  then show ?case by (cases i; cases v; cases w; fastforce)
qed simp

lemma running_wake [simp]: "running_tasks (map wake ws) = running_tasks ws"
  by (induction ws rule: running_tasks.induct) (simp_all add: wake_def)

lemma running_idle:
  assumes "i < length ws" "running_tasks [ws ! i] = []" "running_tasks [w] = []"
  shows "mset (running_tasks (ws[i := w])) = mset (running_tasks ws)"
  using running_update [OF assms(1), of w] assms(2,3) by simp

lemma running_idle_length:
  assumes "i < length ws" "running_tasks [ws ! i] = []" "running_tasks [w] = []"
  shows "length (running_tasks (ws[i := w])) = length (running_tasks ws)"
  using arg_cong [OF running_idle [OF assms], of size] by simp

text \<open>How many workers are about to look at the queue\<close>

definition awake :: "worker list \<Rightarrow> nat" where
  "awake ws = count_list ws Ready"

lemma awake_update:
  "i < length ws \<Longrightarrow> awake (ws[i := w]) + (if ws ! i = Ready then 1 else 0) = awake ws + (if w = Ready then 1 else 0)"
proof (induction ws arbitrary: i)
  case (Cons v ws)
  show ?case
  proof (cases i)
    case (Suc j)
    with Cons.prems have "j < length ws" by simp
    from Cons.IH [OF this] Suc show ?thesis by (simp add: awake_def split: if_splits)
  qed (simp add: awake_def)
qed simp

lemma in_update: "x \<in> set (xs[i := y]) \<Longrightarrow> x = y \<or> x \<in> set xs"
  using set_update_subset_insert by fastforce

definition pool_inv :: "64 word \<Rightarrow> ThreadPool \<Rightarrow> bool" where
  "pool_inv n p \<longleftrightarrow> taken p @ tasks p = submitted p \<and>
     mset (taken p) = mset (finished p) + mset (running_tasks (threads p)) \<and>
     unat (numActiveThreads p) = length (running_tasks (threads p)) \<and>
     length (threads p) = unat (ucast n :: 32 word) \<and> pool_capacity p = ucast n \<and>
     (isPoolStoped p \<longleftrightarrow> destructor p \<noteq> Alive) \<and>
     (Exited \<in> set (threads p) \<longrightarrow> isPoolStoped p \<and> tasks p = []) \<and>
     (destructor p = Joining \<longrightarrow> Waiting \<notin> set (threads p)) \<and>
     (Waiting \<in> set (threads p) \<longrightarrow> length (tasks p) \<le> awake (threads p))"

lemma pool_inv_new: "pool_inv n (ThreadPool_new n)"
proof -
  have "running_tasks (replicate k Ready) = []" for k by (induction k) auto
  then show ?thesis by (auto simp: pool_inv_def ThreadPool_new_def)
qed

lemma word32_bound: "unat (w :: 32 word) < 2 ^ 32"
  by (rule order_less_le_trans [OF unsigned_less]) simp

lemma inv_sleep:
  assumes inv: "pool_inv n p" and i: "i < length (threads p)" "threads p ! i = Ready" and w: "\<not> wait_predicate p"
  shows "pool_inv n (worker_take i p)"
proof -
  have "tasks p = []" "destructor p = Alive" "Exited \<notin> set (threads p)"
    using inv w by (auto simp: pool_inv_def wait_predicate_def)
  moreover have "mset (running_tasks ((threads p)[i := Waiting])) = mset (running_tasks (threads p))"
    "length (running_tasks ((threads p)[i := Waiting])) = length (running_tasks (threads p))"
    using i by (simp_all add: running_idle running_idle_length)
  ultimately show ?thesis using inv w
    by (auto simp: pool_inv_def worker_take_def dest: in_update)
qed

lemma inv_exit:
  assumes inv: "pool_inv n p" and i: "i < length (threads p)" "threads p ! i = Ready" and w: "isPoolStoped p" "tasks p = []"
  shows "pool_inv n (worker_take i p)"
proof -
  have "mset (running_tasks ((threads p)[i := Exited])) = mset (running_tasks (threads p))"
    "length (running_tasks ((threads p)[i := Exited])) = length (running_tasks (threads p))"
    using i by (simp_all add: running_idle running_idle_length)
  then show ?thesis using inv w
    by (auto simp: pool_inv_def worker_take_def wait_predicate_def dest: in_update)
qed

lemma inv_run:
  assumes inv: "pool_inv n p" and i: "i < length (threads p)" "threads p ! i = Ready" and t: "tasks p = t # rest"
  shows "pool_inv n (worker_take i p)"
proof -
  let ?ws = "(threads p)[i := Running t]"
  have r: "mset (running_tasks ?ws) = add_mset t (mset (running_tasks (threads p)))"
    using running_update [OF i(1), of "Running t"] i(2) by simp
  then have len: "length (running_tasks ?ws) = Suc (length (running_tasks (threads p)))"
    by (metis size_mset size_add_mset)
  have "length (running_tasks ?ws) \<le> unat (ucast n :: 32 word)"
    using running_length [of ?ws] inv by (simp add: pool_inv_def)
  then have "Suc (unat (numActiveThreads p)) < 2 ^ 32"
    using len inv word32_bound [of "ucast n"] by (simp add: pool_inv_def)
  then have act: "unat (numActiveThreads p + 1) = Suc (unat (numActiveThreads p))"
    by (simp add: unat_word_ariths)
  have "Exited \<notin> set (threads p)" using inv t by (auto simp: pool_inv_def)
  then have "Exited \<notin> set ?ws" by (auto dest: in_update)
  moreover have "Waiting \<in> set ?ws \<Longrightarrow> Waiting \<in> set (threads p)" by (auto dest: in_update)
  moreover have "awake ?ws + 1 = awake (threads p)" using awake_update [OF i(1), of "Running t"] i(2) by simp
  ultimately show ?thesis using inv t r len act
    by (auto simp: pool_inv_def worker_take_def wait_predicate_def before_task_hook_def)
qed

lemma inv_take:
  assumes "pool_inv n p" "i < length (threads p)" "threads p ! i = Ready"
  shows "pool_inv n (worker_take i p)"
proof (cases "wait_predicate p")
  case True
  then show ?thesis using inv_exit [OF assms] inv_run [OF assms] by (cases "tasks p") (auto simp: wait_predicate_def)
qed (rule inv_sleep [OF assms])

lemma inv_finish:
  assumes inv: "pool_inv n p" and i: "i < length (threads p)" "threads p ! i = Running t"
  shows "pool_inv n (worker_finish i t p)"
proof -
  let ?ws = "(threads p)[i := Ready]"
  have r: "add_mset t (mset (running_tasks ?ws)) = mset (running_tasks (threads p))"
    using running_update [OF i(1), of Ready] i(2) by simp
  then have len: "length (running_tasks (threads p)) = Suc (length (running_tasks ?ws))"
    by (metis size_mset size_add_mset)
  have "numActiveThreads p \<noteq> 0" using len inv by (auto simp: pool_inv_def)
  then have act: "unat (numActiveThreads p - 1) = unat (numActiveThreads p) - 1"
    by (simp add: unat_minus_one)
  have "w \<in> set ?ws \<Longrightarrow> w \<noteq> Ready \<Longrightarrow> w \<in> set (threads p)" for w by (auto dest: in_update)
  moreover have "awake ?ws = awake (threads p) + 1" using awake_update [OF i(1), of Ready] i(2) by simp
  ultimately show ?thesis using inv r len act
    by (auto simp: pool_inv_def worker_finish_def after_task_hook_def)
qed

lemma inv_notify_one:
  assumes inv: "pool_inv n p" and i: "i < length (threads p)" "threads p ! i = Waiting"
  shows "pool_inv n (notify_one i p)"
proof -
  have "mset (running_tasks ((threads p)[i := Ready])) = mset (running_tasks (threads p))"
    "length (running_tasks ((threads p)[i := Ready])) = length (running_tasks (threads p))"
    using i by (simp_all add: running_idle running_idle_length)
  moreover have "w \<in> set ((threads p)[i := Ready]) \<Longrightarrow> w \<noteq> Ready \<Longrightarrow> w \<in> set (threads p)" for w by (auto dest: in_update)
  moreover have "awake ((threads p)[i := Ready]) = awake (threads p) + 1" using awake_update [OF i(1), of Ready] i(2) by simp
  ultimately show ?thesis using inv i by (auto simp: pool_inv_def notify_one_def wake_def)
qed

lemma inv_submit:
  assumes inv: "pool_inv n p" and i: "notifies i p" and e: "enqueue t i p = Inr p'"
  shows "pool_inv n p'"
proof -
  let ?q = "p\<lparr>tasks := tasks p @ [t], submitted := submitted p @ [t]\<rparr>"
  have p': "\<not> isPoolStoped p" "p' = notify_one i ?q" using e by (auto simp: enqueue_def split: if_splits)
  show ?thesis
  proof (cases "Waiting \<in> set (threads p)")
    case False
    then have "pool_inv n ?q" using inv p'(1) by (auto simp: pool_inv_def)
    moreover have "notify_one i ?q = ?q"
    proof (cases "i < length (threads p)")
      case True
      then have "threads p ! i \<noteq> Waiting" using False by (metis nth_mem)
      then show ?thesis by (simp add: notify_one_def wake_def)
    qed (simp add: notify_one_def)
    ultimately show ?thesis by (simp add: p'(2))
  next
    case True
    with i have w: "i < length (threads p)" "threads p ! i = Waiting" by (auto simp: notifies_def)
    have "pool_inv n (notify_one i p)" by (rule inv_notify_one [OF inv w])
    moreover have "awake ((threads p)[i := Ready]) = awake (threads p) + 1" using awake_update [OF w(1), of Ready] w(2) by simp
    ultimately show ?thesis using inv w p' True by (auto simp: pool_inv_def notify_one_def wake_def)
  qed
qed

lemma inv_notify_all: "pool_inv n p \<Longrightarrow> destructor p = Stopping \<Longrightarrow> pool_inv n (pool_notify p)"
  by (auto simp: pool_inv_def pool_notify_def notify_all_def wake_def split: if_splits)

lemma inv_step: "pool_step p p' \<Longrightarrow> pool_inv n p \<Longrightarrow> pool_inv n p'"
proof (induction rule: pool_step.induct)
  case (work p p')
  then show ?case by (auto elim!: shutdown_stepE worker_stepE intro: inv_take inv_finish inv_notify_all)
next
  case (stop p)
  then show ?case by (auto simp: pool_stop_def pool_inv_def)
qed (auto intro: inv_notify_one inv_submit)

lemma reachable_inv: "pool_reachable n p \<Longrightarrow> pool_inv n p"
  unfolding pool_reachable_def
  by (induction rule: rtranclp_induct) (auto intro: pool_inv_new inv_step)

section \<open>Progress\<close>

text \<open>What the workers have left to do, and what is left of a shutdown, where a sleeper has to be woken\<close>

fun rank :: "worker \<Rightarrow> nat" where
  "rank Exited = 0"
| "rank Waiting = 1"
| "rank Ready = 2"
| "rank (Running t) = 3"

fun stop_rank :: "worker \<Rightarrow> nat" where
  "stop_rank Exited = 0"
| "stop_rank Ready = 1"
| "stop_rank Waiting = 2"
| "stop_rank (Running t) = 2"

definition work_left :: "ThreadPool \<Rightarrow> nat" where
  "work_left p = 2 * length (tasks p) + sum_list (map rank (threads p))"

definition shutdown_left :: "ThreadPool \<Rightarrow> nat" where
  "shutdown_left p = 2 * length (tasks p) + (if destructor p = Stopping then 1 else 0) +
     sum_list (map stop_rank (threads p))"

lemma sum_update:
  "i < length ws \<Longrightarrow> sum_list (map f (ws[i := w])) + f (ws ! i) = sum_list (map f ws) + (f w :: nat)"
proof (induction ws arbitrary: i)
  case (Cons v ws)
  then show ?case by (cases i) (auto simp: add.assoc)
qed simp

lemma sum_map_le: "(\<And>x. f x \<le> g x) \<Longrightarrow> sum_list (map f xs) \<le> (sum_list (map g xs) :: nat)"
  by (induction xs) (simp_all add: add_mono)

lemmas step_effects = worker_take_def worker_finish_def before_task_hook_def after_task_hook_def wait_predicate_def
  pool_notify_def notify_all_def notify_one_def wake_def pool_stop_def

lemma worker_step_progress:
  assumes "worker_step p p'"
  shows "work_left p' < work_left p"
  using assms
proof (cases rule: worker_step.cases)
  case (take_task i)
  note s = sum_update [OF take_task(2), where f = rank]
  from s [of Waiting] s [of Exited] s [of "Running (hd (tasks p))"] take_task show ?thesis
    by (cases "tasks p") (simp_all add: work_left_def step_effects)
next
  case (finish_task i t)
  with sum_update [OF finish_task(2), where w = Ready and f = rank]
  show ?thesis by (simp add: work_left_def step_effects)
qed

lemma shutdown_progress:
  assumes "isPoolStoped p" "destructor p \<noteq> Alive" "pool_step p p'"
  shows "shutdown_left p' < shutdown_left p"
proof -
  have take_less: "shutdown_left (worker_take i p) < shutdown_left p" if i: "i < length (threads p)" "threads p ! i = Ready" for i
    using sum_update [OF i(1), of stop_rank Exited] sum_update [OF i(1), of stop_rank "Running (hd (tasks p))"] i(2) assms(1)
    by (cases "tasks p") (simp_all add: shutdown_left_def step_effects)
  have finish_less: "shutdown_left (worker_finish i t p) < shutdown_left p"
    if i: "i < length (threads p)" "threads p ! i = Running t" for i t
    using sum_update [OF i(1), of stop_rank Ready] i(2) by (simp add: shutdown_left_def step_effects)
  have wake_less: "shutdown_left (notify_one i p) < shutdown_left p" if i: "i < length (threads p)" "threads p ! i = Waiting" for i
    using sum_update [OF i(1), of stop_rank Ready] i by (simp add: shutdown_left_def step_effects)
  have "sum_list (map (stop_rank \<circ> wake) ws) \<le> sum_list (map stop_rank ws)" for ws
    by (rule sum_map_le) (simp add: wake_def)
  then have notify_less: "shutdown_left (pool_notify p) < shutdown_left p" if "destructor p = Stopping"
    using that by (simp add: shutdown_left_def pool_notify_def notify_all_def le_imp_less_Suc)
  from assms(3) show ?thesis
    by (cases rule: pool_step.cases)
       (use assms(1,2) take_less finish_less wake_less notify_less in \<open>auto elim!: shutdown_stepE worker_stepE simp: enqueue_def\<close>)
qed

lemma awake_enabled:
  assumes "w \<in> set (threads p)" "w \<noteq> Exited" "w \<noteq> Waiting"
  obtains p' where "worker_step p p'"
proof -
  obtain i where "i < length (threads p)" "threads p ! i = w" using assms(1) by (auto simp: in_set_conv_nth)
  then show thesis using that assms(2,3) take_task [of i p] finish_task [of i p] by (cases w) auto
qed

lemma shutdown_enabled:
  assumes "pool_inv n p" "isPoolStoped p" "\<not> pool_joined p"
  obtains p' where "shutdown_step p p'"
proof (cases "destructor p")
  case Joining
  then obtain w where "w \<in> set (threads p)" "w \<noteq> Exited" using assms(3) by (auto simp: pool_joined_def)
  moreover have "w \<noteq> Waiting" using calculation assms(1) Joining by (auto simp: pool_inv_def)
  ultimately obtain p' where "worker_step p p'" by (rule awake_enabled)
  then show thesis using that shutdown_step.worker by blast
next
  case Stopping
  then show thesis using that notify by blast
next
  case Alive
  then show thesis using assms(1,2) by (simp add: pool_inv_def)
qed

lemma worker_step_fixed: "worker_step p p' \<Longrightarrow> isPoolStoped p' = isPoolStoped p \<and> submitted p' = submitted p"
  by (auto elim!: worker_stepE simp: step_effects split: list.splits if_splits)

lemma shutdown_step_fixed: "shutdown_step p p' \<Longrightarrow> isPoolStoped p' = isPoolStoped p \<and> submitted p' = submitted p"
  by (auto elim!: shutdown_stepE dest: worker_step_fixed simp: pool_notify_def notify_all_def)

lemma running_all_exited: "set ws \<subseteq> {Exited} \<Longrightarrow> running_tasks ws = []"
  by (induction ws rule: running_tasks.induct) auto

lemma joined_finished:
  assumes "pool_inv n p" "pool_joined p" "threads p \<noteq> []"
  shows "mset (finished p) = mset (submitted p)"
proof -
  have "Exited \<in> set (threads p)" using assms(2,3) by (cases "threads p") (auto simp: pool_joined_def)
  with assms(1) have "tasks p = []" by (simp add: pool_inv_def)
  moreover have "running_tasks (threads p) = []" using assms(2) running_all_exited by (simp add: pool_joined_def)
  moreover have "taken p @ tasks p = submitted p" "mset (taken p) = mset (finished p) + mset (running_tasks (threads p))"
    using assms(1) by (simp_all add: pool_inv_def)
  ultimately show ?thesis by simp
qed

lemma drain:
  assumes "pool_inv n p" "isPoolStoped p"
  shows "\<exists>p'. shutdown_step\<^sup>*\<^sup>* p p' \<and> pool_joined p' \<and> submitted p' = submitted p \<and> pool_inv n p'"
  using assms
proof (induction p rule: measure_induct_rule [of shutdown_left])
  case (less p)
  show ?case
  proof (cases "pool_joined p")
    case False
    then obtain p1 where p1: "shutdown_step p p1" using shutdown_enabled [OF less.prems] by blast
    have "shutdown_left p1 < shutdown_left p"
      using shutdown_progress [OF less.prems(2) _ pool_step.work [OF p1]] less.prems by (simp add: pool_inv_def)
    from less.IH [OF this inv_step [OF pool_step.work [OF p1] less.prems(1)]] shutdown_step_fixed [OF p1] less.prems(2)
    obtain p' where "shutdown_step\<^sup>*\<^sup>* p1 p'" "pool_joined p'" "submitted p' = submitted p" "pool_inv n p'" by auto
    with p1 show ?thesis by (meson converse_rtranclp_into_rtranclp)
  qed (use less.prems in blast)
qed

lemma running_asleep: "set ws \<subseteq> {Exited, Waiting} \<Longrightarrow> running_tasks ws = []"
  by (induction ws rule: running_tasks.induct) auto

text \<open>When no worker can go on, the workers sleep and the queue is empty.\<close>

lemma idle_finished:
  assumes inv: "pool_inv n p" and idle: "\<nexists>p'. worker_step p p'" and ne: "threads p \<noteq> []"
  shows "tasks p = [] \<and> mset (finished p) = mset (submitted p)"
proof -
  have w: "set (threads p) \<subseteq> {Exited, Waiting}" using awake_enabled idle by blast
  then have "running_tasks (threads p) = []" "awake (threads p) = 0" by (rule running_asleep, auto simp: awake_def count_list_0_iff)
  moreover have "tasks p = []"
  proof (cases "Waiting \<in> set (threads p)")
    case False
    with w ne have "Exited \<in> set (threads p)" by (cases "threads p") auto
    with inv show ?thesis by (simp add: pool_inv_def)
  qed (use inv calculation(2) in \<open>simp add: pool_inv_def\<close>)
  moreover have "taken p @ tasks p = submitted p" "mset (taken p) = mset (finished p) + mset (running_tasks (threads p))"
    using inv by (simp_all add: pool_inv_def)
  ultimately show ?thesis by simp
qed

lemma workers_settle: "\<exists>p'. worker_step\<^sup>*\<^sup>* p p' \<and> (\<nexists>p''. worker_step p' p'')"
proof (induction p rule: measure_induct_rule [of work_left])
  case (less p)
  show ?case
  proof (cases "\<exists>p1. worker_step p p1")
    case True
    then obtain p1 where p1: "worker_step p p1" by blast
    from less.IH [OF worker_step_progress [OF this]] obtain p' where "worker_step\<^sup>*\<^sup>* p1 p'" "\<nexists>p''. worker_step p' p''" by blast
    with p1 show ?thesis by (meson converse_rtranclp_into_rtranclp)
  qed blast
qed

lemma workers_inv: "worker_step\<^sup>*\<^sup>* p p' \<Longrightarrow> pool_inv n p \<Longrightarrow> pool_inv n p' \<and> submitted p' = submitted p"
  by (induction rule: rtranclp_induct) (auto dest: worker_step_fixed intro: inv_step pool_step.work shutdown_step.worker)

section \<open>Properties\<close>

text \<open>
  C28. The pool runs every task exactly once and in the order of submission: after any steps the
  tasks taken and the tasks queued are together the tasks submitted, each task taken is
  finished or running, and the counter of active threads is the number of running tasks, at
  most the capacity, so that it never wraps.
\<close>

theorem pool_exactly_once:
  assumes "pool_reachable n p"
  shows "taken p @ tasks p = submitted p \<and>
    mset (taken p) = mset (finished p) + mset (running_tasks (threads p)) \<and>
    unat (numActiveThreads p) = length (running_tasks (threads p)) \<and>
    numActiveThreads p \<le> pool_capacity p"
proof -
  have inv: "pool_inv n p" using reachable_inv [OF assms] .
  then have "unat (numActiveThreads p) \<le> unat (pool_capacity p)"
    using running_length [of "threads p"] by (simp add: pool_inv_def)
  with inv show ?thesis by (simp add: pool_inv_def word_le_nat_alt)
qed

theorem pool_exactly_once_witness:
  "\<exists>p. pool_step (ThreadPool_new 2) p \<and> submitted p = [7] \<and> taken p @ tasks p = [7]"
proof -
  let ?p = "ThreadPool_new 2\<lparr>tasks := [7], submitted := [7]\<rparr>"
  have "enqueue 7 5 (ThreadPool_new 2) = Inr ?p" "notifies 5 (ThreadPool_new 2)"
    by (simp_all add: enqueue_def ThreadPool_new_def notify_one_def notifies_def)
  then have s: "pool_step (ThreadPool_new 2) ?p" using submit by blast
  then have "pool_reachable 2 ?p" by (simp add: pool_reachable_def)
  from pool_exactly_once [OF this] s show ?thesis by (intro exI [of _ ?p]) simp
qed

text \<open>
  C29. The destructor terminates and drains the queue: from any reachable state in which the pool is
  stopped, every further step, of a worker or of the destructor or a spurious wake-up, brings the end
  nearer; until all workers are joined one of them or the destructor can go on, without any spurious
  wake-up, whoever slept when the pool was stopped; and when they are joined every task submitted has
  finished (if the pool has a thread at all).
\<close>

theorem pool_shutdown_drains:
  assumes "pool_reachable n p" "isPoolStoped p" "threads p \<noteq> []"
  shows "(\<forall>p'. pool_step p p' \<longrightarrow> shutdown_left p' < shutdown_left p) \<and>
    (pool_joined p \<or> (\<exists>p'. shutdown_step p p')) \<and>
    (pool_joined p \<longrightarrow> mset (finished p) = mset (submitted p)) \<and>
    (\<exists>p'. shutdown_step\<^sup>*\<^sup>* p p' \<and> pool_joined p' \<and> mset (finished p') = mset (submitted p))"
proof (intro conjI)
  have inv: "pool_inv n p" by (rule reachable_inv [OF assms(1)])
  then show "\<forall>p'. pool_step p p' \<longrightarrow> shutdown_left p' < shutdown_left p"
    using shutdown_progress [OF assms(2)] assms(2) by (simp add: pool_inv_def)
  show "pool_joined p \<or> (\<exists>p'. shutdown_step p p')" using shutdown_enabled [OF inv assms(2)] by blast
  show "pool_joined p \<longrightarrow> mset (finished p) = mset (submitted p)" using joined_finished [OF inv _ assms(3)] by blast
  obtain p' where p': "shutdown_step\<^sup>*\<^sup>* p p'" "pool_joined p'" "submitted p' = submitted p" "pool_inv n p'"
    using drain [OF inv assms(2)] by blast
  moreover have "threads p' \<noteq> []" using inv p'(4) assms(3) by (auto simp: pool_inv_def simp flip: length_greater_0_conv)
  ultimately show "\<exists>p'. shutdown_step\<^sup>*\<^sup>* p p' \<and> pool_joined p' \<and> mset (finished p') = mset (submitted p)"
    using joined_finished by metis
qed

lemma new_two: "threads (ThreadPool_new 2) = [Ready, Ready]"
  by (simp add: ThreadPool_new_def) (simp only: numeral_2_eq_2 replicate.simps)

theorem pool_shutdown_drains_witness:
  "\<exists>p p'. threads p = [Waiting, Ready] \<and> pool_step (worker_take 0 (ThreadPool_new 2)) p \<and>
     shutdown_step\<^sup>*\<^sup>* p p' \<and> pool_joined p' \<and> finished p' = []"
proof -
  let ?q = "worker_take 0 (ThreadPool_new 2)"
  have q: "threads ?q = [Waiting, Ready]" "destructor ?q = Alive"
    using new_two by (simp_all add: worker_take_def wait_predicate_def ThreadPool_new_def)
  have "pool_step (ThreadPool_new 2) ?q"
    by (intro pool_step.work shutdown_step.worker take_task) (simp_all add: ThreadPool_new_def)
  moreover have s: "pool_step ?q (pool_stop ?q)" using q(2) by (rule pool_step.stop)
  ultimately have "pool_reachable 2 (pool_stop ?q)" using reach_step reach_new by blast
  moreover have "isPoolStoped (pool_stop ?q)" "threads (pool_stop ?q) = [Waiting, Ready]" "submitted (pool_stop ?q) = []"
    using q(1) by (simp_all add: pool_stop_def worker_take_def wait_predicate_def ThreadPool_new_def)
  ultimately show ?thesis using pool_shutdown_drains [of 2 "pool_stop ?q"] s by auto
qed

text \<open>
  C24. No wake-up of the pool is lost: in every reachable state, whichever workers sleep, the workers get
  through with what is queued, without any spurious wake-up and without another submission: each of their
  steps brings them nearer to rest, and when none can go on, the queue is empty and every task
  submitted has finished (if the pool has a thread at all).
\<close>

theorem pool_wakeups_suffice:
  assumes "pool_reachable n p" "threads p \<noteq> []"
  shows "(\<forall>p'. worker_step p p' \<longrightarrow> work_left p' < work_left p) \<and>
    ((\<nexists>p'. worker_step p p') \<longrightarrow> tasks p = [] \<and> mset (finished p) = mset (submitted p)) \<and>
    (\<exists>p'. worker_step\<^sup>*\<^sup>* p p' \<and> tasks p' = [] \<and> mset (finished p') = mset (submitted p))"
proof (intro conjI)
  have inv: "pool_inv n p" by (rule reachable_inv [OF assms(1)])
  show "\<forall>p'. worker_step p p' \<longrightarrow> work_left p' < work_left p" using worker_step_progress by blast
  show "(\<nexists>p'. worker_step p p') \<longrightarrow> tasks p = [] \<and> mset (finished p) = mset (submitted p)"
    using idle_finished [OF inv _ assms(2)] by blast
  obtain p' where p': "worker_step\<^sup>*\<^sup>* p p'" "\<nexists>p''. worker_step p' p''" using workers_settle by blast
  note i = workers_inv [OF p'(1) inv]
  then have "threads p' \<noteq> []" using inv assms(2) by (auto simp: pool_inv_def simp flip: length_greater_0_conv)
  with idle_finished [OF _ p'(2)] i p'(1)
  show "\<exists>p'. worker_step\<^sup>*\<^sup>* p p' \<and> tasks p' = [] \<and> mset (finished p') = mset (submitted p)" by metis
qed

theorem pool_wakeups_suffice_witness:
  "\<exists>p p'. enqueue 7 0 (worker_take 0 (ThreadPool_new 1)) = Inr p \<and>
     worker_step\<^sup>*\<^sup>* p p' \<and> tasks p' = [] \<and> finished p' = [7]"
proof -
  let ?q = "worker_take 0 (ThreadPool_new 1)"
  have q: "threads ?q = [Waiting]" "submitted ?q = []" "\<not> isPoolStoped ?q"
    by (simp_all add: worker_take_def wait_predicate_def ThreadPool_new_def)
  then obtain p where p: "enqueue 7 0 ?q = Inr p" "threads p = [Ready]" "submitted p = [7]"
    by (simp add: enqueue_def notify_one_def wake_def)
  have "pool_step (ThreadPool_new 1) ?q"
    by (intro pool_step.work shutdown_step.worker take_task) (simp_all add: ThreadPool_new_def)
  moreover have "notifies 0 ?q" using q(1) by (simp add: notifies_def)
  then have "pool_step ?q p" using p(1) by (rule submit)
  ultimately have "pool_reachable 1 p" using reach_step reach_new by blast
  from pool_wakeups_suffice [OF this] p show ?thesis by auto
qed

end
