(* ===== verification/Timer.thy ===== *)
theory Timer
  imports Prelude
begin

text \<open>
  \<open>cache/src/Timer.cpp\<close> (the client's \<open>timer.cpp\<close> is the same code): software timers driven by
  one interval signal.  A timer is known by its address, \<open>pTimers\<close> is the list of all timers in
  the order of their creation.  A callback is a parameter: it may change every timer.
\<close>

section \<open>State and operations\<close>

record Timer =
  timeout :: int
  periodic :: bool
  running :: bool
  callback :: bool
  pData :: nat
  current :: int

record Timers =
  initialized :: bool
  pTimers :: "(nat \<times> Timer) list"

definition setData :: "nat \<Rightarrow> nat option \<Rightarrow> Timer \<Rightarrow> Timer" where
  "setData this data t = t\<lparr>pData := (case data of None \<Rightarrow> this | Some d \<Rightarrow> d)\<rparr>"

text \<open>
  \<open>createTimer\<close> at address \<open>this\<close>; \<open>raw\<close> is what the memory of the new object holds: only the
  first timer sets \<open>running\<close>.
\<close>

definition createTimer :: "nat \<Rightarrow> int \<Rightarrow> bool \<Rightarrow> bool \<Rightarrow> nat option \<Rightarrow> Timer \<Rightarrow> Timers \<Rightarrow> Timers" where
  "createTimer this timeout_ms per cb data raw st =
     (let t = (setData this data (raw\<lparr>timeout := timeout_ms, periodic := per, callback := cb\<rparr>))\<lparr>current := timeout_ms\<rparr>
      in if initialized st then st\<lparr>pTimers := pTimers st @ [(this, t)]\<rparr>
         else st\<lparr>pTimers := pTimers st @ [(this, t\<lparr>running := False\<rparr>)], initialized := True\<rparr>)"

definition Timer_destroy :: "nat \<Rightarrow> Timers \<Rightarrow> Timers" where
  "Timer_destroy this st = st\<lparr>pTimers := filter (\<lambda>(a, _). a \<noteq> this) (pTimers st)\<rparr>"

definition on_timer :: "nat \<Rightarrow> (Timer \<Rightarrow> Timer) \<Rightarrow> Timers \<Rightarrow> Timers" where
  "on_timer this f st = st\<lparr>pTimers := map (\<lambda>(a, t). (a, if a = this then f t else t)) (pTimers st)\<rparr>"

definition timer_start :: "Timer \<Rightarrow> Timer" where
  "timer_start t = t\<lparr>running := True\<rparr>"

definition timer_stop :: "Timer \<Rightarrow> Timer" where
  "timer_stop t = t\<lparr>running := False, current := timeout t\<rparr>"

definition timer_reset :: "Timer \<Rightarrow> Timer" where
  "timer_reset t = t\<lparr>current := timeout t\<rparr>"

definition timer_pause :: "Timer \<Rightarrow> Timer" where
  "timer_pause t = t\<lparr>running := False\<rparr>"

definition setInterval :: "int \<Rightarrow> Timer \<Rightarrow> Timer" where
  "setInterval timeout_ms t = t\<lparr>timeout := timeout_ms, current := timeout_ms\<rparr>"

definition setPeriodic :: "bool \<Rightarrow> Timer \<Rightarrow> Timer" where
  "setPeriodic b t = t\<lparr>periodic := b\<rparr>"

definition setCallback :: "Timer \<Rightarrow> Timer" where
  "setCallback t = t\<lparr>callback := True\<rparr>"

section \<open>The signal handler\<close>

text \<open>First loop: \<open>--current\<close> overflows at the least \<open>int32_t\<close>.\<close>

fun count_down :: "(nat \<times> Timer) list \<Rightarrow> ((nat \<times> Timer) list \<times> nat list) result" where
  "count_down [] = Inr ([], [])"
| "count_down ((a, t) # ts) =
     (if running t then
        if current t = - (2 ^ 31) then Inl Undefined
        else let t' = t\<lparr>current := current t - 1\<rparr>
             in andThen (count_down ts) (\<lambda>(ts', due).
                Inr ((a, t') # ts', if current t' = 0 \<and> callback t' then a # due else due))
      else andThen (count_down ts) (\<lambda>(ts', due). Inr ((a, t) # ts', due)))"

text \<open>Second loop: a callback of a timer that is gone by then is a use after free.\<close>

fun run_callbacks :: "(nat \<Rightarrow> nat \<Rightarrow> Timers \<Rightarrow> Timers result) \<Rightarrow> nat list \<Rightarrow> Timers \<Rightarrow> Timers result" where
  "run_callbacks cb [] st = Inr st"
| "run_callbacks cb (a # as) st =
     andThen (deref_opt (map_of (pTimers st) a)) (\<lambda>t.
     andThen (cb a (pData t) st) (run_callbacks cb as))"

definition rearm :: "Timer \<Rightarrow> Timer" where
  "rearm t =
     (if running t \<and> current t = 0 then
        if periodic t then t\<lparr>current := timeout t\<rparr> else t\<lparr>running := False\<rparr>
      else t)"

definition timer_handler :: "(nat \<Rightarrow> nat \<Rightarrow> Timers \<Rightarrow> Timers result) \<Rightarrow> Timers \<Rightarrow> (nat list \<times> Timers) result" where
  "timer_handler cb st =
     andThen (count_down (pTimers st)) (\<lambda>(ts, due).
     andThen (run_callbacks cb due (st\<lparr>pTimers := ts\<rparr>)) (\<lambda>st1.
     Inr (due, st1\<lparr>pTimers := map (\<lambda>(a, t). (a, rearm t)) (pTimers st1)\<rparr>)))"

text \<open>A sequence of signals, with the timers that fire at each\<close>

fun timer_run :: "(nat \<Rightarrow> nat \<Rightarrow> Timers \<Rightarrow> Timers result) \<Rightarrow> nat \<Rightarrow> Timers \<Rightarrow> (nat list list \<times> Timers) result" where
  "timer_run cb 0 st = Inr ([], st)"
| "timer_run cb (Suc n) st =
     andThen (timer_handler cb st) (\<lambda>(due, st1).
     andThen (timer_run cb n st1) (\<lambda>(rest, st2). Inr (due # rest, st2)))"

section \<open>Schedules\<close>

text \<open>One timer seen alone: its state after a signal and whether it fires.\<close>

definition tick_one :: "Timer \<Rightarrow> Timer" where
  "tick_one t = rearm (if running t then t\<lparr>current := current t - 1\<rparr> else t)"

definition fires :: "Timer \<Rightarrow> bool" where
  "fires t \<longleftrightarrow> running t \<and> current t = 1 \<and> callback t"

text \<open>Timers that run have a positive count, and all have a positive period.\<close>

definition timer_ok :: "Timer \<Rightarrow> bool" where
  "timer_ok t \<longleftrightarrow> 0 < timeout t \<and> (running t \<longrightarrow> 0 < current t)"

definition inert :: "(nat \<Rightarrow> nat \<Rightarrow> Timers \<Rightarrow> Timers result) \<Rightarrow> bool" where
  "inert cb \<longleftrightarrow> (\<forall>a d st. cb a d st = Inr st)"

lemma timer_ok_tick: "timer_ok t \<Longrightarrow> timer_ok (tick_one t)"
  by (auto simp: timer_ok_def tick_one_def rearm_def)

lemma count_down_spec:
  "\<forall>(a, t) \<in> set ts. timer_ok t \<Longrightarrow>
     count_down ts = Inr (map (\<lambda>(a, t). (a, if running t then t\<lparr>current := current t - 1\<rparr> else t)) ts,
       map fst (filter (\<lambda>(a, t). fires t) ts))"
  by (induction ts rule: count_down.induct) (auto simp: timer_ok_def fires_def Let_def)

lemma run_callbacks_inert:
  "inert cb \<Longrightarrow> set as \<subseteq> fst ` set (pTimers st) \<Longrightarrow> run_callbacks cb as st = Inr st"
proof (induction as)
  case (Cons a as)
  then have "map_of (pTimers st) a \<noteq> None" by (auto simp: map_of_eq_None_iff)
  with Cons show ?case by (auto simp: inert_def)
qed simp

lemma handler_spec:
  assumes "inert cb" "\<forall>(a, t) \<in> set (pTimers st). timer_ok t"
  shows "timer_handler cb st = Inr (map fst (filter (\<lambda>(a, t). fires t) (pTimers st)),
    st\<lparr>pTimers := map (\<lambda>(a, t). (a, tick_one t)) (pTimers st)\<rparr>)"
proof -
  let ?ts = "map (\<lambda>(a, t). (a, if running t then t\<lparr>current := current t - 1\<rparr> else t)) (pTimers st)"
  have "set (map fst (filter (\<lambda>(a, t). fires t) (pTimers st))) \<subseteq> fst ` set ?ts" by force
  then have "run_callbacks cb (map fst (filter (\<lambda>(a, t). fires t) (pTimers st))) (st\<lparr>pTimers := ?ts\<rparr>) =
      Inr (st\<lparr>pTimers := ?ts\<rparr>)" using assms(1) by (intro run_callbacks_inert) simp_all
  then show ?thesis
    using count_down_spec [OF assms(2)] by (simp add: timer_handler_def tick_one_def comp_def case_prod_unfold)
qed

lemma timers_ok_tick:
  "\<forall>(a, t) \<in> set ts. timer_ok t \<Longrightarrow> \<forall>(a, t) \<in> set (map (\<lambda>(a, t). (a, tick_one t)) ts). timer_ok t"
  using timer_ok_tick by fastforce

lemma run_spec:
  assumes "inert cb" "\<forall>(a, t) \<in> set (pTimers st). timer_ok t"
  shows "timer_run cb n st = Inr (map (\<lambda>k. map fst (filter (\<lambda>(a, t). fires ((tick_one ^^ k) t)) (pTimers st))) [0..<n],
    st\<lparr>pTimers := map (\<lambda>(a, t). (a, (tick_one ^^ n) t)) (pTimers st)\<rparr>)"
  using assms(2)
proof (induction n arbitrary: st)
  case (Suc n)
  let ?st = "st\<lparr>pTimers := map (\<lambda>(a, t). (a, tick_one t)) (pTimers st)\<rparr>"
  have ih: "timer_run cb n ?st = Inr (map (\<lambda>k. map fst (filter (\<lambda>(a, t). fires ((tick_one ^^ k) t)) (pTimers ?st))) [0..<n],
    ?st\<lparr>pTimers := map (\<lambda>(a, t). (a, (tick_one ^^ n) t)) (pTimers ?st)\<rparr>)"
    by (rule Suc.IH) (use timers_ok_tick [OF Suc.prems] in simp)
  have shift: "map f [0..<Suc n] = f 0 # map (f \<circ> Suc) [0..<n]" for f :: "nat \<Rightarrow> nat list"
    by (simp add: upt_conv_Cons map_Suc_upt [symmetric] del: upt_Suc)
  show ?case
    unfolding shift using handler_spec [OF assms(1) Suc.prems] ih
    by (simp add: comp_def case_prod_unfold filter_map funpow_swap1)
qed simp

text \<open>The count of a running timer after \<open>k\<close> signals\<close>

lemma count_periodic:
  assumes "running t" "periodic t" "current t = timeout t" "0 < timeout t"
  shows "running ((tick_one ^^ k) t) \<and> periodic ((tick_one ^^ k) t) \<and> timeout ((tick_one ^^ k) t) = timeout t \<and>
    callback ((tick_one ^^ k) t) = callback t \<and>
    current ((tick_one ^^ k) t) = timeout t - int k mod timeout t"
proof (induction k)
  case (Suc k)
  let ?t = "(tick_one ^^ k) t" and ?n = "timeout t"
  have m: "int (Suc k) mod ?n = (if int k mod ?n = ?n - 1 then 0 else int k mod ?n + 1)"
  proof -
    have "int (Suc k) mod ?n = (int k mod ?n + 1) mod ?n" by (simp add: mod_simps add.commute)
    moreover have "0 \<le> int k mod ?n" "int k mod ?n < ?n" using assms(4) by simp_all
    ultimately show ?thesis by (auto simp: mod_pos_pos_trivial)
  qed
  show ?case using Suc.IH m by (auto simp: tick_one_def rearm_def)
qed (use assms in simp)

lemma count_once:
  assumes "running t" "\<not> periodic t" "current t = timeout t" "0 < timeout t"
  shows "callback ((tick_one ^^ k) t) = callback t \<and> \<not> periodic ((tick_one ^^ k) t) \<and>
    running ((tick_one ^^ k) t) = (int k < timeout t) \<and>
    (int k < timeout t \<longrightarrow> current ((tick_one ^^ k) t) = timeout t - int k)"
proof (induction k)
  case (Suc k)
  then show ?case by (auto simp: tick_one_def rearm_def)
qed (use assms in simp)

lemma fires_periodic:
  assumes "running t" "periodic t" "current t = timeout t" "0 < timeout t" "callback t"
  shows "fires ((tick_one ^^ k) t) \<longleftrightarrow> timeout t dvd int (k + 1)"
proof -
  have m: "0 \<le> int k mod timeout t" "int k mod timeout t < timeout t" using assms(4) by simp_all
  have "timeout t dvd int (k + 1) \<longleftrightarrow> (int k mod timeout t + 1) mod timeout t = 0"
    by (simp add: dvd_eq_mod_eq_0 mod_simps add.commute)
  also have "\<dots> \<longleftrightarrow> timeout t - int k mod timeout t = 1"
    using m by (cases "int k mod timeout t + 1 = timeout t") (auto simp: mod_pos_pos_trivial)
  finally show ?thesis using count_periodic [OF assms(1-4), of k] assms(5) by (simp add: fires_def)
qed

lemma fires_once:
  assumes "running t" "\<not> periodic t" "current t = timeout t" "0 < timeout t" "callback t"
  shows "fires ((tick_one ^^ k) t) \<longleftrightarrow> int (k + 1) = timeout t"
  using count_once [OF assms(1-4), of k] assms(5) by (auto simp: fires_def)

section \<open>Properties\<close>

text \<open>
  C30. Timers fire on schedule: with callbacks that leave the timers alone, a started timer with
  a callback and a period of \<open>n\<close> signals fires at exactly the signals that are multiples of \<open>n\<close>
  if it is periodic, and at signal \<open>n\<close> only if it is not.
\<close>

theorem timer_schedule:
  assumes "inert cb" "\<forall>(a, t) \<in> set (pTimers st). timer_ok t" "distinct (map fst (pTimers st))"
    "(a, t) \<in> set (pTimers st)" "running t" "callback t" "current t = timeout t" "k < n"
  shows "\<exists>due st'. timer_run cb n st = Inr (due, st') \<and> length due = n \<and>
    (a \<in> set (due ! k) \<longleftrightarrow> (if periodic t then timeout t dvd int (k + 1) else int (k + 1) = timeout t))"
proof -
  have p: "0 < timeout t" using assms(2,4) by (auto simp: timer_ok_def)
  let ?due = "map (\<lambda>k. map fst (filter (\<lambda>(a, t). fires ((tick_one ^^ k) t)) (pTimers st))) [0..<n]"
  have "?due ! k = map fst (filter (\<lambda>(a, t). fires ((tick_one ^^ k) t)) (pTimers st))" using assms(8) by simp
  then have "a \<in> set (?due ! k) \<longleftrightarrow> (\<exists>t'. (a, t') \<in> set (pTimers st) \<and> fires ((tick_one ^^ k) t'))"
    by (simp only: set_map set_filter) force
  moreover have "t' = t" if "(a, t') \<in> set (pTimers st)" for t'
    by (rule eq_key_imp_eq_value [OF assms(3) that assms(4)])
  ultimately have "a \<in> set (?due ! k) \<longleftrightarrow> fires ((tick_one ^^ k) t)" using assms(4) by blast
  also have "\<dots> \<longleftrightarrow> (if periodic t then timeout t dvd int (k + 1) else int (k + 1) = timeout t)"
    using fires_periodic [OF assms(5) _ assms(7) p assms(6)] fires_once [OF assms(5) _ assms(7) p assms(6)] by simp
  finally show ?thesis using run_spec [OF assms(1,2), of n] by auto
qed

theorem timer_schedule_witness:
  "\<exists>due st'. timer_run (\<lambda>a d st. Inr st) 6 \<lparr>initialized = True, pTimers =
       [(1, \<lparr>timeout = 3, periodic = True, running = True, callback = True, pData = 0, current = 3\<rparr>)]\<rparr> = Inr (due, st') \<and>
     length due = 6 \<and> 1 \<in> set (due ! 5)"
  using timer_schedule [of "\<lambda>a d st. Inr st" "\<lparr>initialized = True, pTimers =
      [(1, \<lparr>timeout = 3, periodic = True, running = True, callback = True, pData = 0, current = 3\<rparr>)]\<rparr>" 1
      "\<lparr>timeout = 3, periodic = True, running = True, callback = True, pData = 0, current = 3\<rparr>" 5 6]
  by (simp add: inert_def timer_ok_def del: timer_run.simps)

text \<open>
  Only the first timer of a process is created stopped: whether a later one runs is what
  its memory held before, and if that is so it fires without ever having been started.
\<close>

theorem later_timers_may_run:
  "(\<not> initialized st \<longrightarrow> (\<exists>t. pTimers (createTimer a n per cb d raw st) = pTimers st @ [(a, t)] \<and> \<not> running t)) \<and>
   (initialized st \<longrightarrow> (\<exists>t. pTimers (createTimer a n per cb d raw st) = pTimers st @ [(a, t)] \<and>
      (0 < n \<and> cb \<longrightarrow> ((\<exists>k. fires ((tick_one ^^ k) t)) \<longleftrightarrow> running raw))))"
proof (intro conjI impI)
  assume i: "initialized st"
  let ?t = "(setData a d (raw\<lparr>timeout := n, periodic := per, callback := cb\<rparr>))\<lparr>current := n\<rparr>"
  have "(\<exists>k. fires ((tick_one ^^ k) ?t)) \<longleftrightarrow> running raw" if n: "0 < n" and cb: cb
  proof
    assume run: "running raw"
    have "fires ((tick_one ^^ (nat n - 1)) ?t)"
    proof (cases per)
      case True
      then show ?thesis using fires_periodic [of ?t "nat n - 1"] n cb run by (simp add: setData_def)
    next
      case False
      then show ?thesis using fires_once [of ?t "nat n - 1"] n cb run by (simp add: setData_def)
    qed
    then show "\<exists>k. fires ((tick_one ^^ k) ?t)" by blast
  next
    assume "\<exists>k. fires ((tick_one ^^ k) ?t)"
    then obtain k where "fires ((tick_one ^^ k) ?t)" by blast
    then have r: "running ((tick_one ^^ k) ?t)" by (simp add: fires_def)
    show "running raw"
    proof (rule ccontr)
      assume no: "\<not> running raw"
      have "(tick_one ^^ k) ?t = ?t"
        using no by (induction k) (simp_all add: tick_one_def rearm_def setData_def)
      with r no show False by (simp add: setData_def)
    qed
  qed
  with i show "\<exists>t. pTimers (createTimer a n per cb d raw st) = pTimers st @ [(a, t)] \<and>
      (0 < n \<and> cb \<longrightarrow> ((\<exists>k. fires ((tick_one ^^ k) t)) \<longleftrightarrow> running raw))"
    by (simp add: createTimer_def Let_def)
qed (simp add: createTimer_def Let_def)

theorem later_timers_may_run_witness:
  "\<exists>t. pTimers (createTimer 2 3 True True None
       \<lparr>timeout = 0, periodic = False, running = True, callback = False, pData = 0, current = 0\<rparr>
       \<lparr>initialized = True, pTimers = []\<rparr>) = [(2, t)] \<and> (\<exists>k. fires ((tick_one ^^ k) t))"
  using later_timers_may_run [of "\<lparr>initialized = True, pTimers = []\<rparr>" 2 3 True True None
      "\<lparr>timeout = 0, periodic = False, running = True, callback = False, pData = 0, current = 0\<rparr>"]
  by simp

end
