(* ===== verification/Client.thy ===== *)
theory Client
  imports Lru_Client Wire Timer Sockets
begin

text \<open>
  \<open>Client/src/client.cpp\<close> and \<open>tools.cpp\<close>: the client as message handlers.  A key from the child
  process (\<open>dealwith_child\<close>), an answer of the master (\<open>dealwith_master\<close>), a reply of a cache
  server (\<open>dealwith_cache_server\<close>), the check for servers that do not answer and the time-outs.
  Whether a connection succeeds, and the random numbers, are arguments; what is sent is a
  result.  Four calls of \<open>send\<close> and \<open>write\<close> pass \<open>BUF_SIZE\<close> as the length of a shorter string: what lies
  behind the string in memory is an argument of those definitions.
\<close>

section \<open>tools.cpp\<close>

text \<open>\<open>strRand\<close>; \<open>rs\<close> are the numbers the generator yields.\<close>

definition rand_char :: "nat \<Rightarrow> char" where
  "rand_char r =
     (let tmp = r mod 36
      in if tmp < 10 then char_of (tmp + 48) else char_of (tmp - 10 + 65))"

definition strRand :: "nat list \<Rightarrow> string" where
  "strRand rs = map rand_char rs"

text \<open>\<open>parse_str_addr\<close>: \<open>ip_port[0]\<close> and \<open>ip_port[1]\<close>\<close>

definition parse_str_addr :: "string \<Rightarrow> (string \<times> string) result" where
  "parse_str_addr str_addr =
     (let ip_port = client_split CHR '':'' str_addr
      in andThen (vec_at ip_port 0) (\<lambda>ip. andThen (vec_at ip_port 1) (\<lambda>port. Inr (ip, port))))"

section \<open>Reading past the end of a string\<close>

text \<open>
  \<open>send(sock, text.data(), BUF_SIZE, 0)\<close>: the text, its NUL and what follows in memory.  \<open>behind text\<close> are
  the bytes after the NUL that can be read; when they are too few the call has no defined behaviour.
\<close>

definition over_read :: "(string \<Rightarrow> string) \<Rightarrow> string \<Rightarrow> string result" where
  "over_read behind text =
     (let memory = text @ NUL # behind text
      in if BUF_SIZE \<le> length memory then Inr (take BUF_SIZE memory) else Inl Undefined)"

text \<open>Enough memory can be read behind every string.\<close>

definition readable :: "(string \<Rightarrow> string) \<Rightarrow> bool" where
  "readable behind \<longleftrightarrow> (\<forall>text. BUF_SIZE \<le> length (behind text))"

lemma over_read_text:
  assumes "readable behind" "NUL \<notin> set text" "length text < BUF_SIZE"
  obtains bytes where "over_read behind text = Inr bytes" "length bytes = BUF_SIZE" "c_str bytes = text"
proof -
  have "BUF_SIZE \<le> length (behind text)" using assms(1) by (simp add: readable_def)
  moreover have "take BUF_SIZE (text @ NUL # behind text) =
      text @ NUL # take (BUF_SIZE - Suc (length text)) (behind text)"
    using assms(3) by (simp add: take_Cons')
  ultimately show thesis using that assms(2,3) by (simp add: over_read_def Let_def c_str_append)
qed

section \<open>State\<close>

record ReSendMassage =
  rs_addr :: string
  rs_massage :: string
  rs_timer :: Timer
  rs_num :: nat

record Client =
  mode :: char
  local_lru :: lru_cache
  request_map :: "string \<rightharpoonup> string list"
  master_massage :: string
  master_timer :: Timer
  cache_server_timers :: "string \<rightharpoonup> ReSendMassage"

definition WAITING_TIME :: int where
  "WAITING_TIME = 5"

definition LOST_MAX_NUM :: nat where
  "LOST_MAX_NUM = 6"

text \<open>A timer as \<open>init\<close> and \<open>send_request_to_cache_server\<close> make one; \<open>run\<close> is what \<open>running\<close> holds.\<close>

definition resend_timer :: "bool \<Rightarrow> Timer" where
  "resend_timer run = \<lparr>timeout = WAITING_TIME, periodic = False, running = run, callback = True,
     pData = 0, current = WAITING_TIME\<rparr>"

definition Client_new :: "nat \<Rightarrow> char \<Rightarrow> Client" where
  "Client_new cache_size_local m = \<lparr>mode = m, local_lru = lru_cache_new cache_size_local,
     request_map = Map.empty, master_massage = '''', master_timer = resend_timer False,
     cache_server_timers = Map.empty\<rparr>"

text \<open>What a handler sends: to the master, or to a cache server by address.\<close>

datatype sent = To_master string | To_cache string string string

section \<open>Requests\<close>

definition add_item_to_request_map :: "string \<Rightarrow> string \<Rightarrow> Client \<Rightarrow> Client" where
  "add_item_to_request_map addr key c =
     (case request_map c addr of
        Some keys \<Rightarrow> if key \<in> set keys then c
                     else c\<lparr>request_map := (request_map c)(addr \<mapsto> keys @ [key])\<rparr>
      | None \<Rightarrow> c\<lparr>request_map := (request_map c)(addr \<mapsto> [key])\<rparr>)"

definition erase_item_from_request_map :: "string \<Rightarrow> string \<Rightarrow> Client \<Rightarrow> Client" where
  "erase_item_from_request_map addr key c =
     (case request_map c addr of
        Some keys \<Rightarrow> c\<lparr>request_map := (request_map c)(addr \<mapsto> remove1 key keys)\<rparr>
      | None \<Rightarrow> c)"

definition send_request_to_master :: "(string \<Rightarrow> string) \<Rightarrow> string \<Rightarrow> Client \<Rightarrow> (sent list \<times> Client) result" where
  "send_request_to_master behind key c =
     andThen (over_read behind key) (\<lambda>bytes.
       Inr ([To_master bytes],
            c\<lparr>master_massage := key, master_timer := timer_start (timer_reset (master_timer c))\<rparr>))"

text \<open>\<open>connects\<close>: the result of \<open>connect\<close>; a new timer holds any value of \<open>running\<close> before \<open>start\<close>.\<close>

definition send_request_to_cache_server :: "string \<Rightarrow> string \<Rightarrow> string \<Rightarrow> bool \<Rightarrow> Client \<Rightarrow>
    (sent list \<times> Client) result" where
  "send_request_to_cache_server addr key val connects c =
     (let c1 = add_item_to_request_map addr key c
      in andThen (parse_str_addr addr) (\<lambda>(ip, port).
         let send_tmp = (if val \<noteq> '''' then key @ ''#'' @ val else key);
             out = (if connects then [To_cache ip port send_tmp] else []);
             entry = (case cache_server_timers c1 addr of
                 Some r \<Rightarrow> r\<lparr>rs_massage := send_tmp, rs_timer := timer_start (timer_reset (rs_timer r))\<rparr>
               | None \<Rightarrow> \<lparr>rs_addr = addr, rs_massage = send_tmp,
                          rs_timer = timer_start (resend_timer False), rs_num = 0\<rparr>)
         in Inr (out, c1\<lparr>cache_server_timers := (cache_server_timers c1)
                           (addr \<mapsto> entry\<lparr>rs_num := rs_num entry + 1\<rparr>)\<rparr>)))"

text \<open>The common end of \<open>dealwith_child\<close> and \<open>dealwith_master\<close>; \<open>rs\<close> makes the random value.\<close>

definition send_by_mode :: "string \<Rightarrow> string \<Rightarrow> bool \<Rightarrow> nat list \<Rightarrow> Client \<Rightarrow> (sent list \<times> Client) result" where
  "send_by_mode addr key connects rs c =
     (if mode c = CHR ''r'' then send_request_to_cache_server addr key '''' connects c
      else if mode c = CHR ''w'' then send_request_to_cache_server addr key (strRand rs) connects c
      else Inr ([], c))"

section \<open>Handlers\<close>

definition dealwith_child :: "(string \<Rightarrow> string) \<Rightarrow> string \<Rightarrow> bool \<Rightarrow> nat list \<Rightarrow> Client \<Rightarrow>
    (sent list \<times> Client) result" where
  "dealwith_child behind message connects rs c =
     (let message_array = client_split CHR ''#'' message
      in andThen (vec_at message_array 1) (\<lambda>key.
         andThen (vec_at message_array 0) (\<lambda>head.
         if head = ''CHILD'' then
           case cl_get key (local_lru c) of
             Inr (addr, lru) \<Rightarrow> send_by_mode addr key connects rs (c\<lparr>local_lru := lru\<rparr>)
           | Inl Range_error \<Rightarrow> send_request_to_master behind key c
           | Inl e \<Rightarrow> Inl e
         else Inr ([], c))))"

definition dealwith_master :: "string \<Rightarrow> bool \<Rightarrow> nat list \<Rightarrow> Client \<Rightarrow> (sent list \<times> Client) result" where
  "dealwith_master message connects rs c =
     (let c1 = c\<lparr>master_timer := timer_stop (master_timer c)\<rparr>;
          message_array = client_split CHR ''#'' message
      in if length message_array \<noteq> 3 then Inr ([], c1)
         else let state = message_array ! 0; key = message_array ! 1
              in if state = ''MASTER'' then
                   let addr = message_array ! 2
                   in andThen (cl_put key addr (local_lru c1)) (\<lambda>lru.
                      send_by_mode addr key connects rs (c1\<lparr>local_lru := lru\<rparr>))
                 else Inr ([], c1))"

text \<open>\<open>cache_server_timers_[addr].timer->stop()\<close>: an unknown address yields a null timer.\<close>

definition stop_timer :: "string \<Rightarrow> Client \<Rightarrow> Client result" where
  "stop_timer addr c =
     andThen (deref_opt (cache_server_timers c addr)) (\<lambda>r.
       Inr (c\<lparr>cache_server_timers := (cache_server_timers c)(addr \<mapsto> r\<lparr>rs_timer := timer_stop (rs_timer r)\<rparr>)\<rparr>))"

definition dealwith_cache_server :: "string \<Rightarrow> Client \<Rightarrow> Client result" where
  "dealwith_cache_server message c =
     (let message_array = client_split CHR ''#'' message
      in andThen (vec_at message_array 0) (\<lambda>state.
         andThen (vec_at message_array 1) (\<lambda>key.
         andThen (vec_at message_array 2) (\<lambda>addr.
         if state = ''SUCCESS'' then stop_timer addr (erase_item_from_request_map addr key c)
         else if state = ''FAILED'' then
           let c1 = erase_item_from_request_map addr key c
           in stop_timer addr (c1\<lparr>local_lru := cl_erase key (local_lru c1)\<rparr>)
         else Inr c))))"

fun resend_keys :: "(string \<Rightarrow> string) \<Rightarrow> string list \<Rightarrow> Client \<Rightarrow> (sent list \<times> Client) result" where
  "resend_keys behind [] c = Inr ([], c)"
| "resend_keys behind (key # keys) c =
     andThen (send_request_to_master behind key c) (\<lambda>(out, c1).
     andThen (resend_keys behind keys c1) (\<lambda>(outs, c2). Inr (out @ outs, c2)))"

text \<open>\<open>order\<close> is the iteration order of \<open>request_map_\<close>.\<close>

fun check_cache_server_request_map :: "(string \<Rightarrow> string) \<Rightarrow> string list \<Rightarrow> Client \<Rightarrow>
    (sent list \<times> Client) result" where
  "check_cache_server_request_map behind [] c = Inr ([], c)"
| "check_cache_server_request_map behind (addr # order) c =
     (case request_map c addr of
        Some keys \<Rightarrow>
          if LOST_MAX_NUM < length keys then
            andThen (resend_keys behind keys c) (\<lambda>(out, c1).
            andThen (check_cache_server_request_map behind order
                       (c1\<lparr>request_map := (request_map c1)(addr \<mapsto> [])\<rparr>)) (\<lambda>(outs, c2).
              Inr (out @ outs, c2)))
          else check_cache_server_request_map behind order c
      | None \<Rightarrow> check_cache_server_request_map behind order c)"

section \<open>Time-outs\<close>

definition master_resend :: "(string \<Rightarrow> string) \<Rightarrow> Client \<Rightarrow> sent list result" where
  "master_resend behind c = andThen (over_read behind (master_massage c)) (\<lambda>bytes. Inr [To_master bytes])"

definition cache_server_resend :: "(string \<Rightarrow> string) \<Rightarrow> string \<Rightarrow> bool \<Rightarrow> Client \<Rightarrow> sent list result" where
  "cache_server_resend behind addr connects c =
     andThen (deref_opt (cache_server_timers c addr)) (\<lambda>r.
     andThen (parse_str_addr (rs_addr r)) (\<lambda>(ip, port).
       if connects then andThen (over_read behind (rs_massage r)) (\<lambda>bytes. Inr [To_cache ip port bytes])
       else Inr []))"

section \<open>The loop of the parent process\<close>

text \<open>One event of \<open>start\<close>: what became readable, with its text\<close>

datatype client_event =
    From_child string bool "nat list" "string list"
  | From_master string bool "nat list"
  | From_cache string

fun client_handle :: "(string \<Rightarrow> string) \<Rightarrow> client_event \<Rightarrow> Client \<Rightarrow> (sent list \<times> Client) result" where
  "client_handle behind (From_child m connects rs order) c =
     andThen (dealwith_child behind m connects rs c) (\<lambda>(out, c1).
     andThen (check_cache_server_request_map behind order c1) (\<lambda>(outs, c2). Inr (out @ outs, c2)))"
| "client_handle behind (From_master m connects rs) c = dealwith_master m connects rs c"
| "client_handle behind (From_cache m) c = andThen (dealwith_cache_server m c) (\<lambda>c1. Inr ([], c1))"

section \<open>The child process\<close>

text \<open>
  The keys of one pass over the file: \<open>while (!eof()) { file >> key; ... }\<close>.  An extraction that
  finds only white space leaves \<open>key\<close> as it was, and the loop body sends it again.
\<close>

function file_keys :: "string \<Rightarrow> string \<Rightarrow> string list" where
  "file_keys key content =
     (let s1 = dropWhile is_space content;
          w = takeWhile (\<lambda>x. \<not> is_space x) s1;
          rest = dropWhile (\<lambda>x. \<not> is_space x) s1
      in if s1 = [] then [key]
         else if rest = [] then [w]
         else w # file_keys w rest)"
  by auto

lemma file_keys_decrease:
  assumes "dropWhile is_space content \<noteq> []"
  shows "length (dropWhile (\<lambda>x. \<not> is_space x) (dropWhile is_space content)) < length content"
proof -
  obtain a s where s: "dropWhile is_space content = a # s" using assms by (cases "dropWhile is_space content") auto
  then have "\<not> is_space a" using hd_dropWhile [of is_space content] assms by simp
  then have "length (dropWhile (\<lambda>x. \<not> is_space x) (a # s)) \<le> length s"
    using length_dropWhile_le [of "\<lambda>x. \<not> is_space x" s] by simp
  moreover have "length (a # s) \<le> length content" unfolding s [symmetric] by (rule length_dropWhile_le)
  ultimately show ?thesis using s by simp
qed

termination file_keys
  by (relation "measure (\<lambda>(_, content). length content)") (use file_keys_decrease in simp_all)

declare file_keys.simps [simp del]

definition send_key_to_father :: "(string \<Rightarrow> string) \<Rightarrow> string \<Rightarrow> string result" where
  "send_key_to_father behind key = over_read behind (''CHILD#'' @ key)"

section \<open>init and main\<close>

text \<open>\<open>pipe_result\<close> is what \<open>pipe\<close> returns; the descriptor of the master connection results.\<close>

definition client_init :: "int \<Rightarrow> syscalls \<Rightarrow> int result" where
  "client_init pipe_result sys = check_call (pipe_result < 0) (-1) (connect_master sys)"

text \<open>\<open>atoi\<close>; a null argument, or a number that is out of range, is undefined.\<close>

definition atoi :: "string option \<Rightarrow> int result" where
  "atoi arg =
     andThen (deref_opt arg) (\<lambda>s.
       case stoi s of Inr n \<Rightarrow> Inr n | Inl Invalid_argument \<Rightarrow> Inr 0 | Inl _ \<Rightarrow> Inl Undefined)"

record client_options =
  local_cache_capacity :: int
  opt_mode :: "char option"
  from_file :: bool
  time_interval :: int

text \<open>One option as \<open>getopt_long\<close> reports it: its letter and \<open>optarg\<close>\<close>

definition client_option :: "char \<times> string option \<Rightarrow> client_options \<Rightarrow> client_options result" where
  "client_option opt o1 =
     (let (x, optarg) = opt
      in if x = CHR ''c'' then andThen (atoi optarg) (\<lambda>n. Inr (o1\<lparr>local_cache_capacity := n\<rparr>))
         else if x = CHR ''w'' then Inr (o1\<lparr>opt_mode := Some CHR ''w''\<rparr>)
         else if x = CHR ''r'' then Inr (o1\<lparr>opt_mode := Some CHR ''r''\<rparr>)
         else if x = CHR ''f'' then Inr (o1\<lparr>from_file := True\<rparr>)
         else if x = CHR ''t'' then andThen (atoi optarg) (\<lambda>n. Inr (o1\<lparr>time_interval := n\<rparr>))
         else Inr o1)"

fun client_options_of :: "(char \<times> string option) list \<Rightarrow> client_options \<Rightarrow> client_options result" where
  "client_options_of [] o1 = Inr o1"
| "client_options_of (x # xs) o1 = andThen (client_option x o1) (client_options_of xs)"

text \<open>\<open>mode\<close> has no initial value; the capacity becomes a \<open>size_t\<close>.\<close>

definition client_main :: "(char \<times> string option) list \<Rightarrow> (Client \<times> bool \<times> int) result" where
  "client_main opts =
     andThen (client_options_of opts
                \<lparr>local_cache_capacity = 0, opt_mode = None, from_file = False, time_interval = 1000\<rparr>) (\<lambda>o1.
     andThen (deref_opt (opt_mode o1)) (\<lambda>m.
       Inr (Client_new (nat (local_cache_capacity o1 mod 2 ^ 64)) m, from_file o1, time_interval o1)))"

text \<open>A file whose last line is terminated has its last key sent twice.\<close>

definition key_ok :: "string \<Rightarrow> bool" where
  "key_ok w \<longleftrightarrow> w \<noteq> [] \<and> (\<forall>x \<in> set w. \<not> is_space x)"

lemma file_keys_word:
  assumes "key_ok w" "is_space x"
  shows "file_keys k (w @ x # content) = w # file_keys w (x # content)"
proof -
  obtain a v where w: "w = a # v" using assms(1) by (cases w) (auto simp: key_ok_def)
  have n: "\<forall>y \<in> set w. \<not> is_space y" using assms(1) by (simp add: key_ok_def)
  then have "dropWhile is_space (w @ x # content) = w @ x # content" using w by simp
  moreover have "takeWhile (\<lambda>y. \<not> is_space y) (w @ x # content) = w"
    "dropWhile (\<lambda>y. \<not> is_space y) (w @ x # content) = x # content" using n assms(2) by simp_all
  ultimately show ?thesis
    by (subst file_keys.simps) (simp only: Let_def append_is_Nil_conv list.distinct simp_thms if_False)
qed

lemma file_keys_skip: "is_space x \<Longrightarrow> file_keys k (x # content) = file_keys k content"
  by (simp add: file_keys.simps [of k "x # content"] file_keys.simps [of k content])

lemma file_keys_lines:
  assumes "\<forall>w \<in> set ws. key_ok w" "ws \<noteq> []" "is_space x"
  shows "file_keys k (concat (map (\<lambda>w. w @ [x]) ws)) = ws @ [last ws]"
  using assms
proof (induction ws arbitrary: k)
  case (Cons w ws)
  have "file_keys w [] = [w]" by (simp add: file_keys.simps [of w "[]"])
  with Cons show ?case
    by (cases "ws = []") (simp_all add: file_keys_word file_keys_skip)
qed simp

end
