(* ===== verification/Client_Facts.thy ===== *)
theory Client_Facts
  imports Client
begin

text \<open>
  What the client guarantees (model in theory \<open>Client\<close>): its tables fit together after any
  events, so that time-outs and replies of servers it asked are handled without undefined
  behaviour; a reply settles the request it answers.
\<close>

section \<open>Generated keys and values\<close>

lemma rand_char_code: "(of_char (rand_char r) :: nat) \<in> {48..57} \<union> {65..90}"
proof -
  have "r mod 36 < 36" by simp
  then show ?thesis by (auto simp: rand_char_def Let_def)
qed

lemma rand_char_set: "rand_char r \<notin> {CHR ''#'', CHR '':'', CHR 0x00}"
proof -
  have "rand_char r \<noteq> c" if "(of_char c :: nat) \<notin> {48..57} \<union> {65..90}" for c
    using rand_char_code [of r] that by auto
  then show ?thesis by simp
qed

lemma strRand_field: "rs \<noteq> [] \<Longrightarrow> field_ok CHR ''#'' (strRand rs)"
  using rand_char_set by (force simp: field_ok_def strRand_def)

section \<open>The tables\<close>

definition addr_parses :: "string \<Rightarrow> bool" where
  "addr_parses addr \<longleftrightarrow> (\<exists>p. parse_str_addr addr = Inr p)"

definition client_inv :: "Client \<Rightarrow> bool" where
  "client_inv c \<longleftrightarrow> client_safe (local_lru c) \<and>
     (\<forall>addr keys. request_map c addr = Some keys \<longrightarrow> distinct keys \<and> cache_server_timers c addr \<noteq> None) \<and>
     (\<forall>addr r. cache_server_timers c addr = Some r \<longrightarrow> rs_addr r = addr \<and> addr_parses addr)"

lemma client_inv_new: "client_inv (Client_new n m)"
  by (simp add: client_inv_def Client_new_def client_safe_new)

lemma inv_lru: "client_inv c \<Longrightarrow> client_safe l \<Longrightarrow> client_inv (c\<lparr>local_lru := l\<rparr>)"
  by (simp add: client_inv_def)

lemma inv_master_timer: "client_inv (c\<lparr>master_timer := t\<rparr>) = client_inv c"
  by (simp add: client_inv_def)

lemma inv_to_master: "client_inv c \<Longrightarrow> send_request_to_master behind key c = Inr (out, c') \<Longrightarrow> client_inv c'"
  by (auto simp: client_inv_def send_request_to_master_def andThen_eq_Inr_iff)

lemma inv_to_cache:
  assumes inv: "client_inv c" and h: "send_request_to_cache_server addr key val conn c = Inr (out, c')"
  shows "client_inv c'"
proof -
  let ?c1 = "add_item_to_request_map addr key c"
  have same: "cache_server_timers ?c1 = cache_server_timers c" "local_lru ?c1 = local_lru c"
    by (simp_all add: add_item_to_request_map_def split: option.splits)
  have keys: "a = addr \<or> request_map ?c1 a = request_map c a" for a
    by (auto simp: add_item_to_request_map_def split: option.splits)
  have dist: "distinct ks" if "request_map ?c1 a = Some ks" for a ks
    using that inv by (auto simp: client_inv_def add_item_to_request_map_def split: option.splits if_splits)
  from h obtain entry where p: "addr_parses addr"
    and c': "c' = ?c1\<lparr>cache_server_timers := (cache_server_timers ?c1)(addr \<mapsto> entry)\<rparr>"
    and e: "rs_addr entry = addr"
    using inv by (auto simp: send_request_to_cache_server_def Let_def andThen_eq_Inr_iff addr_parses_def
        client_inv_def same split: option.splits)
  show ?thesis unfolding client_inv_def
  proof (intro conjI allI impI)
    show "client_safe (local_lru c')" using inv c' same by (simp add: client_inv_def)
    fix a ks assume "request_map c' a = Some ks"
    then have r: "request_map ?c1 a = Some ks" using c' by simp
    then show "distinct ks" by (rule dist)
    show "cache_server_timers c' a \<noteq> None"
    proof (cases "a = addr")
      case True
      then show ?thesis using c' by simp
    next
      case False
      then have "request_map c a = Some ks" using keys [of a] r by simp
      then have "cache_server_timers c a \<noteq> None" using inv unfolding client_inv_def by blast
      then show ?thesis using False c' same by simp
    qed
  next
    fix a r assume "cache_server_timers c' a = Some r"
    then show "rs_addr r = a" "addr_parses a"
      using inv c' same e p by (auto simp: client_inv_def split: if_splits)
  qed
qed

lemma inv_by_mode:
  assumes "client_inv c" "send_by_mode addr key conn rs c = Inr (out, c')"
  shows "client_inv c'"
  using assms inv_to_cache by (auto simp: send_by_mode_def split: if_splits)

lemma inv_stop_timer:
  assumes "client_inv c" "stop_timer addr c = Inr c'"
  shows "client_inv c'"
  using assms by (auto simp: stop_timer_def andThen_eq_Inr_iff deref_opt_Inr_iff client_inv_def split: if_splits)

lemma inv_erase_item: "client_inv c \<Longrightarrow> client_inv (erase_item_from_request_map addr key c)"
  by (auto simp: erase_item_from_request_map_def client_inv_def split: option.splits)

lemma inv_child:
  assumes inv: "client_inv c" and h: "dealwith_child behind msg conn rs c = Inr (out, c')"
  shows "client_inv c'"
proof -
  from h obtain key where k: "c' = c \<or> (\<exists>addr l. cl_get key (local_lru c) = Inr (addr, l) \<and>
      send_by_mode addr key conn rs (c\<lparr>local_lru := l\<rparr>) = Inr (out, c')) \<or> send_request_to_master behind key c = Inr (out, c')"
    by (auto simp: dealwith_child_def Let_def andThen_eq_Inr_iff split: if_splits sum.splits cxx_error.splits)
  have "client_safe l" if "cl_get key (local_lru c) = Inr (addr, l)" for addr l
    using that client_step_safe [of "local_lru c" "C_get key"] inv by (auto simp: client_inv_def)
  with k inv inv_by_mode inv_lru inv_to_master show ?thesis by metis
qed

lemma inv_master:
  assumes inv: "client_inv c" and h: "dealwith_master msg conn rs c = Inr (out, c')"
  shows "client_inv c'"
proof -
  let ?c1 = "c\<lparr>master_timer := timer_stop (master_timer c)\<rparr>"
  have inv1: "client_inv ?c1" using inv by (simp add: inv_master_timer)
  from h obtain key addr where k: "c' = ?c1 \<or> (\<exists>l. cl_put key addr (local_lru ?c1) = Inr l \<and>
      send_by_mode addr key conn rs (?c1\<lparr>local_lru := l\<rparr>) = Inr (out, c'))"
    by (auto simp: dealwith_master_def Let_def andThen_eq_Inr_iff split: if_splits)
  have "client_safe l" if "cl_put key addr (local_lru ?c1) = Inr l" for l
    using that client_step_safe [of "local_lru c" "C_put key addr"] inv by (auto simp: client_inv_def)
  with k inv1 inv_by_mode inv_lru show ?thesis by metis
qed

lemma inv_cache_server:
  assumes inv: "client_inv c" and h: "dealwith_cache_server msg c = Inr c'"
  shows "client_inv c'"
proof -
  from h obtain addr key where "c' = c \<or> stop_timer addr (erase_item_from_request_map addr key c) = Inr c' \<or>
      stop_timer addr ((erase_item_from_request_map addr key c)
        \<lparr>local_lru := cl_erase key (local_lru (erase_item_from_request_map addr key c))\<rparr>) = Inr c'"
    by (auto simp: dealwith_cache_server_def Let_def andThen_eq_Inr_iff split: if_splits)
  moreover have "client_inv (erase_item_from_request_map addr key c)" using inv by (rule inv_erase_item)
  moreover from this have "client_safe (cl_erase key (local_lru (erase_item_from_request_map addr key c)))"
    using client_safe_erase by (simp add: client_inv_def)
  ultimately show ?thesis using inv inv_stop_timer inv_lru by metis
qed

lemma inv_resend_keys:
  "client_inv c \<Longrightarrow> resend_keys behind keys c = Inr (out, c') \<Longrightarrow> client_inv c' \<and> request_map c' = request_map c"
proof (induction keys arbitrary: c out)
  case (Cons k ks)
  from Cons.prems(2) obtain o1 c1 o2 where c1: "send_request_to_master behind k c = Inr (o1, c1)"
    "resend_keys behind ks c1 = Inr (o2, c')" by (auto simp: andThen_eq_Inr_iff)
  have "request_map c1 = request_map c" using c1(1) by (auto simp: send_request_to_master_def andThen_eq_Inr_iff)
  with Cons.IH [OF inv_to_master [OF Cons.prems(1) c1(1)] c1(2)] show ?case by simp
qed simp

lemma inv_check:
  "client_inv c \<Longrightarrow> check_cache_server_request_map behind order c = Inr (out, c') \<Longrightarrow> client_inv c'"
proof (induction order arbitrary: c out)
  case (Cons addr order)
  show ?case
  proof (cases "\<exists>keys. request_map c addr = Some keys \<and> LOST_MAX_NUM < length keys")
    case True
    with Cons.prems(2) obtain keys o1 c1 o2 where c1: "request_map c addr = Some keys" "resend_keys behind keys c = Inr (o1, c1)"
      "check_cache_server_request_map behind order (c1\<lparr>request_map := (request_map c1)(addr \<mapsto> [])\<rparr>) = Inr (o2, c')"
      by (auto simp: andThen_eq_Inr_iff)
    have "client_inv c1 \<and> request_map c1 = request_map c" using inv_resend_keys [OF Cons.prems(1) c1(2)] .
    then have "client_inv (c1\<lparr>request_map := (request_map c1)(addr \<mapsto> [])\<rparr>)"
      using c1(1) by (auto simp: client_inv_def)
    from Cons.IH [OF this c1(3)] show ?thesis .
  next
    case False
    with Cons.prems(2) have "check_cache_server_request_map behind order c = Inr (out, c')"
      by (auto split: option.splits if_splits)
    from Cons.IH [OF Cons.prems(1) this] show ?thesis .
  qed
qed simp

lemma inv_handle: "client_inv c \<Longrightarrow> client_handle behind ev c = Inr (out, c') \<Longrightarrow> client_inv c'"
proof (cases ev)
  case (From_child m conn rs order)
  assume inv: "client_inv c" and "client_handle behind ev c = Inr (out, c')"
  with From_child obtain o1 c1 o2 where "dealwith_child behind m conn rs c = Inr (o1, c1)"
    "check_cache_server_request_map behind order c1 = Inr (o2, c')"
    by (auto simp: andThen_eq_Inr_iff)
  with inv_child [OF inv] inv_check show ?thesis by blast
qed (auto simp: andThen_eq_Inr_iff intro: inv_master inv_cache_server)

inductive client_reach :: "Client \<Rightarrow> bool" where
  start: "client_reach (Client_new n m)"
| event: "client_reach c \<Longrightarrow> client_handle behind ev c = Inr (out, c') \<Longrightarrow> client_reach c'"

lemma reach_inv: "client_reach c \<Longrightarrow> client_inv c"
  by (induction rule: client_reach.induct) (auto intro: client_inv_new inv_handle)

section \<open>Requests\<close>

lemma request_map_add: "\<exists>ks. request_map (add_item_to_request_map addr key c) addr = Some ks \<and> key \<in> set ks"
  by (auto simp: add_item_to_request_map_def split: option.splits)

lemma parse_addr_pair:
  assumes "field_ok CHR '':'' ip" "field_ok CHR '':'' port"
  shows "parse_str_addr (ip @ '':'' @ port) = Inr (ip, port)"
  using assms by (simp add: parse_str_addr_def client_split_field vec_at_def field_ok_def)

text \<open>The message of a request by mode\<close>

definition request_text :: "char \<Rightarrow> string \<Rightarrow> nat list \<Rightarrow> string" where
  "request_text md key rs = (if md = CHR ''w'' \<and> rs \<noteq> [] then key @ ''#'' @ strRand rs else key)"

lemma request_sent:
  assumes "field_ok CHR '':'' ip" "field_ok CHR '':'' port" "mode c \<in> {CHR ''r'', CHR ''w''}"
  shows "\<exists>c' ks. send_by_mode (ip @ '':'' @ port) key True rs c =
      Inr ([To_cache ip port (request_text (mode c) key rs)], c') \<and>
    request_map c' (ip @ '':'' @ port) = Some ks \<and> key \<in> set ks \<and> local_lru c' = local_lru c \<and> mode c' = mode c"
proof -
  let ?a = "ip @ '':'' @ port"
  obtain ks where "request_map (add_item_to_request_map ?a key c) ?a = Some ks" "key \<in> set ks"
    using request_map_add by blast
  moreover have "strRand rs = '''' \<longleftrightarrow> rs = []" by (simp add: strRand_def)
  moreover have "local_lru (add_item_to_request_map ?a key c) = local_lru c"
    "mode (add_item_to_request_map ?a key c) = mode c" by (simp_all add: add_item_to_request_map_def split: option.splits)
  ultimately show ?thesis using assms(3) parse_addr_pair [OF assms(1,2)]
    by (auto simp: send_by_mode_def send_request_to_cache_server_def Let_def request_text_def)
qed

lemma master_asked:
  assumes "client_reach c" "field_ok CHR ''#'' key" "map_of (c_map (local_lru c)) key = None"
    and "readable behind" "NUL \<notin> set key" "length key + 6 < BUF_SIZE"
  obtains pipe req c1 where "send_key_to_father behind key = Inr pipe"
    "client_handle behind (From_child (c_str pipe) conn rs []) c = Inr ([To_master req], c1)" "c_str req = key"
    "client_reach c1" "mode c1 = mode c"
proof -
  obtain pipe where pipe: "send_key_to_father behind key = Inr pipe" "c_str pipe = ''CHILD#'' @ key"
    using over_read_text [OF assms(4), of "''CHILD#'' @ key"] assms(5,6) by (auto simp: send_key_to_father_def)
  have "length key < BUF_SIZE" using assms(6) by simp
  with assms(4,5) obtain req where req: "over_read behind key = Inr req" "c_str req = key" by (rule over_read_text)
  let ?c1 = "c\<lparr>master_massage := key, master_timer := timer_start (timer_reset (master_timer c))\<rparr>"
  have "client_split CHR ''#'' (''CHILD#'' @ key) = [''CHILD'', key]"
    using assms(2) client_split_field(1) [of "CHR ''#''" "''CHILD''" key] client_split_field(2) [of "CHR ''#''" key]
    by (simp add: field_ok_def)
  then have h: "client_handle behind (From_child (c_str pipe) conn rs []) c = Inr ([To_master req], ?c1)"
    using assms(3) req(1) by (simp add: pipe(2) dealwith_child_def vec_at_def cl_get_def send_request_to_master_def)
  show thesis by (rule that [OF pipe(1) h req(2) client_reach.event [OF assms(1) h]]) simp
qed

lemma location_used:
  assumes c: "client_reach c" "mode c \<in> {CHR ''r'', CHR ''w''}" and key: "field_ok CHR ''#'' key"
    and a: "field_ok CHR '':'' ip" "field_ok CHR '':'' port" "CHR ''#'' \<notin> set ip" "CHR ''#'' \<notin> set port"
  shows "\<exists>c' ks. client_handle behind (From_master (''MASTER#'' @ key @ ''#'' @ ip @ '':'' @ port) True rs) c =
      Inr ([To_cache ip port (request_text (mode c) key rs)], c') \<and> client_reach c' \<and>
    request_map c' (ip @ '':'' @ port) = Some ks \<and> key \<in> set ks"
proof -
  have safe: "client_safe (local_lru c)" using reach_inv [OF c(1)] by (simp add: client_inv_def)
  then obtain l where l: "cl_put key (ip @ '':'' @ port) (local_lru c) = Inr l" using cl_put_eq [OF safe] by auto
  let ?c = "c\<lparr>master_timer := timer_stop (master_timer c), local_lru := l\<rparr>"
  have "client_split CHR ''#'' (''MASTER#'' @ key @ ''#'' @ ip @ '':'' @ port) = [''MASTER'', key, ip @ '':'' @ port]"
    using key a client_split_field(1) [of "CHR ''#''" "''MASTER''"] client_split_field(1) [of "CHR ''#''" key]
      client_split_field(2) [of "CHR ''#''" "ip @ '':'' @ port"] by (simp add: field_ok_def)
  then have h: "client_handle behind (From_master (''MASTER#'' @ key @ ''#'' @ ip @ '':'' @ port) True rs) c =
      send_by_mode (ip @ '':'' @ port) key True rs ?c"
    using l by (simp add: dealwith_master_def Let_def)
  obtain c' ks where "send_by_mode (ip @ '':'' @ port) key True rs ?c =
      Inr ([To_cache ip port (request_text (mode c) key rs)], c')"
    "request_map c' (ip @ '':'' @ port) = Some ks" "key \<in> set ks"
    using request_sent [OF a(1,2), of ?c key rs] c(2) by auto
  with h client_reach.event [OF c(1)] show ?thesis by metis
qed

section \<open>Properties\<close>

text \<open>
  C21. The tables of the client fit together after any events: pending keys are listed once, a server
  with pending keys has a time-out entry, and every retransmission finds its entry and a valid address.
  Whether the retransmission itself is defined depends on the memory behind the request: \<open>BUF_SIZE\<close> bytes
  are read from a shorter string, as they are for every question to the coordinator.  A message of a
  server is handled without undefined behaviour exactly when it has three fields and, if it reports
  success or failure, its address is one the client has asked; the end of a connection, an empty
  message, has none.
\<close>

theorem client_tables_consistent:
  assumes "client_reach c"
  shows "(\<forall>addr keys. request_map c addr = Some keys \<longrightarrow> distinct keys \<and> cache_server_timers c addr \<noteq> None) \<and>
    (\<forall>addr r. cache_server_timers c addr = Some r \<longrightarrow> (\<exists>ip port. parse_str_addr addr = Inr (ip, port) \<and>
       (\<forall>behind conn. cache_server_resend behind addr conn c =
          (if \<not> conn then Inr []
           else if BUF_SIZE \<le> length (rs_massage r) + 1 + length (behind (rs_massage r))
           then Inr [To_cache ip port (take BUF_SIZE (rs_massage r @ NUL # behind (rs_massage r)))]
           else Inl Undefined)))) \<and>
    (\<forall>msg. dealwith_cache_server msg c = Inl Undefined \<longleftrightarrow>
       (let f = client_split CHR ''#'' msg
        in length f < 3 \<or> f ! 0 \<in> {''SUCCESS'', ''FAILED''} \<and> cache_server_timers c (f ! 2) = None))"
proof (intro conjI allI impI)
  have inv: "client_inv c" using reach_inv [OF assms] .
  show "distinct keys" "cache_server_timers c addr \<noteq> None" if "request_map c addr = Some keys" for addr keys
    using inv that unfolding client_inv_def by blast+
  show "\<exists>ip port. parse_str_addr addr = Inr (ip, port) \<and> (\<forall>behind conn. cache_server_resend behind addr conn c =
          (if \<not> conn then Inr []
           else if BUF_SIZE \<le> length (rs_massage r) + 1 + length (behind (rs_massage r))
           then Inr [To_cache ip port (take BUF_SIZE (rs_massage r @ NUL # behind (rs_massage r)))]
           else Inl Undefined))" if r: "cache_server_timers c addr = Some r" for addr r
  proof -
    have a: "rs_addr r = addr" using inv r unfolding client_inv_def by blast
    obtain ip port where "parse_str_addr addr = Inr (ip, port)"
      using inv r unfolding client_inv_def addr_parses_def by (metis surj_pair)
    with r a show ?thesis
      by (intro exI [of _ ip] exI [of _ port]) (simp add: cache_server_resend_def over_read_def Let_def)
  qed
  have timers: "cache_server_timers (erase_item_from_request_map addr key c) = cache_server_timers c" for addr key
    by (simp add: erase_item_from_request_map_def split: option.splits)
  have stop: "stop_timer addr d = Inl Undefined \<longleftrightarrow> cache_server_timers d addr = None" for addr d
    by (cases "cache_server_timers d addr") (simp_all add: stop_timer_def)
  fix msg
  show "dealwith_cache_server msg c = Inl Undefined \<longleftrightarrow>
       (let f = client_split CHR ''#'' msg
        in length f < 3 \<or> f ! 0 \<in> {''SUCCESS'', ''FAILED''} \<and> cache_server_timers c (f ! 2) = None)"
  proof (cases "length (client_split CHR ''#'' msg) < 3")
    case True
    then show ?thesis by (auto simp: dealwith_cache_server_def vec_at_def Let_def)
  next
    case False
    then have "0 < length (client_split CHR ''#'' msg)" "1 < length (client_split CHR ''#'' msg)"
      "2 < length (client_split CHR ''#'' msg)" by linarith+
    with False show ?thesis by (simp add: dealwith_cache_server_def vec_at_def Let_def stop timers del: length_greater_0_conv)
  qed
qed

theorem client_tables_consistent_witness:
  "dealwith_cache_server '''' (Client_new 3 CHR ''r'') = Inl Undefined"
  using client_tables_consistent [OF client_reach.start [of 3 "CHR ''r''"]] by simp

end
