(* ===== verification/Log_Config.thy ===== *)
theory Log_Config
  imports Sockets
begin

text \<open>
  \<open>easylogging++.cc\<close>, the part that runs when the client starts: \<open>Configurations conf("./log.conf")\<close>
  parses the file line by line and fills what is missing with defaults.  The registry of
  configurations is the list of its entries in the order of their registration.  A failed
  \<open>ELPP_ASSERT\<close> only prints.  The functions of \<open>Str\<close> come first.
\<close>

section \<open>Str\<close>

text \<open>\<open>std::string::find\<close>, from the beginning and from position \<open>i\<close>; \<open>None\<close> is \<open>npos\<close>.\<close>

fun find_first :: "string \<Rightarrow> string \<Rightarrow> nat option" where
  "find_first pat [] = (if pat = [] then Some 0 else None)"
| "find_first pat (x # s) =
     (if take (length pat) (x # s) = pat then Some 0 else map_option Suc (find_first pat s))"

definition npos_find :: "string \<Rightarrow> string \<Rightarrow> nat \<Rightarrow> nat option" where
  "npos_find pat s i = (if i \<le> length s then map_option ((+) i) (find_first pat (drop i s)) else None)"

lemma find_first_range: "find_first pat s = Some k \<Longrightarrow> k + length pat \<le> length s"
proof (induction s arbitrary: k)
  case (Cons x s)
  show ?case
  proof (cases "take (length pat) (x # s) = pat")
    case True
    then have "length pat \<le> length (x # s)" using length_take [of "length pat" "x # s"] by simp
    with Cons.prems True show ?thesis by simp
  next
    case False
    with Cons show ?thesis by auto
  qed
qed (simp split: if_splits)

fun wildCardMatch :: "string \<Rightarrow> string \<Rightarrow> bool" where
  "wildCardMatch str [] = (str = [])"
| "wildCardMatch str (p # pattern) =
     (if p = CHR ''?'' then
        (case str of [] \<Rightarrow> False | _ # str' \<Rightarrow> wildCardMatch str' pattern)
      else if p = CHR ''*'' then
        (wildCardMatch str pattern \<or> (case str of [] \<Rightarrow> False | _ # str' \<Rightarrow> wildCardMatch str' (p # pattern)))
      else (case str of [] \<Rightarrow> False | x # str' \<Rightarrow> x = p \<and> wildCardMatch str' pattern))"

definition ltrim :: "string \<Rightarrow> string" where
  "ltrim str = dropWhile is_space str"

definition rtrim :: "string \<Rightarrow> string" where
  "rtrim str = rev (dropWhile is_space (rev str))"

definition trim :: "string \<Rightarrow> string" where
  "trim str = ltrim (rtrim str)"

definition startsWith :: "string \<Rightarrow> string \<Rightarrow> bool" where
  "startsWith str start = (length start \<le> length str \<and> take (length start) str = start)"

definition endsWith :: "string \<Rightarrow> string \<Rightarrow> bool" where
  "endsWith str suffix =
     (length suffix \<le> length str \<and> drop (length str - length suffix) str = suffix)"

definition replaceAll :: "string \<Rightarrow> char \<Rightarrow> char \<Rightarrow> string" where
  "replaceAll str replaceWhat replaceWith = map (\<lambda>x. if x = replaceWhat then replaceWith else x) str"

definition upper :: "char \<Rightarrow> char" where
  "upper x = (if 97 \<le> (of_char x :: nat) \<and> (of_char x :: nat) \<le> 122 then char_of ((of_char x :: nat) - 32) else x)"

definition toUpper :: "string \<Rightarrow> string" where
  "toUpper str = map upper str"

text \<open>The loop stops at the first difference or at the NUL of the second string.\<close>

fun cStringCaseEq :: "string \<Rightarrow> string \<Rightarrow> bool" where
  "cStringCaseEq [] [] = True"
| "cStringCaseEq (x # s1) (y # s2) = (upper x = upper y \<and> cStringCaseEq s1 s2)"
| "cStringCaseEq _ _ = False"

fun contains :: "string \<Rightarrow> char \<Rightarrow> bool" where
  "contains [] x = False"
| "contains (y # str) x = (y = x \<or> contains str x)"

section \<open>Levels and configuration types\<close>

datatype Level = Global | Trace | Debug | Fatal | Error | Warning | Verbose | Info | Unknown_level

definition level_to_string :: "Level \<Rightarrow> string" where
  "level_to_string level =
     (if level = Global then ''GLOBAL'' else if level = Debug then ''DEBUG''
      else if level = Info then ''INFO'' else if level = Warning then ''WARNING''
      else if level = Error then ''ERROR'' else if level = Fatal then ''FATAL''
      else if level = Verbose then ''VERBOSE'' else if level = Trace then ''TRACE'' else ''UNKNOWN'')"

definition stringToLevelMap :: "(string \<times> Level) list" where
  "stringToLevelMap = [(''global'', Global), (''debug'', Debug), (''info'', Info), (''warning'', Warning),
     (''error'', Error), (''fatal'', Fatal), (''verbose'', Verbose), (''trace'', Trace)]"

definition level_from_string :: "string \<Rightarrow> Level" where
  "level_from_string levelStr =
     (case find (\<lambda>item. cStringCaseEq levelStr (fst item)) stringToLevelMap of
        Some item \<Rightarrow> snd item | None \<Rightarrow> Unknown_level)"

text \<open>The values of the enumeration are powers of two; \<open>castFromInt\<close> on those in its range.\<close>

definition level_from_int :: "nat \<Rightarrow> Level" where
  "level_from_int n =
     (if n = 1 then Global else if n = 2 then Trace else if n = 4 then Debug else if n = 8 then Fatal
      else if n = 16 then Error else if n = 32 then Warning else if n = 64 then Verbose
      else if n = 128 then Info else Unknown_level)"

text \<open>The indices of the loop \<open>do ... while (*startIndex <= max)\<close> when the body does not break.\<close>

function enum_indices :: "nat \<Rightarrow> nat \<Rightarrow> nat list" where
  "enum_indices lo hi = lo # (if 0 < lo \<and> 2 * lo \<le> hi then enum_indices (2 * lo) hi else [])"
  by auto
termination
  by (relation "measure (\<lambda>(lo, hi). Suc hi - lo)") auto

declare enum_indices.simps [simp del]

definition forEachLevel :: "nat list" where
  "forEachLevel = enum_indices 2 128"

datatype ConfigurationType = Enabled | ToFile | ToStandardOutput | Format | Filename |
  SubsecondPrecision | PerformanceTracking | MaxLogFileSize | LogFlushThreshold | Unknown_type

definition type_to_string :: "ConfigurationType \<Rightarrow> string" where
  "type_to_string configurationType =
     (if configurationType = Enabled then ''ENABLED'' else if configurationType = Filename then ''FILENAME''
      else if configurationType = Format then ''FORMAT'' else if configurationType = ToFile then ''TO_FILE''
      else if configurationType = ToStandardOutput then ''TO_STANDARD_OUTPUT''
      else if configurationType = SubsecondPrecision then ''SUBSECOND_PRECISION''
      else if configurationType = PerformanceTracking then ''PERFORMANCE_TRACKING''
      else if configurationType = MaxLogFileSize then ''MAX_LOG_FILE_SIZE''
      else if configurationType = LogFlushThreshold then ''LOG_FLUSH_THRESHOLD'' else ''UNKNOWN'')"

text \<open>\<open>MillisecondsWidth\<close> has the same value as \<open>SubsecondPrecision\<close>.\<close>

definition configStringToTypeMap :: "(string \<times> ConfigurationType) list" where
  "configStringToTypeMap = [(''enabled'', Enabled), (''to_file'', ToFile), (''to_standard_output'', ToStandardOutput),
     (''format'', Format), (''filename'', Filename), (''subsecond_precision'', SubsecondPrecision),
     (''milliseconds_width'', SubsecondPrecision), (''performance_tracking'', PerformanceTracking),
     (''max_log_file_size'', MaxLogFileSize), (''log_flush_threshold'', LogFlushThreshold)]"

definition type_from_string :: "string \<Rightarrow> ConfigurationType" where
  "type_from_string configStr =
     (case find (\<lambda>item. cStringCaseEq configStr (fst item)) configStringToTypeMap of
        Some item \<Rightarrow> snd item | None \<Rightarrow> Unknown_type)"

section \<open>Configurations\<close>

record Configuration =
  m_level :: Level
  m_configurationType :: ConfigurationType
  m_value :: string

definition configuration_log :: "Configuration \<Rightarrow> string" where
  "configuration_log c =
     level_to_string (m_level c) @ '' '' @ type_to_string (m_configurationType c) @ '' = '' @ m_value c"

definition conf_predicate :: "Level \<Rightarrow> ConfigurationType \<Rightarrow> Configuration \<Rightarrow> bool" where
  "conf_predicate level t c = (m_level c = level \<and> m_configurationType c = t)"

type_synonym configurations = "Configuration list"

definition conf_get :: "Level \<Rightarrow> ConfigurationType \<Rightarrow> configurations \<Rightarrow> Configuration option" where
  "conf_get level t cs = find (conf_predicate level t) cs"

text \<open>Register a new entry, or set the value of the one that is found.\<close>

fun set_value :: "(Configuration \<Rightarrow> bool) \<Rightarrow> string \<Rightarrow> configurations \<Rightarrow> configurations" where
  "set_value p v [] = []"
| "set_value p v (c # cs) = (if p c then c\<lparr>m_value := v\<rparr> # cs else c # set_value p v cs)"

definition register_or_set :: "Level \<Rightarrow> ConfigurationType \<Rightarrow> string \<Rightarrow> configurations \<Rightarrow> configurations" where
  "register_or_set level t v cs =
     (if conf_get level t cs = None then cs @ [\<lparr>m_level = level, m_configurationType = t, m_value = v\<rparr>]
      else set_value (conf_predicate level t) v cs)"

lemma forEachLevel_eval: "forEachLevel = [2, 4, 8, 16, 32, 64, 128]"
  by (simp add: forEachLevel_def enum_indices.simps)

function unsafeSet :: "Level \<Rightarrow> ConfigurationType \<Rightarrow> string \<Rightarrow> configurations \<Rightarrow> configurations" where
  "unsafeSet level t v cs =
     (let cs1 = register_or_set level t v cs
      in if level = Global then fold (\<lambda>i. unsafeSet (level_from_int i) t v) forEachLevel cs1 else cs1)"
  by auto
termination
  by (relation "measure (\<lambda>(level, _). if level = Global then 1 else 0)")
    (auto simp: forEachLevel_eval level_from_int_def)

declare unsafeSet.simps [simp del]

definition unsafeSetGlobally :: "ConfigurationType \<Rightarrow> string \<Rightarrow> bool \<Rightarrow> configurations \<Rightarrow> configurations" where
  "unsafeSetGlobally t v includeGlobalLevel cs =
     fold (\<lambda>i. unsafeSet (level_from_int i) t v) forEachLevel
       (if includeGlobalLevel then unsafeSet Global t v cs else cs)"

definition conf_set :: "Level \<Rightarrow> ConfigurationType \<Rightarrow> string \<Rightarrow> configurations \<Rightarrow> configurations" where
  "conf_set level t v cs =
     (let cs1 = unsafeSet level t v cs
      in if level = Global then unsafeSetGlobally t v False cs1 else cs1)"

definition setGlobally :: "ConfigurationType \<Rightarrow> string \<Rightarrow> bool \<Rightarrow> configurations \<Rightarrow> configurations" where
  "setGlobally t v includeGlobalLevel cs =
     fold (\<lambda>i. conf_set (level_from_int i) t v) forEachLevel
       (if includeGlobalLevel then conf_set Global t v cs else cs)"

definition unsafeSetIfNotExist :: "Level \<Rightarrow> ConfigurationType \<Rightarrow> string \<Rightarrow> configurations \<Rightarrow> configurations" where
  "unsafeSetIfNotExist level t v cs = (if conf_get level t cs = None then unsafeSet level t v cs else cs)"

definition setFromBase :: "configurations option \<Rightarrow> configurations \<Rightarrow> configurations" where
  "setFromBase base cs =
     (case base of None \<Rightarrow> cs
      | Some bs \<Rightarrow> fold (\<lambda>c. conf_set (m_level c) (m_configurationType c) (m_value c)) bs cs)"

definition hasConfiguration :: "ConfigurationType \<Rightarrow> configurations \<Rightarrow> bool" where
  "hasConfiguration t cs \<longleftrightarrow> (\<exists>i \<in> set forEachLevel. conf_get (level_from_int i) t cs \<noteq> None)"

definition setToDefault :: "configurations \<Rightarrow> configurations" where
  "setToDefault cs =
     fold (\<lambda>(level, v). conf_set level Format v)
       [(Debug, ''%datetime %level [%logger] [%user@%host] [%func] [%loc] %msg''),
        (Error, ''%datetime %level [%logger] %msg''),
        (Fatal, ''%datetime %level [%logger] %msg''),
        (Verbose, ''%datetime %level-%vlevel [%logger] %msg''),
        (Trace, ''%datetime %level [%logger] [%func] [%loc] %msg'')]
       (fold (\<lambda>(t, v). setGlobally t v True)
         [(Enabled, ''true''), (Filename, ''myeasylog.log''), (ToFile, ''true''), (ToStandardOutput, ''true''),
          (SubsecondPrecision, ''3''), (PerformanceTracking, ''true''), (MaxLogFileSize, ''0''),
          (LogFlushThreshold, ''0''), (Format, ''%datetime %level [%logger] %msg'')] cs)"

definition setRemainingToDefault :: "configurations \<Rightarrow> configurations" where
  "setRemainingToDefault cs =
     fold (\<lambda>(level, t, v). unsafeSetIfNotExist level t v)
       [(Global, Enabled, ''true''), (Global, Filename, ''myeasylog.log''),
        (Global, ToStandardOutput, ''true''), (Global, SubsecondPrecision, ''3''),
        (Global, PerformanceTracking, ''true''), (Global, MaxLogFileSize, ''0''),
        (Global, Format, ''%datetime %level [%logger] %msg''),
        (Debug, Format, ''%datetime %level [%logger] [%user@%host] [%func] [%loc] %msg''),
        (Error, Format, ''%datetime %level [%logger] %msg''),
        (Fatal, Format, ''%datetime %level [%logger] %msg''),
        (Verbose, Format, ''%datetime %level-%vlevel [%logger] %msg''),
        (Trace, Format, ''%datetime %level [%logger] [%func] [%loc] %msg'')] cs"

section \<open>The parser\<close>

text \<open>\<open>while (quotesEnd != npos && line->at(quotesEnd - 1) == '\\') quotesEnd = find(..., quotesEnd + 2)\<close>\<close>

lemma npos_find_range: "npos_find pat s i = Some k \<Longrightarrow> i \<le> k \<and> k + length pat \<le> length s"
  by (auto simp: npos_find_def dest!: find_first_range split: if_splits)

function skip_escaped :: "string \<Rightarrow> nat \<Rightarrow> nat option" where
  "skip_escaped line e =
     (if line ! (e - 1) = CHR 0x5C then
        (case npos_find [CHR 0x22] line (e + 2) of None \<Rightarrow> None | Some e' \<Rightarrow> skip_escaped line e')
      else Some e)"
  by auto
termination
  by (relation "measure (\<lambda>(line, e). length line - e)") (auto dest: npos_find_range)

definition ignoreComments :: "string \<Rightarrow> string" where
  "ignoreComments line =
     (let quotesEnd = (case npos_find [CHR 0x22] line 0 of
              None \<Rightarrow> None
            | Some s \<Rightarrow> (case npos_find [CHR 0x22] line (s + 1) of None \<Rightarrow> None | Some e \<Rightarrow> skip_escaped line e))
      in case npos_find ''##'' line 0 of
           None \<Rightarrow> line
         | Some foundAt \<Rightarrow>
             (case (case quotesEnd of
                      None \<Rightarrow> npos_find ''##'' line 0
                    | Some q \<Rightarrow> if foundAt < q then npos_find ''##'' line (q + 1) else Some foundAt) of
                None \<Rightarrow> line | Some f \<Rightarrow> take f line))"

definition isLevel :: "string \<Rightarrow> bool" where
  "isLevel line = startsWith line ''*''"

definition isComment :: "string \<Rightarrow> bool" where
  "isComment line = startsWith line ''##''"

definition isConfig :: "string \<Rightarrow> bool" where
  "isConfig line =
     (case line of
        [] \<Rightarrow> False
      | x # _ \<Rightarrow> ((65 \<le> (of_char x :: nat) \<and> (of_char x :: nat) \<le> 90) \<or> (97 \<le> (of_char x :: nat) \<and> (of_char x :: nat) \<le> 122)) \<and>
                npos_find ''='' line 0 \<noteq> None)"

text \<open>The loop that removes escapes from a value; \<open>e\<close> lies inside the value whenever it is reached.\<close>

function unescape :: "string \<Rightarrow> nat \<Rightarrow> string \<times> nat option" where
  "unescape val e =
     (if 0 < e \<and> e < length val \<and> val ! (e - 1) = CHR 0x5C then
        let val' = take (e - 1) val @ drop e val
        in case npos_find [CHR 0x22] val' (e + 2) of None \<Rightarrow> (val', None) | Some e' \<Rightarrow> unescape val' e'
      else (val, Some e))"
  by auto
termination
  by (relation "measure (\<lambda>(val, e). length val)") auto

declare skip_escaped.simps [simp del] unescape.simps [simp del]

definition config_value :: "string \<Rightarrow> string" where
  "config_value currValue =
     (case npos_find [CHR 0x22] currValue 0 of
        None \<Rightarrow> currValue
      | Some quotesStart \<Rightarrow>
          (case (case npos_find [CHR 0x22] currValue (quotesStart + 1) of
                   None \<Rightarrow> (currValue, None) | Some e \<Rightarrow> unescape currValue e) of
             (v, None) \<Rightarrow> v
           | (v, Some quotesEnd) \<Rightarrow>
               if quotesStart \<noteq> quotesEnd \<and> quotesStart + 1 \<noteq> quotesEnd
               then take (quotesEnd - 1) (drop (quotesStart + 1) v) else v))"

definition parseLine :: "string \<Rightarrow> Level \<times> configurations \<Rightarrow> bool \<times> Level \<times> configurations" where
  "parseLine line st =
     (let (currLevel, conf) = st;
          line1 = trim line;
          line2 = trim (ignoreComments line1)
      in if isComment line1 then (True, st)
         else if line2 = '''' then (True, st)
         else if isLevel line2 then
           if length line2 \<le> 2 then (True, st)
           else (True, level_from_string (trim (toUpper (take (length line2 - 2) (drop 1 line2)))), conf)
         else
           let (currConfig, currValue) =
                 (if isConfig line2 then
                    let assignment = the (npos_find ''='' line2 0)
                    in (type_from_string (trim (toUpper (take assignment line2))),
                        config_value (trim (drop (assignment + 1) line2)))
                  else (Unknown_type, ''''))
           in if currLevel = Unknown_level \<or> currConfig = Unknown_type then (False, st)
              else (True, currLevel, conf_set currLevel currConfig currValue conf))"

text \<open>The result of the last line is the result of the whole.\<close>

fun parse_lines :: "string list \<Rightarrow> bool \<times> Level \<times> configurations \<Rightarrow> bool \<times> Level \<times> configurations" where
  "parse_lines [] r = r"
| "parse_lines (line # ls) (_, st) = parse_lines ls (parseLine line st)"

text \<open>\<open>while (good()) getline(...)\<close>: after a final newline an empty line is parsed as well.\<close>

fun good_lines :: "string \<Rightarrow> string list" where
  "good_lines [] = [[]]"
| "good_lines (x # s) =
     (if x = CHR 0x0A then [] # good_lines s
      else (case good_lines s of l # ls \<Rightarrow> (x # l) # ls | [] \<Rightarrow> [[x]]))"

definition parser_parseFromFile :: "string \<Rightarrow> configurations option \<Rightarrow> configurations \<Rightarrow> bool \<times> configurations" where
  "parser_parseFromFile content base cs =
     (case parse_lines (good_lines content) (False, Unknown_level, setFromBase base cs) of (r, _, cs') \<Rightarrow> (r, cs'))"

definition parser_parseFromText :: "string \<Rightarrow> configurations option \<Rightarrow> configurations \<Rightarrow> bool \<times> configurations" where
  "parser_parseFromText content base cs =
     (case parse_lines (client_split CHR 0x0A content) (False, Unknown_level, setFromBase base cs) of
        (r, _, cs') \<Rightarrow> (r, cs'))"

record Configurations =
  conf_list :: configurations
  m_isFromFile :: bool

text \<open>\<open>content\<close> is the text of the file, \<open>None\<close> when there is no such file.\<close>

definition parseFromFile :: "string option \<Rightarrow> configurations option \<Rightarrow> Configurations \<Rightarrow> bool \<times> Configurations" where
  "parseFromFile content base c =
     (case content of
        None \<Rightarrow> (False, c)
      | Some s \<Rightarrow> let (success, cs) = parser_parseFromFile s base (conf_list c)
                  in (success, c\<lparr>conf_list := cs, m_isFromFile := success\<rparr>))"

definition parseFromText :: "string \<Rightarrow> configurations option \<Rightarrow> Configurations \<Rightarrow> bool \<times> Configurations" where
  "parseFromText s base c =
     (let (success, cs) = parser_parseFromText s base (conf_list c)
      in (success, c\<lparr>conf_list := cs, m_isFromFile := (if success then False else m_isFromFile c)\<rparr>))"

definition Configurations_new :: "string option \<Rightarrow> bool \<Rightarrow> configurations option \<Rightarrow> Configurations" where
  "Configurations_new content useDefaultsForRemaining base =
     (let (_, c) = parseFromFile content base \<lparr>conf_list = [], m_isFromFile = False\<rparr>
      in if useDefaultsForRemaining then c\<lparr>conf_list := setRemainingToDefault (conf_list c)\<rparr> else c)"

section \<open>Setting and reading\<close>

definition conf_value :: "Level \<Rightarrow> ConfigurationType \<Rightarrow> configurations \<Rightarrow> string option" where
  "conf_value level t cs = map_option m_value (conf_get level t cs)"

lemma conf_get_Cons: "conf_get level t (c # cs) = (if conf_predicate level t c then Some c else conf_get level t cs)"
  by (simp add: conf_get_def)

lemma value_register:
  "conf_value l t (register_or_set level t' v cs) = (if l = level \<and> t = t' then Some v else conf_value l t cs)"
proof (cases "conf_get level t' cs = None")
  case True
  have "conf_get l t (cs @ [\<lparr>m_level = level, m_configurationType = t', m_value = v\<rparr>]) =
      (if conf_get l t cs \<noteq> None then conf_get l t cs
       else if l = level \<and> t = t' then Some \<lparr>m_level = level, m_configurationType = t', m_value = v\<rparr> else None)"
    by (induction cs) (auto simp: conf_get_def conf_predicate_def)
  with True show ?thesis by (auto simp: register_or_set_def conf_value_def)
next
  case False
  have "conf_get level t' cs \<noteq> None \<Longrightarrow> conf_value l t (set_value (conf_predicate level t') v cs) =
      (if l = level \<and> t = t' then Some v else conf_value l t cs)"
    by (induction cs) (auto simp: conf_get_Cons conf_value_def conf_predicate_def conf_get_def)
  with False show ?thesis by (auto simp: register_or_set_def)
qed

text \<open>Setting a level sets that level; setting \<open>Global\<close> sets every level.\<close>

lemma value_unsafeSet:
  "l \<noteq> Unknown_level \<Longrightarrow>
   conf_value l t (unsafeSet level t' v cs) =
     (if t = t' \<and> (l = level \<or> level = Global) then Some v else conf_value l t cs)"
proof (cases "level = Global")
  case False
  then show ?thesis by (simp add: unsafeSet.simps [of level] value_register)
next
  case True
  have one: "unsafeSet k t' v c = register_or_set k t' v c" if "k \<noteq> Global" for k c
    using that by (simp add: unsafeSet.simps [of k])
  assume "l \<noteq> Unknown_level"
  then show ?thesis unfolding True unsafeSet.simps [of Global]
    by (cases l) (simp_all add: Let_def forEachLevel_eval level_from_int_def one value_register)
qed

lemma value_conf_set:
  assumes "l \<noteq> Unknown_level"
  shows "conf_value l t (conf_set level t' v cs) =
     (if t = t' \<and> (l = level \<or> level = Global) then Some v else conf_value l t cs)"
  using assms by (cases l) (simp_all add: conf_set_def unsafeSetGlobally_def Let_def value_unsafeSet
      forEachLevel_eval level_from_int_def)

section \<open>Facts\<close>

text \<open>A star matches any part of the text, a question mark any character, nothing else varies.\<close>

lemma wildcard_star:
  "wildCardMatch s (CHR ''*'' # p) \<longleftrightarrow> (\<exists>k \<le> length s. wildCardMatch (drop k s) p)"
proof (induction s)
  case (Cons x s)
  have "(\<exists>k \<le> length (x # s). wildCardMatch (drop k (x # s)) p) \<longleftrightarrow>
      wildCardMatch (x # s) p \<or> (\<exists>k \<le> length s. wildCardMatch (drop k s) p)"
  proof
    assume "\<exists>k \<le> length (x # s). wildCardMatch (drop k (x # s)) p"
    then obtain k where k: "k \<le> length (x # s)" "wildCardMatch (drop k (x # s)) p" by blast
    then show "wildCardMatch (x # s) p \<or> (\<exists>k \<le> length s. wildCardMatch (drop k s) p)"
      by (cases k) auto
  next
    assume "wildCardMatch (x # s) p \<or> (\<exists>k \<le> length s. wildCardMatch (drop k s) p)"
    then show "\<exists>k \<le> length (x # s). wildCardMatch (drop k (x # s)) p"
    proof
      assume "wildCardMatch (x # s) p"
      then show ?thesis by (intro exI [of _ 0]) simp
    next
      assume "\<exists>k \<le> length s. wildCardMatch (drop k s) p"
      then obtain k where "k \<le> length s" "wildCardMatch (drop k s) p" by blast
      then show ?thesis by (intro exI [of _ "Suc k"]) simp
    qed
  qed
  with Cons.IH show ?case by simp
qed simp

lemma wildcard_literal:
  "\<forall>x \<in> set p. x \<noteq> CHR ''?'' \<and> x \<noteq> CHR ''*'' \<Longrightarrow> wildCardMatch s p \<longleftrightarrow> s = p"
  by (induction s p rule: wildCardMatch.induct) (auto split: list.splits)

text \<open>The character tests on the characters that occur, evaluated once.\<close>

lemma upper_letters: "map upper ''abcdefghijklmnopqrstuvwxyz'' = ''ABCDEFGHIJKLMNOPQRSTUVWXYZ''"
  by code_simp

lemma upper_others: "map upper ''ABCDEFGHIJKLMNOPQRSTUVWXYZ_ ''= ''ABCDEFGHIJKLMNOPQRSTUVWXYZ_ ''"
  by code_simp

lemma graphic: "list_all (\<lambda>x. \<not> is_space x) (''ABCDEFGHIJKLMNOPQRSTUVWXYZ_abcdefghijklmnopqrstuvwxyz*:|[]%./={}0123456789'' @ [CHR 0x22])"
  by code_simp

lemma blank: "is_space CHR '' ''"
  by code_simp

lemmas char_eval = upper_letters [simplified] upper_others [simplified] graphic [simplified] blank

lemma level_names: "l \<noteq> Unknown_level \<Longrightarrow> level_from_string (level_to_string l) = l"
  by (cases l) (simp_all add: level_from_string_def level_to_string_def stringToLevelMap_def char_eval)

lemma type_names: "t \<noteq> Unknown_type \<Longrightarrow> type_from_string (type_to_string t) = t"
  by (cases t) (simp_all add: type_from_string_def type_to_string_def configStringToTypeMap_def char_eval)

lemma conf_value_None: "conf_value l t cs = None \<longleftrightarrow> conf_get l t cs = None"
  by (simp add: conf_value_def)

text \<open>The entry of \<open>Global\<close> exists as soon as any value has been set for it.\<close>

lemma value_set_if:
  assumes "l \<noteq> Unknown_level"
  shows "conf_value l t (unsafeSetIfNotExist level t' v cs) =
     (if conf_value level t' cs = None \<and> t = t' \<and> (l = level \<or> level = Global) then Some v else conf_value l t cs)"
proof (cases "conf_get level t' cs = None")
  case True
  with assms show ?thesis by (simp add: unsafeSetIfNotExist_def value_unsafeSet conf_value_None)
next
  case False
  then have "conf_value level t' cs \<noteq> None" by (simp add: conf_value_None)
  with False show ?thesis unfolding unsafeSetIfNotExist_def by (simp only: if_False simp_thms)
qed

text \<open>Every level has the value \<open>v\<close> for the type \<open>t\<close>.\<close>

definition all_levels :: "ConfigurationType \<Rightarrow> string \<Rightarrow> configurations \<Rightarrow> bool" where
  "all_levels t v cs \<longleftrightarrow> (\<forall>l. l \<noteq> Unknown_level \<longrightarrow> conf_value l t cs = Some v)"

lemma all_levels_kept:
  "all_levels t v cs \<Longrightarrow> \<forall>(level, t', v') \<in> set xs. level \<noteq> Unknown_level \<Longrightarrow>
   all_levels t v (fold (\<lambda>(level, t', v'). unsafeSetIfNotExist level t' v') xs cs)"
proof (induction xs arbitrary: cs)
  case (Cons x xs)
  obtain level t' v' where x: "x = (level, t', v')" by (cases x)
  have "all_levels t v (unsafeSetIfNotExist level t' v' cs)"
    using Cons.prems x by (auto simp: all_levels_def value_set_if)
  with Cons x show ?case by simp
qed simp

lemma all_levels_default:
  "conf_value Global t cs = None \<Longrightarrow> find (\<lambda>(_, t', _). t' = t) xs = Some (Global, t, v) \<Longrightarrow>
   \<forall>(level, t', v') \<in> set xs. level \<noteq> Unknown_level \<Longrightarrow>
   all_levels t v (fold (\<lambda>(level, t', v'). unsafeSetIfNotExist level t' v') xs cs)"
proof (induction xs arbitrary: cs)
  case (Cons x xs)
  obtain level t' v' where x: "x = (level, t', v')" by (cases x)
  show ?case
  proof (cases "t' = t")
    case True
    then have g: "level = Global" "v' = v" using Cons.prems(2) x by simp_all
    have "all_levels t v (unsafeSetIfNotExist Global t v cs)"
      using Cons.prems(1) by (simp add: all_levels_def value_set_if)
    from all_levels_kept [OF this, of xs] Cons.prems(3) x True g show ?thesis by simp
  next
    case False
    have "conf_value Global t (unsafeSetIfNotExist level t' v' cs) = None"
      using Cons.prems(1) False by (simp add: value_set_if)
    with Cons x False show ?thesis by simp
  qed
qed simp

text \<open>
  The defaults fill in what \<open>Global\<close> lacks, and overwrite what single levels have: a file that
  sets a type for some levels only is without effect for the types below.  What the file has
  set for \<open>Global\<close> after all levels stays.
\<close>

lemma defaults_overwrite_levels:
  assumes "conf_value Global t cs = None"
    "(t, v) \<in> set [(Enabled, ''true''), (Filename, ''myeasylog.log''), (ToStandardOutput, ''true''),
       (SubsecondPrecision, ''3''), (PerformanceTracking, ''true''), (MaxLogFileSize, ''0'')]"
  shows "all_levels t v (setRemainingToDefault cs)"
  unfolding setRemainingToDefault_def using assms by (intro all_levels_default) auto

lemma defaults_keep_global: "all_levels t v cs \<Longrightarrow> all_levels t v (setRemainingToDefault cs)"
  unfolding setRemainingToDefault_def by (rule all_levels_kept) auto

section \<open>The file that comes with the client\<close>

definition log_conf :: string where
  "log_conf = ''* GLOBAL:'' @ [CHR 0x0A] @
     ''    FORMAT                  =   '' @ [CHR 0x22] @ ''[%datetime | %level] | %msg'' @ [CHR 0x22, CHR 0x0A] @
     ''    FILENAME                =   '' @ [CHR 0x22] @ ''./log/client_%datetime{%Y%M%d%H}.log'' @ [CHR 0x22, CHR 0x0A] @
     ''    ENABLED                 =   true'' @ [CHR 0x0A] @
     ''    TO_FILE                 =   true'' @ [CHR 0x0A] @
     ''    TO_STANDARD_OUTPUT      =   false  '' @ [CHR 0x0A] @
     ''    PERFORMANCE_TRACKING    =   false'' @ [CHR 0x0A] @
     ''    MAX_LOG_FILE_SIZE       =   209715200''"

lemma log_conf_lines:
  "good_lines log_conf = [''* GLOBAL:'',
     ''    FORMAT                  =   '' @ [CHR 0x22] @ ''[%datetime | %level] | %msg'' @ [CHR 0x22],
     ''    FILENAME                =   '' @ [CHR 0x22] @ ''./log/client_%datetime{%Y%M%d%H}.log'' @ [CHR 0x22],
     ''    ENABLED                 =   true'', ''    TO_FILE                 =   true'',
     ''    TO_STANDARD_OUTPUT      =   false  '', ''    PERFORMANCE_TRACKING    =   false'',
     ''    MAX_LOG_FILE_SIZE       =   209715200'']"
  by (simp add: log_conf_def)

lemmas line_simps = char_eval
  parseLine_def trim_def ltrim_def rtrim_def isComment_def isLevel_def isConfig_def startsWith_def ignoreComments_def
  npos_find_def config_value_def toUpper_def unescape.simps skip_escaped.simps
  level_from_string_def stringToLevelMap_def type_from_string_def configStringToTypeMap_def Let_def

lemma log_conf_level: "parseLine ''* GLOBAL:'' (l, cs) = (True, Global, cs)"
  by (simp add: line_simps)

lemma log_conf_quoted:
  "parseLine (''    FORMAT                  =   '' @ [CHR 0x22] @ ''[%datetime | %level] | %msg'' @ [CHR 0x22]) (Global, cs) =
     (True, Global, conf_set Global Format ''[%datetime | %level] | %msg'' cs)"
  "parseLine (''    FILENAME                =   '' @ [CHR 0x22] @ ''./log/client_%datetime{%Y%M%d%H}.log'' @ [CHR 0x22]) (Global, cs) =
     (True, Global, conf_set Global Filename ''./log/client_%datetime{%Y%M%d%H}.log'' cs)"
  by (simp_all add: line_simps)

lemma log_conf_plain:
  "parseLine ''    ENABLED                 =   true'' (Global, cs) = (True, Global, conf_set Global Enabled ''true'' cs)"
  "parseLine ''    TO_FILE                 =   true'' (Global, cs) = (True, Global, conf_set Global ToFile ''true'' cs)"
  "parseLine ''    TO_STANDARD_OUTPUT      =   false  '' (Global, cs) = (True, Global, conf_set Global ToStandardOutput ''false'' cs)"
  "parseLine ''    PERFORMANCE_TRACKING    =   false'' (Global, cs) = (True, Global, conf_set Global PerformanceTracking ''false'' cs)"
  "parseLine ''    MAX_LOG_FILE_SIZE       =   209715200'' (Global, cs) = (True, Global, conf_set Global MaxLogFileSize ''209715200'' cs)"
  by (simp_all add: line_simps)

section \<open>Printing and parsing\<close>

text \<open>
  A configuration as a file: a level line and an assignment for each entry, whose value may be put in quotes.
  A plain value has no blanks at its ends, no quote and no comment sign; a quoted one may have them, but no
  quote (see \<open>escaped_quote_kept\<close>), and its last character is no backslash.
\<close>

definition plain_value :: "string \<Rightarrow> bool" where
  "plain_value v \<longleftrightarrow> v \<noteq> [] \<and> \<not> is_space (hd v) \<and> \<not> is_space (last v) \<and>
     CHR 0x22 \<notin> set v \<and> find_first ''##'' v = None \<and> CHR 0x0A \<notin> set v"

definition quotable :: "string \<Rightarrow> bool" where
  "quotable v \<longleftrightarrow> v \<noteq> [] \<and> CHR 0x22 \<notin> set v \<and> CHR 0x0A \<notin> set v \<and> last v \<noteq> CHR 0x5C"

definition quote :: "bool \<Rightarrow> string \<Rightarrow> string" where
  "quote q v = (if q then [CHR 0x22] @ v @ [CHR 0x22] else v)"

definition entry_ok :: "bool \<times> Configuration \<Rightarrow> bool" where
  "entry_ok e \<longleftrightarrow> m_level (snd e) \<noteq> Unknown_level \<and> m_configurationType (snd e) \<noteq> Unknown_type \<and>
     (if fst e then quotable (m_value (snd e)) else plain_value (m_value (snd e)))"

definition level_line :: "Level \<Rightarrow> string" where
  "level_line l = ''* '' @ level_to_string l @ '':''"

definition type_line :: "ConfigurationType \<Rightarrow> string \<Rightarrow> string" where
  "type_line t v = type_to_string t @ '' = '' @ v"

definition render :: "(bool \<times> Configuration) list \<Rightarrow> string" where
  "render es = concat (map (\<lambda>(q, c). level_line (m_level c) @ [CHR 0x0A] @
     type_line (m_configurationType c) (quote q (m_value c)) @ [CHR 0x0A]) es)"

lemma find_first_absent: "x \<notin> set s \<Longrightarrow> find_first (x # pat) s = None"
  by (induction s) auto

lemma find_first_skip: "x \<notin> set a \<Longrightarrow> find_first (x # pat) (a @ s) = map_option ((+) (length a)) (find_first (x # pat) s)"
proof (induction a)
  case Nil
  show ?case by (cases "find_first (x # pat) s") auto
next
  case (Cons y a)
  then show ?case by (cases "find_first (x # pat) s") auto
qed

lemma find_first_present: "x \<notin> set a \<Longrightarrow> find_first [x] (a @ x # b) = Some (length a)"
  by (induction a) auto

lemma dropWhile_start: "s \<noteq> [] \<Longrightarrow> \<not> P (hd s) \<Longrightarrow> dropWhile P s = s"
  by (cases s) auto

lemma rtrim_id: "s \<noteq> [] \<Longrightarrow> \<not> is_space (last s) \<Longrightarrow> rtrim s = s"
  by (simp add: rtrim_def dropWhile_start hd_rev)

lemma ltrim_id: "s \<noteq> [] \<Longrightarrow> \<not> is_space (hd s) \<Longrightarrow> ltrim s = s"
  by (simp add: ltrim_def dropWhile_start)

lemma trim_id: "s \<noteq> [] \<Longrightarrow> \<not> is_space (hd s) \<Longrightarrow> \<not> is_space (last s) \<Longrightarrow> trim s = s"
  by (simp add: trim_def rtrim_id ltrim_id)

lemma trim_blank:
  assumes "s \<noteq> []" "\<not> is_space (hd s)" "\<not> is_space (last s)"
  shows "trim ('' '' @ s) = s" "trim (s @ '' '') = s"
proof -
  have "rtrim ('' '' @ s) = '' '' @ s" using assms by (intro rtrim_id) auto
  then show "trim ('' '' @ s) = s" using assms blank ltrim_id [of s] by (simp add: trim_def ltrim_def)
  have "rtrim (s @ '' '') = rtrim s" using blank by (simp add: rtrim_def)
  then show "trim (s @ '' '') = s" using assms by (simp add: trim_def rtrim_id ltrim_id)
qed

definition type_text_ok :: "string \<Rightarrow> bool" where
  "type_text_ok s \<longleftrightarrow> s \<noteq> [] \<and> 65 \<le> (of_char (hd s) :: nat) \<and> (of_char (hd s) :: nat) \<le> 90 \<and> map upper s = s \<and>
     \<not> is_space (hd s) \<and> \<not> is_space (last s) \<and>
     list_all (\<lambda>x. x \<noteq> CHR ''='' \<and> x \<noteq> CHR ''#'' \<and> x \<noteq> CHR 0x22 \<and> x \<noteq> CHR 0x0A) s"

lemma type_text:
  "t \<noteq> Unknown_type \<Longrightarrow> type_text_ok (type_to_string t) \<and> type_from_string (type_to_string t) = t"
  by (cases t) (simp_all add: type_names, simp_all add: type_text_ok_def type_to_string_def char_eval)

lemma parse_level_line: "l \<noteq> Unknown_level \<Longrightarrow> parseLine (level_line l) (l0, cs) = (True, l, cs)"
  by (cases l) (simp_all add: level_line_def level_to_string_def line_simps)

text \<open>A value in quotes\<close>

lemma quotes_found:
  assumes "CHR 0x22 \<notin> set a" "quotable v" "line = a @ CHR 0x22 # v @ [CHR 0x22]"
  shows "npos_find [CHR 0x22] line 0 = Some (length a)"
    "npos_find [CHR 0x22] line (length a + 1) = Some (length a + 1 + length v)"
    "line ! (length a + 1 + length v - 1) \<noteq> CHR 0x5C"
proof -
  show "npos_find [CHR 0x22] line 0 = Some (length a)"
    using find_first_present [OF assms(1)] by (simp add: assms(3) npos_find_def)
  have "CHR 0x22 \<notin> set v" "v \<noteq> []" "last v \<noteq> CHR 0x5C" using assms(2) by (simp_all add: quotable_def)
  then show "npos_find [CHR 0x22] line (length a + 1) = Some (length a + 1 + length v)"
    using find_first_present [of "CHR 0x22" v "[]"] by (simp add: assms(3) npos_find_def)
  show "line ! (length a + 1 + length v - 1) \<noteq> CHR 0x5C"
    using \<open>v \<noteq> []\<close> \<open>last v \<noteq> CHR 0x5C\<close> by (simp add: assms(3) nth_append last_conv_nth nth_Cons' del: One_nat_def)
qed

lemma quoted_comments:
  assumes "CHR 0x22 \<notin> set a" "quotable v" "line = a @ CHR 0x22 # v @ [CHR 0x22]"
  shows "ignoreComments line = line"
proof -
  note q = quotes_found [OF assms]
  let ?e = "length a + 1 + length v"
  have e: "skip_escaped line ?e = Some ?e" by (subst skip_escaped.simps) (use q(3) in simp)
  have len: "length line = Suc ?e" by (simp add: assms(3))
  have none: "npos_find ''##'' line (?e + 1) = None" using len by (simp add: npos_find_def)
  have before: "f < ?e" if "npos_find ''##'' line 0 = Some f" for f using npos_find_range [OF that] len by simp
  show ?thesis unfolding ignoreComments_def Let_def q(1) option.case q(2) e using none before
    by (simp split: option.split)
qed

lemma quoted_config_value: "quotable v \<Longrightarrow> config_value (CHR 0x22 # v @ [CHR 0x22]) = v"
proof -
  assume v: "quotable v"
  note q = quotes_found [of "[]", OF _ v refl, simplified]
  have "unescape (CHR 0x22 # v @ [CHR 0x22]) (Suc (length v)) = (CHR 0x22 # v @ [CHR 0x22], Some (Suc (length v)))"
    by (subst unescape.simps) (use q(3) in simp)
  then show ?thesis using q v by (simp add: config_value_def quotable_def)
qed

lemma quote_ends:
  assumes "if q then quotable v else plain_value v"
  shows "quote q v \<noteq> []" "\<not> is_space (hd (quote q v))" "\<not> is_space (last (quote q v))" "CHR 0x0A \<notin> set (quote q v)"
  using assms by (auto simp: quote_def quotable_def plain_value_def graphic [simplified] split: if_splits)

lemma quote_config_value:
  "if q then quotable v else plain_value v \<Longrightarrow> config_value (quote q v) = v"
proof (cases q)
  case True
  then show "if q then quotable v else plain_value v \<Longrightarrow> config_value (quote q v) = v"
    using quoted_config_value [of v] by (simp add: quote_def)
qed (simp add: quote_def config_value_def plain_value_def npos_find_def find_first_absent)

lemma quote_comments:
  assumes "if q then quotable v else plain_value v" "CHR 0x22 \<notin> set a" "CHR ''#'' \<notin> set a"
  shows "ignoreComments (a @ quote q v) = a @ quote q v"
proof (cases q)
  case True
  then show ?thesis using quoted_comments [OF assms(2) _ refl, of v] assms(1) by (simp add: quote_def)
next
  case False
  then have "CHR 0x22 \<notin> set (a @ v)" "find_first ''##'' (a @ v) = None"
    using assms find_first_skip [OF assms(3)] by (simp_all add: plain_value_def)
  then show ?thesis using False by (simp add: quote_def ignoreComments_def npos_find_def find_first_absent)
qed

lemma parse_type_line:
  assumes "t \<noteq> Unknown_type" "if q then quotable v else plain_value v" "l \<noteq> Unknown_level"
  shows "parseLine (type_line t (quote q v)) (l, cs) = (True, l, conf_set l t v cs)"
proof -
  let ?T = "type_to_string t" and ?v = "quote q v"
  let ?line = "type_line t ?v"
  have T: "type_text_ok ?T" "type_from_string ?T = t" using type_text [OF assms(1)] by simp_all
  note v = quote_ends [OF assms(2)]
  obtain x s where x: "?T = x # s" "65 \<le> (of_char x :: nat)" "(of_char x :: nat) \<le> 90" "\<not> is_space x"
    using T(1) by (cases ?T) (auto simp: type_text_ok_def)
  have "x \<noteq> CHR ''*''" using x(2) by auto
  have sep: "CHR ''='' \<notin> set ?T" "CHR ''#'' \<notin> set (?T @ '' = '')" "CHR 0x22 \<notin> set (?T @ '' = '')"
    using T(1) by (auto simp: type_text_ok_def list_all_iff)
  have trims: "trim ?line = ?line" using x v by (auto simp: type_line_def intro!: trim_id)
  have comments: "ignoreComments ?line = ?line"
    using quote_comments [OF assms(2) sep(3,2)] by (simp add: type_line_def)
  have kinds: "\<not> isComment ?line" "\<not> isLevel ?line"
    using sep(2) x \<open>x \<noteq> CHR ''*''\<close> by (auto simp: isComment_def isLevel_def startsWith_def type_line_def)
  have eq: "npos_find ''='' ?line 0 = Some (Suc (length ?T))"
    using find_first_present [of "CHR ''=''" "?T @ '' ''" "'' '' @ ?v"] sep(1)
    by (simp add: npos_find_def type_line_def)
  then have conf: "isConfig ?line" using x by (simp add: isConfig_def type_line_def)
  have parts: "take (Suc (length ?T)) ?line = ?T @ '' ''" "drop (Suc (length ?T) + 1) ?line = '' '' @ ?v"
    by (simp_all add: type_line_def)
  have name: "trim (toUpper (?T @ '' '')) = ?T"
    using T(1) trim_blank(2) [of ?T] by (simp add: type_text_ok_def toUpper_def upper_others [simplified])
  have val: "config_value (trim ('' '' @ ?v)) = v"
    unfolding trim_blank(1) [OF v(1-3)] by (rule quote_config_value [OF assms(2)])
  have "?line \<noteq> []" using x by (simp add: type_line_def)
  with assms(1,3) show ?thesis
    unfolding parseLine_def Let_def prod.case trims comments eq option.sel parts name val T(2)
    using kinds conf by (simp only: if_False if_True simp_thms prod.case)
qed

text \<open>
  A quote that is escaped within a value is not handled: after the backslash is removed, the search for the closing
  quote goes on too far to the right, and the value keeps its quotes.
\<close>

lemma escaped_quote_kept:
  "config_value ([CHR 0x22] @ ''a'' @ [CHR 0x5C, CHR 0x22] @ ''b'' @ [CHR 0x22]) = [CHR 0x22] @ ''a'' @ [CHR 0x22] @ ''b'' @ [CHR 0x22]"
  by (simp add: config_value_def npos_find_def unescape.simps)

lemma good_lines_line: "CHR 0x0A \<notin> set l \<Longrightarrow> good_lines (l @ CHR 0x0A # s) = l # good_lines s"
  by (induction l) auto

lemma level_line_plain: "CHR 0x0A \<notin> set (level_line l)"
  by (cases l) (simp_all add: level_line_def level_to_string_def)

lemma type_line_plain:
  "if q then quotable v else plain_value v \<Longrightarrow> CHR 0x0A \<notin> set (type_line t (quote q v))"
  using quote_ends(4) [of q v] by (cases t) (simp_all add: type_line_def type_to_string_def)

text \<open>Parsing a printed configuration sets what copying it sets.\<close>

lemma parse_render:
  assumes "\<forall>e \<in> set es. entry_ok e"
  shows "\<exists>l. parse_lines (good_lines (render es)) (r, l0, cs) =
    (True, l, fold (\<lambda>c. conf_set (m_level c) (m_configurationType c) (m_value c)) (map snd es) cs)"
  using assms
proof (induction es arbitrary: r l0 cs)
  case Nil
  show ?case by (simp add: render_def line_simps)
next
  case (Cons e es)
  obtain q b where e: "e = (q, b)" by (cases e)
  let ?line = "type_line (m_configurationType b) (quote q (m_value b))"
  from Cons.prems e have b: "m_level b \<noteq> Unknown_level" "m_configurationType b \<noteq> Unknown_type"
    "if q then quotable (m_value b) else plain_value (m_value b)"
    by (auto simp: entry_ok_def)
  have "render (e # es) = level_line (m_level b) @ CHR 0x0A # ?line @ CHR 0x0A # render es"
    by (simp add: render_def e)
  then have "good_lines (render (e # es)) = level_line (m_level b) # ?line # good_lines (render es)"
    using type_line_plain [OF b(3)] by (simp add: good_lines_line level_line_plain)
  then show ?case
    using Cons b e parse_level_line [OF b(1)] parse_type_line [OF b(2,3,1)] by simp
qed

lemma value_fold_set:
  assumes "l \<noteq> Unknown_level"
  shows "conf_value l t (fold (\<lambda>c. conf_set (m_level c) (m_configurationType c) (m_value c)) bs cs) =
    (case find (\<lambda>c. m_configurationType c = t \<and> (m_level c = l \<or> m_level c = Global)) (rev bs) of
       Some c \<Rightarrow> Some (m_value c) | None \<Rightarrow> conf_value l t cs)"
  using assms by (induction bs rule: rev_induct) (auto simp: value_conf_set)

lemma log_conf_parsed:
  "Configurations_new (Some log_conf) True None = \<lparr>conf_list = setRemainingToDefault
    (conf_set Global MaxLogFileSize ''209715200'' (conf_set Global PerformanceTracking ''false''
    (conf_set Global ToStandardOutput ''false'' (conf_set Global ToFile ''true'' (conf_set Global Enabled ''true''
    (conf_set Global Filename ''./log/client_%datetime{%Y%M%d%H}.log''
    (conf_set Global Format ''[%datetime | %level] | %msg'' []))))))), m_isFromFile = True\<rparr>"
proof -
  have "parse_lines (good_lines log_conf) (False, Unknown_level, []) = (True, Global, conf_set Global MaxLogFileSize ''209715200''
    (conf_set Global PerformanceTracking ''false'' (conf_set Global ToStandardOutput ''false''
    (conf_set Global ToFile ''true'' (conf_set Global Enabled ''true''
    (conf_set Global Filename ''./log/client_%datetime{%Y%M%d%H}.log''
    (conf_set Global Format ''[%datetime | %level] | %msg'' [])))))))"
    by (simp only: log_conf_lines parse_lines.simps log_conf_level log_conf_quoted log_conf_plain)
  then show ?thesis
    by (simp add: Configurations_new_def parseFromFile_def parser_parseFromFile_def setFromBase_def Let_def)
qed

section \<open>Properties\<close>

text \<open>
  C26. A configuration survives printing and parsing: the file with a level line and an assignment
  for each entry, its value in quotes or not, is accepted and sets what copying the entries sets, and at
  every level the last assignment to that level or to \<open>GLOBAL\<close> wins.  The values that can be written: none is
  empty or holds a quote or a newline; one without quotes has no blank at its ends and no comment sign,
  and one in quotes does not end in a backslash.
\<close>

theorem log_config_roundtrip:
  assumes "\<forall>e \<in> set es. entry_ok e"
  shows "parser_parseFromFile (render es) None cs = (True, setFromBase (Some (map snd es)) cs) \<and>
    (\<forall>l t. l \<noteq> Unknown_level \<longrightarrow> conf_value l t (setFromBase (Some (map snd es)) cs) =
      (case find (\<lambda>c. m_configurationType c = t \<and> (m_level c = l \<or> m_level c = Global)) (rev (map snd es)) of
         Some c \<Rightarrow> Some (m_value c) | None \<Rightarrow> conf_value l t cs))"
proof -
  obtain l where "parse_lines (good_lines (render es)) (False, Unknown_level, cs) =
      (True, l, fold (\<lambda>c. conf_set (m_level c) (m_configurationType c) (m_value c)) (map snd es) cs)"
    using parse_render [OF assms] by blast
  moreover have "conf_value l t (fold (\<lambda>c. conf_set (m_level c) (m_configurationType c) (m_value c)) (map snd es) cs) =
      (case find (\<lambda>c. m_configurationType c = t \<and> (m_level c = l \<or> m_level c = Global)) (rev (map snd es)) of
         Some c \<Rightarrow> Some (m_value c) | None \<Rightarrow> conf_value l t cs)" if "l \<noteq> Unknown_level" for l t
    by (rule value_fold_set [OF that])
  ultimately show ?thesis by (simp add: parser_parseFromFile_def setFromBase_def del: set_map)
qed

theorem log_config_roundtrip_witness:
  "parser_parseFromFile (''* INFO:'' @ [CHR 0x0A] @ ''ENABLED = false'' @ [CHR 0x0A] @
      ''* INFO:'' @ [CHR 0x0A] @ ''FILENAME = '' @ [CHR 0x22] @ ''a ## b'' @ [CHR 0x22, CHR 0x0A]) None [] =
     (True, [\<lparr>m_level = Info, m_configurationType = Enabled, m_value = ''false''\<rparr>,
       \<lparr>m_level = Info, m_configurationType = Filename, m_value = ''a ## b''\<rparr>])"
proof -
  let ?c = "\<lparr>m_level = Info, m_configurationType = Enabled, m_value = ''false''\<rparr>"
  let ?d = "\<lparr>m_level = Info, m_configurationType = Filename, m_value = ''a ## b''\<rparr>"
  have "\<forall>e \<in> set [(False, ?c), (True, ?d)]. entry_ok e"
    by (simp add: entry_ok_def plain_value_def quotable_def graphic [simplified])
  from log_config_roundtrip [OF this, of "[]"] show ?thesis
    by (simp add: render_def level_line_def level_to_string_def type_line_def type_to_string_def setFromBase_def quote_def
        conf_set_def unsafeSet.simps [of Info] register_or_set_def conf_get_def conf_predicate_def)
qed

text \<open>
  The file that comes with the client is accepted as a whole, and at every level the client
  logs to the file it names, in the format it gives, and not to the terminal.
\<close>

theorem client_log_configuration:
  "\<exists>cs. Configurations_new (Some log_conf) True None = \<lparr>conf_list = cs, m_isFromFile = True\<rparr> \<and>
   all_levels Format ''[%datetime | %level] | %msg'' cs \<and>
   all_levels Filename ''./log/client_%datetime{%Y%M%d%H}.log'' cs \<and> all_levels Enabled ''true'' cs \<and>
   all_levels ToFile ''true'' cs \<and> all_levels ToStandardOutput ''false'' cs \<and>
   all_levels SubsecondPrecision ''3'' cs \<and> all_levels MaxLogFileSize ''209715200'' cs"
proof -
  let ?cs = "conf_set Global MaxLogFileSize ''209715200'' (conf_set Global PerformanceTracking ''false''
    (conf_set Global ToStandardOutput ''false'' (conf_set Global ToFile ''true'' (conf_set Global Enabled ''true''
    (conf_set Global Filename ''./log/client_%datetime{%Y%M%d%H}.log''
    (conf_set Global Format ''[%datetime | %level] | %msg'' []))))))"
  have "Configurations_new (Some log_conf) True None = \<lparr>conf_list = setRemainingToDefault ?cs, m_isFromFile = True\<rparr>"
    by (rule log_conf_parsed)
  moreover have "all_levels SubsecondPrecision ''3'' (setRemainingToDefault ?cs)"
    by (rule defaults_overwrite_levels) (simp_all add: value_conf_set, simp add: conf_value_def conf_get_def)
  moreover have "all_levels Format ''[%datetime | %level] | %msg'' ?cs"
    "all_levels Filename ''./log/client_%datetime{%Y%M%d%H}.log'' ?cs" "all_levels Enabled ''true'' ?cs"
    "all_levels ToFile ''true'' ?cs" "all_levels ToStandardOutput ''false'' ?cs" "all_levels MaxLogFileSize ''209715200'' ?cs"
    by (simp_all add: all_levels_def value_conf_set)
  ultimately show ?thesis using defaults_keep_global by blast
qed

end
