(* ===== verification/Log_Typed.thy ===== *)
theory Log_Typed
  imports Log_Config
begin

text \<open>
  \<open>easylogging++.cc\<close>, what a logger makes of its configuration: the format of each level
  (\<open>LogFormat\<close>), the rendering of dates, and \<open>TypedConfigurations\<close>, the values by level.
  The time, the user, the host and the file system are arguments.
\<close>

section \<open>Replacing and erasing\<close>

definition erase :: "string \<Rightarrow> nat \<Rightarrow> nat \<Rightarrow> string" where
  "erase s i n = take i s @ drop (i + n) s"

text \<open>
  The loops \<open>while ((foundAt = s.find(w, foundAt + 1)) != npos)\<close>; \<open>i\<close> is \<open>foundAt + 1\<close>, which is 0 at the
  start because \<open>npos + 1\<close> wraps.  An escaped specifier loses its escape.
\<close>

definition escaped :: "string \<Rightarrow> nat \<Rightarrow> bool" where
  "escaped s k = (0 < k \<and> s ! (k - 1) = CHR ''%'')"

function replace_escaped :: "string \<Rightarrow> string \<Rightarrow> nat \<Rightarrow> string \<Rightarrow> string" where
  "replace_escaped what repl i s =
     (case npos_find what s i of
        None \<Rightarrow> s
      | Some k \<Rightarrow> if escaped s k then replace_escaped what repl (k + 2) (erase s (k - 1) 1)
                  else take k s @ repl @ drop (k + length what) s)"
  by auto
termination
  by (relation "measure (\<lambda>(what, repl, i, s). Suc (length s) - i)") (auto simp: erase_def dest!: npos_find_range)

declare replace_escaped.simps [simp del]

definition replaceFirstWithEscape :: "string \<Rightarrow> string \<Rightarrow> string \<Rightarrow> string" where
  "replaceFirstWithEscape str replaceWhat replaceWith = replace_escaped replaceWhat replaceWith 0 str"

text \<open>\<open>replaceAll\<close> of strings may find what it has inserted and go on for ever.\<close>

partial_function (option) replace_loop :: "string \<Rightarrow> string \<Rightarrow> nat \<Rightarrow> string \<Rightarrow> string option" where
  "replace_loop what repl i s =
     (case npos_find what s i of
        None \<Rightarrow> Some s
      | Some k \<Rightarrow> replace_loop what repl (k + 1) (take k s @ repl @ drop (k + length what) s))"

definition replaceAll_string :: "string \<Rightarrow> string \<Rightarrow> string \<Rightarrow> string result" where
  "replaceAll_string str replaceWhat replaceWith =
     (if replaceWhat = replaceWith then Inr str
      else case replace_loop replaceWhat replaceWith 0 str of None \<Rightarrow> Inl Diverges | Some s \<Rightarrow> Inr s)"

section \<open>Formats\<close>

datatype FormatFlags = F_DateTime | F_LoggerId | F_File | F_Line | F_Location | F_Function | F_User | F_Host |
  F_LogMessage | F_VerboseLevel | F_AppName | F_ThreadId | F_Level | F_FileBase | F_LevelShort

text \<open>\<open>m_flags\<close> as the set of its bits\<close>

record LogFormat =
  lf_level :: Level
  lf_userFormat :: string
  lf_format :: string
  lf_dateTimeFormat :: string
  lf_flags :: "FormatFlags set"

function conditionalAddFlag :: "string \<Rightarrow> FormatFlags \<Rightarrow> nat \<Rightarrow> string \<times> FormatFlags set \<Rightarrow> string \<times> FormatFlags set" where
  "conditionalAddFlag specifier flag i (s, flags) =
     (case npos_find specifier s i of
        None \<Rightarrow> (s, flags)
      | Some k \<Rightarrow>
          if escaped s k then
            if flag \<in> flags then conditionalAddFlag specifier flag (k + 2) (erase s (k - 1) 1, flags)
            else conditionalAddFlag specifier flag (k + 1) (s, flags)
          else conditionalAddFlag specifier flag (k + 1) (s, insert flag flags))"
  by auto
termination
  by (relation "measure (\<lambda>(specifier, flag, i, s, flags). Suc (length s) - i)")
    (auto simp: erase_def dest!: npos_find_range)

declare conditionalAddFlag.simps [simp del]

definition format_specifiers :: "(string \<times> FormatFlags) list" where
  "format_specifiers = [(''%app'', F_AppName), (''%level'', F_Level), (''%levshort'', F_LevelShort),
     (''%logger'', F_LoggerId), (''%thread'', F_ThreadId), (''%file'', F_File), (''%fbase'', F_FileBase),
     (''%line'', F_Line), (''%loc'', F_Location), (''%func'', F_Function), (''%user'', F_User), (''%host'', F_Host),
     (''%msg'', F_LogMessage), (''%vlevel'', F_VerboseLevel)]"

text \<open>The first date specifier that is not escaped\<close>

function find_date :: "string \<Rightarrow> nat \<Rightarrow> nat option" where
  "find_date s i =
     (case npos_find ''%datetime'' s i of
        None \<Rightarrow> None
      | Some k \<Rightarrow> if escaped s k then find_date s (k + 1) else Some k)"
  by auto
termination
  by (relation "measure (\<lambda>(s, i). Suc (length s) - i)") (auto dest!: npos_find_range)

declare find_date.simps [simp del]

text \<open>
  The text between braces at position \<open>index\<close> and what remains without it; an open brace that
  is not closed swallows the rest.
\<close>

definition braces :: "nat \<Rightarrow> string \<Rightarrow> (string \<times> string) option" where
  "braces index s =
     (if index < length s \<and> s ! index = CHR ''{'' then
        let rest = drop (index + 1) s;
            fmt = takeWhile (\<lambda>x. x \<noteq> CHR ''}'' \<and> x \<noteq> CHR 0x00) rest;
            closed = (length fmt < length rest \<and> rest ! length fmt = CHR ''}'');
            count = 1 + length fmt + (if closed then 1 else 0)
        in Some (fmt, erase s index count)
      else None)"

definition updateDateFormat :: "nat \<Rightarrow> string \<Rightarrow> string \<times> string" where
  "updateDateFormat index currFormat =
     (case braces (index + length ''%datetime'') currFormat of
        Some (fmt, s) \<Rightarrow> (fmt, s)
      | None \<Rightarrow> (''%Y-%M-%d %H:%m:%s,%g'', currFormat))"

text \<open>What replaces \<open>%level\<close> and \<open>%levshort\<close>\<close>

definition level_values :: "Level \<Rightarrow> (string \<times> string) option" where
  "level_values level =
     (case level of Debug \<Rightarrow> Some (''DEBUG'', ''D'') | Info \<Rightarrow> Some (''INFO'', ''I'')
      | Warning \<Rightarrow> Some (''WARNING'', ''W'') | Error \<Rightarrow> Some (''ERROR'', ''E'') | Fatal \<Rightarrow> Some (''FATAL'', ''F'')
      | Verbose \<Rightarrow> Some (''VERBOSE'', ''V'') | Trace \<Rightarrow> Some (''TRACE'', ''T'') | _ \<Rightarrow> None)"

definition updateFormatSpec :: "string \<Rightarrow> string \<Rightarrow> LogFormat \<Rightarrow> LogFormat" where
  "updateFormatSpec user host lf =
     (let f1 = (case level_values (lf_level lf) of
              None \<Rightarrow> lf_format lf
            | Some (l, s) \<Rightarrow> replaceFirstWithEscape (replaceFirstWithEscape (lf_format lf) ''%level'' l) ''%levshort'' s);
          f2 = (if F_User \<in> lf_flags lf then replaceFirstWithEscape f1 ''%user'' user else f1);
          f3 = (if F_Host \<in> lf_flags lf then replaceFirstWithEscape f2 ''%host'' host else f2)
      in lf\<lparr>lf_format := f3\<rparr>)"

definition parseFromFormat :: "string \<Rightarrow> string \<Rightarrow> string \<Rightarrow> LogFormat \<Rightarrow> LogFormat" where
  "parseFromFormat user host userFormat lf =
     (let (s, flags) = fold (\<lambda>(specifier, flag). conditionalAddFlag specifier flag 0) format_specifiers (userFormat, {})
      in case find_date s 0 of
           None \<Rightarrow> updateFormatSpec user host (lf\<lparr>lf_format := s, lf_flags := flags\<rparr>)
         | Some k \<Rightarrow>
             let (fmt, s') = updateDateFormat k s
             in updateFormatSpec user host
                  (lf\<lparr>lf_format := s', lf_dateTimeFormat := fmt, lf_flags := insert F_DateTime flags\<rparr>))"

definition LogFormat_new :: "string \<Rightarrow> string \<Rightarrow> Level \<Rightarrow> string \<Rightarrow> LogFormat" where
  "LogFormat_new user host level format =
     parseFromFormat user host format
       \<lparr>lf_level = level, lf_userFormat = format, lf_format = '''', lf_dateTimeFormat = '''', lf_flags = {}\<rparr>"

text \<open>\<open>operator=\<close> leaves \<open>m_format\<close> as it was.\<close>

definition logformat_assign :: "LogFormat \<Rightarrow> LogFormat \<Rightarrow> LogFormat" where
  "logformat_assign old new = new\<lparr>lf_format := lf_format old\<rparr>"

section \<open>Dates\<close>

text \<open>The fields of \<open>struct tm\<close> that are used\<close>

record tm =
  tm_sec :: nat
  tm_min :: nat
  tm_hour :: nat
  tm_mday :: nat
  tm_mon :: nat
  tm_year :: nat
  tm_wday :: nat

record SubsecondPrecision =
  m_width :: int
  m_offset :: nat

definition subsecond_init :: "int \<Rightarrow> SubsecondPrecision" where
  "subsecond_init width =
     (let w = (if width < 1 \<or> 6 < width then 3 else width)
      in \<lparr>m_width = w, m_offset = (if w = 4 then 100 else if w = 5 then 10 else if w = 6 then 1 else 1000)\<rparr>)"

text \<open>
  The buffer of \<open>timevalToString\<close> has 30 bytes.  \<open>convertAndAddToBuff\<close> writes the low digits, at
  most eight, right to left into a buffer of its own.
\<close>

definition kBuffSize :: nat where
  "kBuffSize = 30"

definition addToBuff :: "string \<Rightarrow> string \<Rightarrow> string" where
  "addToBuff str buf = take kBuffSize (buf @ str)"

definition localBuff :: "nat \<Rightarrow> nat \<Rightarrow> string" where
  "localBuff n len =
     (let digits = (if 0 < n then let d = dec_digits n in drop (length d - min len 8) d else ''0'');
          len' = len - length digits
      in replicate (min len' (8 - length digits)) CHR ''0'' @ digits)"

definition convertAndAddToBuff :: "nat \<Rightarrow> nat \<Rightarrow> string \<Rightarrow> string" where
  "convertAndAddToBuff n len buf = addToBuff (localBuff n len) buf"

definition kDays :: "string list" where
  "kDays = [''Sunday'', ''Monday'', ''Tuesday'', ''Wednesday'', ''Thursday'', ''Friday'', ''Saturday'']"

definition kDaysAbbrev :: "string list" where
  "kDaysAbbrev = [''Sun'', ''Mon'', ''Tue'', ''Wed'', ''Thu'', ''Fri'', ''Sat'']"

definition kMonths :: "string list" where
  "kMonths = [''January'', ''February'', ''March'', ''April'', ''May'', ''June'', ''July'', ''August'',
     ''September'', ''October'', ''November'', ''December'']"

definition kMonthsAbbrev :: "string list" where
  "kMonthsAbbrev = [''Jan'', ''Feb'', ''Mar'', ''Apr'', ''May'', ''Jun'', ''Jul'', ''Aug'', ''Sep'', ''Oct'', ''Nov'', ''Dec'']"

text \<open>The \<open>switch\<close> on the character after the percent sign; an unknown one adds nothing.\<close>

definition date_field :: "char \<Rightarrow> tm \<Rightarrow> nat \<Rightarrow> SubsecondPrecision \<Rightarrow> string \<Rightarrow> string result" where
  "date_field x t msec p buf =
     (if x = CHR ''d'' then Inr (convertAndAddToBuff (tm_mday t) 2 buf)
      else if x = CHR ''a'' then andThen (vec_at kDaysAbbrev (tm_wday t)) (\<lambda>s. Inr (addToBuff s buf))
      else if x = CHR ''A'' then andThen (vec_at kDays (tm_wday t)) (\<lambda>s. Inr (addToBuff s buf))
      else if x = CHR ''M'' then Inr (convertAndAddToBuff (tm_mon t + 1) 2 buf)
      else if x = CHR ''b'' then andThen (vec_at kMonthsAbbrev (tm_mon t)) (\<lambda>s. Inr (addToBuff s buf))
      else if x = CHR ''B'' then andThen (vec_at kMonths (tm_mon t)) (\<lambda>s. Inr (addToBuff s buf))
      else if x = CHR ''y'' then Inr (convertAndAddToBuff (tm_year t + 1900) 2 buf)
      else if x = CHR ''Y'' then Inr (convertAndAddToBuff (tm_year t + 1900) 4 buf)
      else if x = CHR ''h'' then Inr (convertAndAddToBuff (tm_hour t mod 12) 2 buf)
      else if x = CHR ''H'' then Inr (convertAndAddToBuff (tm_hour t) 2 buf)
      else if x = CHR ''m'' then Inr (convertAndAddToBuff (tm_min t) 2 buf)
      else if x = CHR ''s'' then Inr (convertAndAddToBuff (tm_sec t) 2 buf)
      else if x = CHR ''z'' \<or> x = CHR ''g'' then Inr (convertAndAddToBuff msec (nat (m_width p)) buf)
      else if x = CHR ''F'' then Inr (addToBuff (if 12 \<le> tm_hour t then ''PM'' else ''AM'') buf)
      else Inr buf)"

text \<open>\<open>%%\<close> is a percent sign, and so is a percent sign at the end.\<close>

fun parseFormat :: "string \<Rightarrow> tm \<Rightarrow> nat \<Rightarrow> SubsecondPrecision \<Rightarrow> string \<Rightarrow> string result" where
  "parseFormat [] t msec p buf = Inr buf"
| "parseFormat [x] t msec p buf = Inr (if length buf = kBuffSize then buf else buf @ [x])"
| "parseFormat (x # y # format) t msec p buf =
     (if x = CHR ''%'' then
        if y = CHR ''%'' then
          if length buf = kBuffSize then Inr buf else parseFormat format t msec p (buf @ [y])
        else andThen (date_field y t msec p buf) (parseFormat format t msec p)
      else if length buf = kBuffSize then Inr buf
      else parseFormat (y # format) t msec p (buf @ [x]))"

text \<open>A buffer that is full has no NUL: the string made of it is read past its end.\<close>

definition timevalToString :: "tm \<Rightarrow> nat \<Rightarrow> string \<Rightarrow> SubsecondPrecision \<Rightarrow> string result" where
  "timevalToString t usec format p =
     andThen (parseFormat format t (usec div m_offset p) p []) (\<lambda>buf.
       if length buf = kBuffSize then Inl Undefined else Inr buf)"

section \<open>File names\<close>

text \<open>
  The loop of \<open>resolveFilename\<close> over escaped specifiers does not test for \<open>npos\<close>: when no other
  specifier follows, it reads before the string.
\<close>

function find_date_unchecked :: "string \<Rightarrow> nat \<Rightarrow> nat result" where
  "find_date_unchecked s k =
     (if escaped s k then
        (case npos_find ''%datetime'' s (k + 1) of None \<Rightarrow> Inl Undefined | Some k' \<Rightarrow> find_date_unchecked s k')
      else Inr k)"
  by auto
termination
  by (relation "measure (\<lambda>(s, k). length s - k)") (auto dest!: npos_find_range)

declare find_date_unchecked.simps [simp del]

definition resolveFilename :: "tm \<Rightarrow> nat \<Rightarrow> string \<Rightarrow> string result" where
  "resolveFilename t usec filename =
     (case npos_find ''%datetime'' filename 0 of
        None \<Rightarrow> Inr filename
      | Some k \<Rightarrow>
          andThen (find_date_unchecked filename k) (\<lambda>dateIndex.
            let (fmt, s) = (case braces (dateIndex + length ''%datetime'') filename of
                              Some r \<Rightarrow> r | None \<Rightarrow> (''%Y-%M-%d_%H-%m'', filename))
            in andThen (timevalToString t usec fmt (subsecond_init 3)) (\<lambda>now.
               replaceAll_string s ''%datetime'' (replaceAll now CHR ''/'' CHR ''-''))))"

section \<open>Values by level\<close>

text \<open>An unordered map keyed by the level: \<open>insert\<close> keeps what is there.\<close>

type_synonym 'a level_map = "(Level \<times> 'a) list"

definition lm_insert :: "'k \<Rightarrow> 'a \<Rightarrow> ('k \<times> 'a) list \<Rightarrow> ('k \<times> 'a) list" where
  "lm_insert k v m = (if map_of m k = None then m @ [(k, v)] else m)"

text \<open>\<open>setValue\<close>; \<open>assign old new\<close> is what \<open>old = new\<close> leaves.\<close>

definition setValue :: "('a \<Rightarrow> 'a \<Rightarrow> 'a) \<Rightarrow> Level \<Rightarrow> 'a \<Rightarrow> bool \<Rightarrow> 'a level_map \<Rightarrow> 'a level_map" where
  "setValue assign level v includeGlobalLevel m =
     (if m = [] \<and> includeGlobalLevel then [(Global, v)]
      else if map_of m Global = Some v then m
      else if map_of m level = None then m @ [(level, v)]
      else map (\<lambda>(l, w). if l = level then (l, assign w v) else (l, w)) m)"

definition plain_assign :: "'a \<Rightarrow> 'a \<Rightarrow> 'a" where
  "plain_assign old new = new"

definition unsafeGetConfigByVal :: "'a \<Rightarrow> Level \<Rightarrow> 'a level_map \<Rightarrow> 'a" where
  "unsafeGetConfigByVal dflt level m =
     (case map_of m level of
        Some v \<Rightarrow> v
      | None \<Rightarrow> (case map_of m Global of Some v \<Rightarrow> v | None \<Rightarrow> dflt))"

text \<open>Without a value for \<open>Global\<close> the end iterator is dereferenced.\<close>

definition unsafeGetConfigByRef :: "Level \<Rightarrow> 'a level_map \<Rightarrow> 'a result" where
  "unsafeGetConfigByRef level m =
     (case map_of m level of Some v \<Rightarrow> Inr v | None \<Rightarrow> deref_opt (map_of m Global))"

section \<open>TypedConfigurations\<close>

text \<open>A stream is the name of the file it writes to; \<open>None\<close> is the null pointer.\<close>

record TypedConfigurations =
  m_enabledMap :: "bool level_map"
  m_toFileMap :: "bool level_map"
  m_filenameMap :: "string level_map"
  m_toStandardOutputMap :: "bool level_map"
  m_logFormatMap :: "LogFormat level_map"
  m_subsecondPrecisionMap :: "SubsecondPrecision level_map"
  m_performanceTrackingMap :: "bool level_map"
  m_fileStreamMap :: "string option level_map"
  m_maxLogFileSizeMap :: "int level_map"
  m_logFlushThresholdMap :: "int level_map"
  m_logStreamsReference :: "(string \<times> string option) list"

definition typed_empty :: "(string \<times> string option) list \<Rightarrow> TypedConfigurations" where
  "typed_empty streams = \<lparr>m_enabledMap = [], m_toFileMap = [], m_filenameMap = [], m_toStandardOutputMap = [],
     m_logFormatMap = [], m_subsecondPrecisionMap = [], m_performanceTrackingMap = [], m_fileStreamMap = [],
     m_maxLogFileSizeMap = [], m_logFlushThresholdMap = [], m_logStreamsReference = streams\<rparr>"

definition getBool :: "string \<Rightarrow> bool" where
  "getBool boolStr = (trim boolStr \<in> {''TRUE'', ''true'', ''1''})"

text \<open>A value that is no number counts as 0; \<open>atol\<close> is undefined beyond 63 bits.\<close>

definition getULong :: "string \<Rightarrow> int result" where
  "getULong confVal =
     (let s = trim confVal
      in if s = '''' \<or> (\<exists>x \<in> set s. \<not> is_digit x) then Inr 0
         else if 2 ^ 63 \<le> digits_value s then Inl Undefined else Inr (digits_value s))"

text \<open>\<open>static_cast<int>\<close> of an \<open>unsigned long\<close>\<close>

definition to_int :: "int \<Rightarrow> int" where
  "to_int v = sint (word_of_int v :: 32 word)"

text \<open>One turn of the first loop of \<open>build\<close>; the list holds the entries with a size limit.\<close>

definition build_entry :: "string \<Rightarrow> string \<Rightarrow> Configuration \<Rightarrow> TypedConfigurations \<times> Configuration list \<Rightarrow>
    (TypedConfigurations \<times> Configuration list) result" where
  "build_entry user host conf st =
     (let (tc, limits) = st; level = m_level conf; v = m_value conf
      in case m_configurationType conf of
           Enabled \<Rightarrow> Inr (tc\<lparr>m_enabledMap := setValue plain_assign level (getBool v) True (m_enabledMap tc)\<rparr>, limits)
         | ToFile \<Rightarrow> Inr (tc\<lparr>m_toFileMap := setValue plain_assign level (getBool v) True (m_toFileMap tc)\<rparr>, limits)
         | ToStandardOutput \<Rightarrow>
             Inr (tc\<lparr>m_toStandardOutputMap := setValue plain_assign level (getBool v) True (m_toStandardOutputMap tc)\<rparr>, limits)
         | Format \<Rightarrow>
             Inr (tc\<lparr>m_logFormatMap :=
               setValue logformat_assign level (LogFormat_new user host level v) True (m_logFormatMap tc)\<rparr>, limits)
         | SubsecondPrecision \<Rightarrow> andThen (getULong v) (\<lambda>n.
             Inr (tc\<lparr>m_subsecondPrecisionMap :=
               setValue plain_assign Global (subsecond_init (to_int n)) True (m_subsecondPrecisionMap tc)\<rparr>, limits))
         | PerformanceTracking \<Rightarrow>
             Inr (tc\<lparr>m_performanceTrackingMap :=
               setValue plain_assign Global (getBool v) True (m_performanceTrackingMap tc)\<rparr>, limits)
         | MaxLogFileSize \<Rightarrow> andThen (getULong v) (\<lambda>n.
             Inr (tc\<lparr>m_maxLogFileSizeMap := setValue plain_assign level n True (m_maxLogFileSizeMap tc)\<rparr>,
                  if n \<noteq> 0 then limits @ [conf] else limits))
         | LogFlushThreshold \<Rightarrow> andThen (getULong v) (\<lambda>n.
             Inr (tc\<lparr>m_logFlushThresholdMap := setValue plain_assign level n True (m_logFlushThresholdMap tc)\<rparr>, limits))
         | _ \<Rightarrow> Inr (tc, limits))"

text \<open>
  \<open>opens name\<close>: the file can be opened for appending, its directories having been made.  Opening creates a file
  that is absent; files are texts here (\<open>Log_Writer\<close>), and an absent one is not told from an empty one.
\<close>

definition newFileStream :: "(string \<Rightarrow> bool) \<Rightarrow> string \<Rightarrow> string option" where
  "newFileStream opens filename = (if opens filename then Some filename else None)"

definition create_stream :: "(string \<Rightarrow> bool) \<Rightarrow> string \<Rightarrow> Level \<Rightarrow> TypedConfigurations \<Rightarrow> TypedConfigurations" where
  "create_stream opens resolvedFilename level tc =
     (let fs = (case map_of (m_logStreamsReference tc) resolvedFilename of
                  None \<Rightarrow> newFileStream opens resolvedFilename | Some s \<Rightarrow> s);
          streams = lm_insert level fs (m_fileStreamMap tc);
          tc1 = tc\<lparr>m_filenameMap := lm_insert level resolvedFilename (m_filenameMap tc), m_fileStreamMap := streams,
                   m_logStreamsReference := lm_insert resolvedFilename (the (map_of streams level)) (m_logStreamsReference tc)\<rparr>
      in if fs = None then tc1\<lparr>m_toFileMap := setValue plain_assign level False True (m_toFileMap tc1)\<rparr> else tc1)"

definition insertFile :: "tm \<Rightarrow> nat \<Rightarrow> (string \<Rightarrow> bool) \<Rightarrow> Level \<Rightarrow> string \<Rightarrow> TypedConfigurations \<Rightarrow>
    TypedConfigurations result" where
  "insertFile t usec opens level fullFilename tc =
     andThen (resolveFilename t usec fullFilename) (\<lambda>resolvedFilename.
       Inr (create_stream opens resolvedFilename
              (if m_filenameMap tc = [] \<and> m_fileStreamMap tc = [] then Global else level) tc))"

text \<open>
  \<open>file_size\<close> is what \<open>getSizeOfFile\<close> returns for each stream: the value of \<open>tellg\<close> after its cast to \<open>size_t\<close>, so
  that the -1 of a stream that has failed is a size above every limit.  A file that has reached its limit is
  truncated; that it can be opened again for that is assumed.
\<close>

definition unsafeValidateFileRolling :: "Level \<Rightarrow> TypedConfigurations \<Rightarrow> (string \<Rightarrow> int) \<Rightarrow> (bool \<times> (string \<Rightarrow> int)) result" where
  "unsafeValidateFileRolling level tc file_size =
     andThen (unsafeGetConfigByRef level (m_fileStreamMap tc)) (\<lambda>fs.
       case fs of
         None \<Rightarrow> Inr (True, file_size)
       | Some stream \<Rightarrow>
           let maxLogFileSize = unsafeGetConfigByVal 0 level (m_maxLogFileSizeMap tc)
           in if maxLogFileSize \<noteq> 0 \<and> maxLogFileSize \<le> file_size stream
              then andThen (unsafeGetConfigByRef level (m_filenameMap tc)) (\<lambda>fname. Inr (True, file_size(fname := 0)))
              else Inr (False, file_size))"

fun fold_result :: "('a \<Rightarrow> 's \<Rightarrow> 's result) \<Rightarrow> 'a list \<Rightarrow> 's \<Rightarrow> 's result" where
  "fold_result f [] s = Inr s"
| "fold_result f (x # xs) s = andThen (f x s) (fold_result f xs)"

definition build :: "string \<Rightarrow> string \<Rightarrow> tm \<Rightarrow> nat \<Rightarrow> (string \<Rightarrow> bool) \<Rightarrow> (string \<Rightarrow> int) \<Rightarrow> configurations \<Rightarrow>
    TypedConfigurations \<Rightarrow> (TypedConfigurations \<times> (string \<Rightarrow> int)) result" where
  "build user host t usec opens file_size cs tc0 =
     andThen (fold_result (build_entry user host) cs (tc0, [])) (\<lambda>(tc1, limits).
     andThen (fold_result (\<lambda>conf. insertFile t usec opens (m_level conf) (m_value conf))
                (filter (\<lambda>conf. m_configurationType conf = Filename) cs) tc1) (\<lambda>tc2.
     andThen (fold_result (\<lambda>conf sizes. andThen (unsafeValidateFileRolling (m_level conf) tc2 sizes) (\<lambda>(_, sizes'). Inr sizes'))
                limits file_size) (\<lambda>sizes.
     Inr (tc2, sizes))))"

text \<open>A logger: its registry has the defaults of every level, then what it is configured with.\<close>

definition logger_registry :: "configurations \<Rightarrow> configurations" where
  "logger_registry cs = setFromBase (Some cs) (setFromBase (Some (setToDefault [])) [])"

text \<open>\<open>resolveLoggerFormatSpec\<close>: the name of the logger in the format of each level\<close>

definition resolveLoggerFormatSpec :: "string \<Rightarrow> TypedConfigurations \<Rightarrow> TypedConfigurations result" where
  "resolveLoggerFormatSpec ident tc =
     fold_result (\<lambda>i tc.
       let level = level_from_int i;
           owner = (if map_of (m_logFormatMap tc) level = None then Global else level)
       in andThen (unsafeGetConfigByRef level (m_logFormatMap tc)) (\<lambda>lf.
          Inr (tc\<lparr>m_logFormatMap := map (\<lambda>(l, w). if l = owner
                  then (l, w\<lparr>lf_format := replaceFirstWithEscape (lf_format w) ''%logger'' ident\<rparr>) else (l, w))
                (m_logFormatMap tc)\<rparr>)))
       forEachLevel tc"

end
