(* ===== verification/Log_Typed_Facts.thy ===== *)
theory Log_Typed_Facts
  imports Log_Typed
begin

text \<open>
  What the values of a logger are (model in theory \<open>Log_Typed\<close>): they agree, level by level, with the
  registry of the logger; and what the client's file makes of the logger.
\<close>

section \<open>The registry of a logger\<close>

text \<open>Setting appends entries that are missing, so the entry of \<open>Global\<close> stays the first of its type.\<close>

definition conf_keys :: "configurations \<Rightarrow> (Level \<times> ConfigurationType) list" where
  "conf_keys cs = map (\<lambda>c. (m_level c, m_configurationType c)) cs"

lemma conf_get_keys: "conf_get l t cs = None \<longleftrightarrow> (l, t) \<notin> set (conf_keys cs)"
  by (induction cs) (auto simp: conf_get_def conf_keys_def conf_predicate_def)

lemma keys_set_value: "conf_keys (set_value p v cs) = conf_keys cs"
  by (induction cs) (auto simp: conf_keys_def)

lemma keys_register:
  "conf_keys (register_or_set l t v cs) = (if (l, t) \<in> set (conf_keys cs) then conf_keys cs else conf_keys cs @ [(l, t)])"
  using conf_get_keys [of l t cs] keys_set_value by (auto simp: register_or_set_def conf_keys_def)

text \<open>What an operation on the type \<open>t\<close> that starts at level \<open>l\<close> does to the keys\<close>

definition extends :: "Level \<Rightarrow> ConfigurationType \<Rightarrow> configurations \<Rightarrow> configurations \<Rightarrow> bool" where
  "extends l t cs cs' \<longleftrightarrow> (\<exists>ks. conf_keys cs' = conf_keys cs @ ks \<and> snd ` set ks \<subseteq> {t} \<and>
     Unknown_level \<notin> fst ` set ks - {l} \<and> ((l, t) \<notin> set (conf_keys cs) \<longrightarrow> (\<exists>ks'. ks = (l, t) # ks'))) \<and>
     (distinct (conf_keys cs) \<longrightarrow> distinct (conf_keys cs'))"

lemma extends_register: "extends l t cs (register_or_set l t v cs)"
  by (auto simp: extends_def keys_register)

lemma extends_key: "extends l t cs cs' \<Longrightarrow> (l, t) \<in> set (conf_keys cs')"
  by (auto simp: extends_def)

lemma extends_types:
  assumes "extends l t cs cs'"
  shows "snd ` set (conf_keys cs') \<subseteq> insert t (snd ` set (conf_keys cs))"
proof -
  obtain ks where "conf_keys cs' = conf_keys cs @ ks" "snd ` set ks \<subseteq> {t}" using assms unfolding extends_def by blast
  then show ?thesis by (simp add: image_Un) blast
qed

lemma extends_new:
  assumes "extends l t cs cs'" "t \<notin> snd ` set (conf_keys cs)"
  obtains ks where "conf_keys cs' = conf_keys cs @ (l, t) # ks"
proof -
  have "(l, t) \<notin> set (conf_keys cs)" using assms(2) by force
  then show thesis using assms(1) that unfolding extends_def by blast
qed

lemma extends_trans:
  assumes "extends l t cs cs1" "extends k t cs1 cs2" "k \<noteq> Unknown_level \<or> k = l"
  shows "extends l t cs cs2"
proof -
  obtain ks where a: "conf_keys cs1 = conf_keys cs @ ks" "snd ` set ks \<subseteq> {t}" "Unknown_level \<notin> fst ` set ks - {l}"
    "(l, t) \<notin> set (conf_keys cs) \<longrightarrow> (\<exists>ks'. ks = (l, t) # ks')" "distinct (conf_keys cs) \<longrightarrow> distinct (conf_keys cs1)"
    using assms(1) unfolding extends_def by blast
  obtain ks2 where b: "conf_keys cs2 = conf_keys cs1 @ ks2" "snd ` set ks2 \<subseteq> {t}" "Unknown_level \<notin> fst ` set ks2 - {k}"
    "distinct (conf_keys cs1) \<longrightarrow> distinct (conf_keys cs2)"
    using assms(2) unfolding extends_def by blast
  have "conf_keys cs2 = conf_keys cs @ (ks @ ks2)" using a b by simp
  moreover have "snd ` set (ks @ ks2) \<subseteq> {t}" using a b by auto
  moreover have "Unknown_level \<notin> fst ` set (ks @ ks2) - {l}" using a b assms(3) by auto
  moreover have "(l, t) \<notin> set (conf_keys cs) \<longrightarrow> (\<exists>ks'. ks @ ks2 = (l, t) # ks')" using a by auto
  ultimately show ?thesis unfolding extends_def using a(5) b(4) by blast
qed

lemma extends_fold:
  assumes "extends l t cs cs1" "\<And>k cs. k \<in> set ks \<Longrightarrow> extends k t cs (f k cs)" "Unknown_level \<notin> set ks"
  shows "extends l t cs (fold f ks cs1)"
  using assms
proof (induction ks arbitrary: cs1)
  case (Cons k ks)
  have "extends k t cs1 (f k cs1)" "k \<noteq> Unknown_level" using Cons.prems by auto
  with Cons.prems(1) have "extends l t cs (f k cs1)" by (blast intro: extends_trans)
  with Cons show ?case by simp
qed simp

definition every_level :: "Level list" where
  "every_level = [Trace, Debug, Fatal, Error, Warning, Verbose, Info]"

lemma fold_every_level: "fold (\<lambda>i. f (level_from_int i)) forEachLevel = fold f every_level"
  by (simp add: forEachLevel_eval level_from_int_def every_level_def fun_eq_iff)

lemma every_level_known: "Unknown_level \<notin> set every_level" "Global \<notin> set every_level"
  by (simp_all add: every_level_def)

lemma extends_unsafeSet: "extends l t cs (unsafeSet l t v cs)"
proof -
  have one: "extends k t c (unsafeSet k t v c)" if "k \<noteq> Global" for k c
    using that extends_register by (simp add: unsafeSet.simps [of k])
  show ?thesis
  proof (cases "l = Global")
    case True
    have "extends Global t cs (fold (\<lambda>k. unsafeSet k t v) every_level (register_or_set Global t v cs))"
      by (rule extends_fold [OF extends_register]) (use one every_level_known in metis)+
    then show ?thesis unfolding True unsafeSet.simps [of Global]
      by (simp add: Let_def fold_every_level [of "\<lambda>k. unsafeSet k t v"])
  qed (rule one)
qed

lemma extends_conf_set: "extends l t cs (conf_set l t v cs)"
proof (cases "l = Global")
  case True
  have "extends Global t cs (fold (\<lambda>k. unsafeSet k t v) every_level (unsafeSet Global t v cs))"
    by (rule extends_fold) (use extends_unsafeSet every_level_known in auto)
  then show ?thesis unfolding True conf_set_def unsafeSetGlobally_def
    by (simp add: Let_def fold_every_level [of "\<lambda>k. unsafeSet k t v"])
qed (simp add: conf_set_def extends_unsafeSet)

lemma extends_setGlobally: "extends Global t cs (setGlobally t v True cs)"
proof -
  have "extends Global t cs (fold (\<lambda>k. conf_set k t v) every_level (conf_set Global t v cs))"
    by (rule extends_fold) (use extends_conf_set every_level_known in auto)
  then show ?thesis unfolding setGlobally_def by (simp add: fold_every_level [of "\<lambda>k. conf_set k t v"])
qed

text \<open>Distinct keys, all levels known, and the entry of \<open>Global\<close> first for each type in \<open>T\<close>\<close>

definition global_first :: "ConfigurationType \<Rightarrow> configurations \<Rightarrow> bool" where
  "global_first t cs \<longleftrightarrow> (\<exists>ps ks. conf_keys cs = ps @ (Global, t) # ks \<and> t \<notin> snd ` set ps)"

definition registry_ok :: "ConfigurationType set \<Rightarrow> configurations \<Rightarrow> bool" where
  "registry_ok T cs \<longleftrightarrow> distinct (conf_keys cs) \<and> Unknown_level \<notin> fst ` set (conf_keys cs) \<and> (\<forall>t \<in> T. global_first t cs)"

lemma registry_extends:
  assumes "registry_ok T cs" "extends l t cs cs'" "l \<noteq> Unknown_level"
  shows "registry_ok T cs'"
proof -
  obtain ks where k: "conf_keys cs' = conf_keys cs @ ks" "Unknown_level \<notin> fst ` set ks - {l}" "distinct (conf_keys cs')"
    using assms(1,2) unfolding extends_def registry_ok_def by blast
  have "global_first t cs'" if "t \<in> T" for t
  proof -
    have "global_first t cs" using that assms(1) by (simp add: registry_ok_def)
    then obtain ps qs where "conf_keys cs = ps @ (Global, t) # qs" "t \<notin> snd ` set ps" unfolding global_first_def by blast
    then show ?thesis unfolding global_first_def k(1) by (intro exI [of _ ps] exI [of _ "qs @ ks"]) simp
  qed
  with k assms(1,3) show ?thesis by (auto simp: registry_ok_def)
qed

lemma registry_new_type:
  assumes "registry_ok T cs" "snd ` set (conf_keys cs) \<subseteq> T" "t \<notin> T"
  shows "registry_ok (insert t T) (setGlobally t v True cs) \<and>
    snd ` set (conf_keys (setGlobally t v True cs)) \<subseteq> insert t T"
proof -
  let ?cs = "setGlobally t v True cs"
  have e: "extends Global t cs ?cs" by (rule extends_setGlobally)
  have ok: "registry_ok T ?cs" by (rule registry_extends [OF assms(1) e]) simp
  have t: "t \<notin> snd ` set (conf_keys cs)" using assms(2,3) by blast
  obtain ks where "conf_keys ?cs = conf_keys cs @ (Global, t) # ks" using extends_new [OF e t] .
  with t have "global_first t ?cs" unfolding global_first_def by blast
  with ok extends_types [OF e] assms(2) show ?thesis by (auto simp: registry_ok_def)
qed

definition all_types :: "ConfigurationType set" where
  "all_types = {Enabled, Filename, ToFile, ToStandardOutput, SubsecondPrecision, PerformanceTracking, MaxLogFileSize,
     LogFlushThreshold, Format}"

lemma registry_fold_set:
  "registry_ok T cs \<Longrightarrow> \<forall>c \<in> set bs. m_level c \<noteq> Unknown_level \<Longrightarrow>
     registry_ok T (fold (\<lambda>c. conf_set (m_level c) (m_configurationType c) (m_value c)) bs cs)"
proof (induction bs arbitrary: cs)
  case (Cons b bs)
  have "registry_ok T (conf_set (m_level b) (m_configurationType b) (m_value b) cs)"
    by (rule registry_extends [OF Cons.prems(1) extends_conf_set]) (use Cons.prems(2) in simp)
  with Cons show ?case by simp
qed simp

lemma fold_set_types:
  "snd ` set (conf_keys (fold (\<lambda>c. conf_set (m_level c) (m_configurationType c) (m_value c)) bs cs)) \<subseteq>
     snd ` set (conf_keys cs) \<union> snd ` set (conf_keys bs)"
proof (induction bs arbitrary: cs)
  case (Cons b bs)
  let ?cs = "conf_set (m_level b) (m_configurationType b) (m_value b) cs"
  have "snd ` set (conf_keys (fold (\<lambda>c. conf_set (m_level c) (m_configurationType c) (m_value c)) (b # bs) cs)) \<subseteq>
      snd ` set (conf_keys ?cs) \<union> snd ` set (conf_keys bs)" using Cons.IH [of ?cs] by simp
  also have "\<dots> \<subseteq> insert (m_configurationType b) (snd ` set (conf_keys cs)) \<union> snd ` set (conf_keys bs)"
    by (rule Un_mono [OF extends_types [OF extends_conf_set] order_refl])
  also have "\<dots> = snd ` set (conf_keys cs) \<union> snd ` set (conf_keys (b # bs))" by (simp add: conf_keys_def)
  finally show ?case .
qed simp

text \<open>Copying a registry keeps the entry of \<open>Global\<close> first.\<close>

lemma copy_global_first:
  assumes "global_first t bs" "t \<notin> snd ` set (conf_keys cs)" "registry_ok {} cs" "\<forall>c \<in> set bs. m_level c \<noteq> Unknown_level"
  shows "global_first t (fold (\<lambda>c. conf_set (m_level c) (m_configurationType c) (m_value c)) bs cs)"
proof -
  let ?f = "fold (\<lambda>c. conf_set (m_level c) (m_configurationType c) (m_value c))"
  obtain ps ks where "conf_keys bs = ps @ (Global, t) # ks" "t \<notin> snd ` set ps"
    using assms(1) unfolding global_first_def by blast
  then obtain b1 b b2 where b: "bs = b1 @ b # b2" "conf_keys b1 = ps" "m_level b = Global" "m_configurationType b = t"
    unfolding conf_keys_def by (auto simp: map_eq_append_conv map_eq_Cons_conv)
  let ?cs1 = "?f b1 cs"
  have t1: "t \<notin> snd ` set (conf_keys ?cs1)"
    using fold_set_types [of b1 cs] assms(2) b(2) \<open>t \<notin> snd ` set ps\<close> by blast
  have ok1: "registry_ok {} ?cs1" using assms(3,4) b(1) by (intro registry_fold_set) simp_all
  let ?cs2 = "conf_set Global t (m_value b) ?cs1"
  have e: "extends Global t ?cs1 ?cs2" by (rule extends_conf_set)
  obtain qs where "conf_keys ?cs2 = conf_keys ?cs1 @ (Global, t) # qs" using extends_new [OF e t1] .
  with t1 have "global_first t ?cs2" unfolding global_first_def by blast
  moreover have "registry_ok {} ?cs2" by (rule registry_extends [OF ok1 e]) simp
  ultimately have "registry_ok {t} ?cs2" by (simp add: registry_ok_def)
  then have "registry_ok {t} (?f b2 ?cs2)" using assms(4) b(1) by (intro registry_fold_set) simp_all
  then show ?thesis using b by (simp add: registry_ok_def)
qed

lemma default_registry: "registry_ok all_types (setToDefault [])"
proof -
  let ?g = "\<lambda>t v cs. setGlobally t v True cs" and ?ok = "\<lambda>T cs. registry_ok T cs \<and> snd ` set (conf_keys cs) \<subseteq> T"
  have s: "?ok (insert t T) (?g t v cs)" if "?ok T cs" "t \<notin> T" for t v T cs
    using registry_new_type [of T cs t v] that by blast
  have "?ok {} []" by (simp add: registry_ok_def conf_keys_def)
  then have "?ok {Format, LogFlushThreshold, MaxLogFileSize, PerformanceTracking, SubsecondPrecision, ToStandardOutput,
      ToFile, Filename, Enabled}
    (?g Format ''%datetime %level [%logger] %msg'' (?g LogFlushThreshold ''0'' (?g MaxLogFileSize ''0''
      (?g PerformanceTracking ''true'' (?g SubsecondPrecision ''3'' (?g ToStandardOutput ''true'' (?g ToFile ''true''
      (?g Filename ''myeasylog.log'' (?g Enabled ''true'' [])))))))))"
    by (intro s) simp_all
  moreover have "{Format, LogFlushThreshold, MaxLogFileSize, PerformanceTracking, SubsecondPrecision, ToStandardOutput,
      ToFile, Filename, Enabled} = all_types" unfolding all_types_def by blast
  ultimately show ?thesis unfolding setToDefault_def
    by (simp add: registry_extends [OF _ extends_conf_set])
qed

lemma keys_known: "registry_ok T cs \<Longrightarrow> \<forall>c \<in> set cs. m_level c \<noteq> Unknown_level"
  by (force simp: registry_ok_def conf_keys_def)

lemma logger_registry_ok:
  assumes "\<forall>c \<in> set cs. m_level c \<noteq> Unknown_level"
  shows "registry_ok all_types (logger_registry cs)"
proof -
  have d: "\<forall>c \<in> set (setToDefault []). m_level c \<noteq> Unknown_level" by (rule keys_known [OF default_registry])
  have e: "registry_ok {} []" by (simp add: registry_ok_def conf_keys_def)
  have "registry_ok all_types (setFromBase (Some (setToDefault [])) [])"
    using registry_fold_set [OF e d] copy_global_first [OF _ _ e d] default_registry
    by (auto simp: registry_ok_def setFromBase_def conf_keys_def)
  from registry_fold_set [OF this assms] show ?thesis by (simp add: logger_registry_def setFromBase_def)
qed

section \<open>Values by level agree with the registry\<close>

definition entries :: "ConfigurationType \<Rightarrow> configurations \<Rightarrow> (Level \<times> string) list" where
  "entries t cs = map (\<lambda>c. (m_level c, m_value c)) (filter (\<lambda>c. m_configurationType c = t) cs)"

lemma map_of_entries: "map_of (entries t cs) l = conf_value l t cs"
  by (induction cs) (auto simp: entries_def conf_value_def conf_get_Cons conf_get_def conf_predicate_def)

lemma entries_distinct: "distinct (conf_keys cs) \<Longrightarrow> distinct (map fst (entries t cs))"
  by (induction cs) (auto simp: entries_def conf_keys_def)

lemma entries_head:
  assumes "global_first t cs"
  obtains g ys where "entries t cs = (Global, g) # ys"
proof -
  obtain ps ks where "conf_keys cs = ps @ (Global, t) # ks" "t \<notin> snd ` set ps"
    using assms unfolding global_first_def by blast
  then obtain b1 b b2 where b: "cs = b1 @ b # b2" "conf_keys b1 = ps" "m_level b = Global" "m_configurationType b = t"
    unfolding conf_keys_def by (auto simp: map_eq_append_conv map_eq_Cons_conv)
  then have "filter (\<lambda>c. m_configurationType c = t) b1 = []"
    if "\<And>c. c \<in> set b1 \<Longrightarrow> m_configurationType c \<noteq> t" using that by (simp add: filter_empty_conv)
  moreover have "m_configurationType c \<noteq> t" if "c \<in> set b1" for c
  proof -
    have "(m_level c, m_configurationType c) \<in> set ps" using b(2) that by (auto simp: conf_keys_def)
    with \<open>t \<notin> snd ` set ps\<close> show ?thesis by force
  qed
  ultimately show thesis using b that by (simp add: entries_def)
qed

text \<open>
  Values equal to the one of \<open>Global\<close> are left out, which a look-up does not notice.
\<close>

definition set_all :: "('a \<Rightarrow> 'a \<Rightarrow> 'a) \<Rightarrow> (Level \<Rightarrow> string \<Rightarrow> 'a) \<Rightarrow> (Level \<times> string) list \<Rightarrow> 'a level_map \<Rightarrow> 'a level_map" where
  "set_all assign h xs m = fold (\<lambda>(l, s). setValue assign l (h l s) True) xs m"

lemma set_all_lookup:
  assumes "distinct (map fst ((Global, g) # ys))"
  shows "map_of (set_all assign h ((Global, g) # ys) []) Global = Some (h Global g) \<and>
    fst ` set (set_all assign h ((Global, g) # ys) []) \<subseteq> insert Global (fst ` set ys) \<and>
    (\<forall>l. unsafeGetConfigByRef l (set_all assign h ((Global, g) # ys) []) =
      Inr (case map_of ((Global, g) # ys) l of Some s \<Rightarrow> h l s | None \<Rightarrow> h Global g))"
  using assms
proof (induction ys rule: rev_induct)
  case Nil
  show ?case by (simp add: set_all_def setValue_def unsafeGetConfigByRef_def)
next
  case (snoc y ys)
  obtain k s where y: "y = (k, s)" by (cases y)
  let ?m = "set_all assign h ((Global, g) # ys) []"
  have d: "k \<noteq> Global" "k \<notin> fst ` set ys" "distinct (map fst ((Global, g) # ys))" using snoc.prems y by auto
  note IH = snoc.IH [OF d(3)]
  have g: "map_of ?m Global = Some (h Global g)" using IH by blast
  then have ne: "?m \<noteq> []" by auto
  have k: "map_of ?m k = None" using IH d(1,2) by (auto simp: map_of_eq_None_iff)
  have step: "set_all assign h ((Global, g) # ys @ [y]) [] =
      (if h k s = h Global g then ?m else ?m @ [(k, h k s)])"
    using g ne k y by (auto simp: set_all_def setValue_def)
  have look: "unsafeGetConfigByRef l ?m = Inr (case map_of ((Global, g) # ys) l of Some s \<Rightarrow> h l s | None \<Rightarrow> h Global g)" for l
    using IH by blast
  have kn: "map_of ys k = None" "map_of ((Global, g) # ys) k = None" using d(1,2) by (simp_all add: map_of_eq_None_iff)
  have ys: "map_of ((Global, g) # ys @ [y]) l = (if l = k then Some s else map_of ((Global, g) # ys) l)" for l
    using kn d(1) y by (auto simp: map_add_def split: option.splits)
  show ?case
  proof (cases "h k s = h Global g")
    case True
    with step IH ys kn look [of k] show ?thesis by (auto simp: y)
  next
    case False
    have "unsafeGetConfigByRef l (?m @ [(k, h k s)]) = (if l = k then Inr (h k s) else unsafeGetConfigByRef l ?m)" for l
      using k g d(1) by (auto simp: unsafeGetConfigByRef_def map_add_def split: option.splits)
    with step False IH ys g look y d(1) show ?thesis by (auto simp: map_add_def)
  qed
qed

lemma registry_lookup:
  assumes "registry_ok T cs" "t \<in> T"
  shows "unsafeGetConfigByRef l (set_all assign h (entries t cs) []) =
    Inr (case conf_value l t cs of Some s \<Rightarrow> h l s | None \<Rightarrow> h Global (the (conf_value Global t cs)))"
proof -
  obtain g ys where e: "entries t cs = (Global, g) # ys"
    using entries_head [of t cs] assms by (auto simp: registry_ok_def)
  have d: "distinct (map fst ((Global, g) # ys))" using entries_distinct [of cs t] assms(1) e by (simp add: registry_ok_def)
  have g: "conf_value Global t cs = Some g" using map_of_entries [of t cs Global] e by simp
  have m: "map_of ((Global, g) # ys) l = conf_value l t cs" using map_of_entries [of t cs l] e by simp
  have "unsafeGetConfigByRef l (set_all assign h ((Global, g) # ys) []) =
      Inr (case map_of ((Global, g) # ys) l of Some s \<Rightarrow> h l s | None \<Rightarrow> h Global g)"
    using set_all_lookup [OF d] by blast
  then show ?thesis unfolding e m g by (simp only: option.sel)
qed

lemma lookup_by_val: "unsafeGetConfigByRef l m = Inr v \<Longrightarrow> unsafeGetConfigByVal d l m = v"
  by (auto simp: unsafeGetConfigByRef_def unsafeGetConfigByVal_def deref_opt_Inr_iff split: option.splits)

definition ulong_of :: "string \<Rightarrow> int" where
  "ulong_of s = (case getULong s of Inr n \<Rightarrow> n | Inl _ \<Rightarrow> 0)"

lemma build_entries:
  assumes "fold_result (build_entry user host) cs (tc, limits) = Inr (tc', limits')"
  shows "m_enabledMap tc' = set_all plain_assign (\<lambda>_. getBool) (entries Enabled cs) (m_enabledMap tc) \<and>
    m_toFileMap tc' = set_all plain_assign (\<lambda>_. getBool) (entries ToFile cs) (m_toFileMap tc) \<and>
    m_toStandardOutputMap tc' = set_all plain_assign (\<lambda>_. getBool) (entries ToStandardOutput cs) (m_toStandardOutputMap tc) \<and>
    m_logFormatMap tc' = set_all logformat_assign (LogFormat_new user host) (entries Format cs) (m_logFormatMap tc) \<and>
    m_maxLogFileSizeMap tc' = set_all plain_assign (\<lambda>_. ulong_of) (entries MaxLogFileSize cs) (m_maxLogFileSizeMap tc) \<and>
    m_logFlushThresholdMap tc' = set_all plain_assign (\<lambda>_. ulong_of) (entries LogFlushThreshold cs) (m_logFlushThresholdMap tc) \<and>
    m_filenameMap tc' = m_filenameMap tc \<and> m_fileStreamMap tc' = m_fileStreamMap tc \<and>
    m_logStreamsReference tc' = m_logStreamsReference tc"
  using assms
proof (induction cs arbitrary: tc limits)
  case Nil
  then show ?case by (simp add: entries_def set_all_def)
next
  case (Cons b cs)
  obtain tc1 l1 where s: "build_entry user host b (tc, limits) = Inr (tc1, l1)"
    "fold_result (build_entry user host) cs (tc1, l1) = Inr (tc', limits')"
    using Cons.prems by (auto simp: andThen_eq_Inr_iff)
  note IH = Cons.IH [OF s(2)]
  show ?case
  proof (cases "m_configurationType b")
    case MaxLogFileSize
    then obtain n where "getULong (m_value b) = Inr n" using s(1) by (auto simp: build_entry_def Let_def andThen_eq_Inr_iff)
    with MaxLogFileSize s(1) IH show ?thesis by (auto simp: build_entry_def Let_def entries_def set_all_def ulong_of_def)
  next
    case LogFlushThreshold
    then obtain n where "getULong (m_value b) = Inr n" using s(1) by (auto simp: build_entry_def Let_def andThen_eq_Inr_iff)
    with LogFlushThreshold s(1) IH show ?thesis by (auto simp: build_entry_def Let_def entries_def set_all_def ulong_of_def)
  next
    case SubsecondPrecision
    with s(1) IH show ?thesis by (auto simp: build_entry_def Let_def entries_def set_all_def andThen_eq_Inr_iff)
  qed (use s(1) IH in \<open>auto simp: build_entry_def Let_def entries_def set_all_def\<close>)
qed

lemma insert_files_keep:
  assumes "fold_result (\<lambda>conf. insertFile t usec opens (m_level conf) (m_value conf)) bs tc = Inr tc'"
  shows "m_enabledMap tc' = m_enabledMap tc \<and> m_toStandardOutputMap tc' = m_toStandardOutputMap tc \<and>
    m_logFormatMap tc' = m_logFormatMap tc \<and> m_maxLogFileSizeMap tc' = m_maxLogFileSizeMap tc \<and>
    m_logFlushThresholdMap tc' = m_logFlushThresholdMap tc"
  using assms
  by (induction bs arbitrary: tc) (fastforce simp: andThen_eq_Inr_iff insertFile_def create_stream_def Let_def)+

lemma value_setGlobally:
  assumes "l \<noteq> Unknown_level"
  shows "conf_value l t (setGlobally t' v True cs) = (if t = t' then Some v else conf_value l t cs)"
  using assms by (cases l) (simp_all add: setGlobally_def fold_every_level [of "\<lambda>k. conf_set k t' v"] every_level_def value_conf_set)

lemma default_value: "l \<noteq> Unknown_level \<Longrightarrow> t \<in> all_types \<Longrightarrow> conf_value l t (setToDefault []) \<noteq> None"
  by (auto simp: setToDefault_def value_conf_set value_setGlobally all_types_def)

lemma value_copied:
  assumes "l \<noteq> Unknown_level" "conf_value l t bs \<noteq> None \<or> conf_value l t cs \<noteq> None"
  shows "conf_value l t (setFromBase (Some bs) cs) \<noteq> None"
proof -
  have "find (\<lambda>c. m_configurationType c = t \<and> (m_level c = l \<or> m_level c = Global)) (rev bs) \<noteq> None"
    if known: "conf_value l t bs \<noteq> None"
  proof -
    obtain c where "c \<in> set bs" "m_configurationType c = t" "m_level c = l"
      using known unfolding conf_value_None conf_get_keys by (auto simp: conf_keys_def)
    then show ?thesis by (auto simp: find_None_iff)
  qed
  with assms show ?thesis by (auto simp: setFromBase_def value_fold_set split: option.splits)
qed

lemma logger_value:
  "l \<noteq> Unknown_level \<Longrightarrow> t \<in> all_types \<Longrightarrow> \<exists>s. conf_value l t (logger_registry cs) = Some s"
  using value_copied [of l t] default_value [of l t] by (simp add: logger_registry_def)

lemma logger_lookup:
  assumes "\<forall>c \<in> set cs. m_level c \<noteq> Unknown_level" "t \<in> all_types" "l \<noteq> Unknown_level"
  shows "unsafeGetConfigByRef l (set_all assign h (entries t (logger_registry cs)) []) =
    Inr (h l (the (conf_value l t (logger_registry cs))))"
proof -
  obtain s where "conf_value l t (logger_registry cs) = Some s" using logger_value [OF assms(3,2)] by blast
  with registry_lookup [OF logger_registry_ok [OF assms(1)] assms(2), of l assign h] show ?thesis by simp
qed

lemma build_maps:
  assumes "build user host t usec opens file_size cs (typed_empty streams) = Inr (tc, sizes)"
  shows "m_enabledMap tc = set_all plain_assign (\<lambda>_. getBool) (entries Enabled cs) [] \<and>
    m_toStandardOutputMap tc = set_all plain_assign (\<lambda>_. getBool) (entries ToStandardOutput cs) [] \<and>
    m_logFormatMap tc = set_all logformat_assign (LogFormat_new user host) (entries Format cs) [] \<and>
    m_maxLogFileSizeMap tc = set_all plain_assign (\<lambda>_. ulong_of) (entries MaxLogFileSize cs) [] \<and>
    m_logFlushThresholdMap tc = set_all plain_assign (\<lambda>_. ulong_of) (entries LogFlushThreshold cs) []"
proof -
  obtain tc1 limits where 1: "fold_result (build_entry user host) cs (typed_empty streams, []) = Inr (tc1, limits)"
    and 2: "fold_result (\<lambda>conf. insertFile t usec opens (m_level conf) (m_value conf))
      (filter (\<lambda>conf. m_configurationType conf = Filename) cs) tc1 = Inr tc"
    using assms by (auto simp: build_def andThen_eq_Inr_iff)
  show ?thesis using build_entries [OF 1] insert_files_keep [OF 2] by (simp add: typed_empty_def)
qed

section \<open>What the client's file yields\<close>

lemma length_localBuff:
  assumes "0 < len" "len \<le> 8"
  shows "length (localBuff n len) = len"
  using assms by (cases "0 < n") (auto simp: localBuff_def Let_def)

lemma localBuff_digits: "x \<in> set (localBuff n len) \<Longrightarrow> is_digit x"
proof -
  assume x: "x \<in> set (localBuff n len)"
  have "is_digit CHR ''0''" by (simp add: is_digit_def)
  with x show ?thesis
    by (auto simp: localBuff_def Let_def split: if_splits dest!: in_set_dropD dec_digits_is_digit)
qed

lemma digits_plain: "CHR ''%'' \<notin> set (localBuff n len)" "CHR ''/'' \<notin> set (localBuff n len)"
  using localBuff_digits [of "CHR ''%''" n len] localBuff_digits [of "CHR ''/''" n len] by (auto simp: is_digit_def)

text \<open>Replacing terminates when the replacement does not hold the first character of what is replaced.\<close>

lemma replace_loop_absent: "npos_find what s i = None \<Longrightarrow> replace_loop what repl i s = Some s"
  by (subst replace_loop.simps) simp

lemma find_first_absent': "x \<notin> set s \<Longrightarrow> find_first (x # w) s = None"
  by (induction s) auto

lemma npos_find_absent: "x \<notin> set (drop i s) \<Longrightarrow> npos_find (x # w) s i = None"
  by (simp add: npos_find_def find_first_absent')

lemma replace_once:
  assumes "npos_find (x # w) s 0 = Some k" "x \<notin> set (drop (Suc k) (take k s @ repl @ drop (k + length (x # w)) s))"
    "x # w \<noteq> repl"
  shows "replaceAll_string s (x # w) repl = Inr (take k s @ repl @ drop (k + length (x # w)) s)"
proof -
  have "replace_loop (x # w) repl 0 s = replace_loop (x # w) repl (k + 1) (take k s @ repl @ drop (k + length (x # w)) s)"
    using assms(1) by (subst replace_loop.simps) simp
  also have "\<dots> = Some (take k s @ repl @ drop (k + length (x # w)) s)"
    using assms(2) by (intro replace_loop_absent npos_find_absent) simp
  finally show ?thesis using assms(3) by (simp add: replaceAll_string_def)
qed

lemma replaceAll_absent: "x \<notin> set s \<Longrightarrow> replaceAll s x y = s"
  by (induction s) (auto simp: replaceAll_def)

definition log_date :: "tm \<Rightarrow> string" where
  "log_date t = localBuff (tm_year t + 1900) 4 @ localBuff (tm_mon t + 1) 2 @ localBuff (tm_mday t) 2 @ localBuff (tm_hour t) 2"

lemma log_date_length: "length (log_date t) = 10"
  by (simp add: log_date_def length_localBuff)

lemma log_date_string: "timevalToString t usec ''%Y%M%d%H'' p = Inr (log_date t)"
proof -
  have "parseFormat ''%Y%M%d%H'' t (usec div m_offset p) p [] = Inr (log_date t)"
    by (simp add: date_field_def convertAndAddToBuff_def addToBuff_def kBuffSize_def length_localBuff log_date_def)
  then show ?thesis by (simp add: timevalToString_def log_date_length kBuffSize_def)
qed

lemma log_date_plain: "CHR ''%'' \<notin> set (log_date t)" "CHR ''/'' \<notin> set (log_date t)"
  using digits_plain by (auto simp: log_date_def)

lemma log_file_name:
  "resolveFilename t usec ''./log/client_%datetime{%Y%M%d%H}.log'' = Inr (''./log/client_'' @ log_date t @ ''.log'')"
proof -
  let ?s = "''./log/client_%datetime{%Y%M%d%H}.log''"
  have 1: "npos_find ''%datetime'' ?s 0 = Some 13" by (simp add: npos_find_def)
  have 2: "find_date_unchecked ?s 13 = Inr 13" by (simp add: find_date_unchecked.simps escaped_def)
  have 3: "braces 22 ?s = Some (''%Y%M%d%H'', ''./log/client_%datetime.log'')"
    by (simp add: braces_def Let_def erase_def)
  have r: "replaceAll (log_date t) CHR ''/'' CHR ''-'' = log_date t"
    using log_date_plain(2) by (rule replaceAll_absent)
  have 4: "npos_find ''%datetime'' ''./log/client_%datetime.log'' 0 = Some 13" by (simp add: npos_find_def)
  have ne: "''%datetime'' \<noteq> log_date t" using log_date_plain(1) [of t] by (metis list.set_intros(1))
  have d: "CHR ''%'' \<notin> set (drop (Suc 0) (log_date t))" using log_date_plain(1) by (auto dest: in_set_dropD)
  have "replaceAll_string ''./log/client_%datetime.log'' ''%datetime'' (log_date t) = Inr (''./log/client_'' @ log_date t @ ''.log'')"
    using replace_once [OF 4, of "log_date t"] ne d by (simp add: log_date_length)
  with 1 2 3 r show ?thesis by (simp add: resolveFilename_def log_date_string)
qed

lemma log_format:
  assumes "l \<noteq> Global" "l \<noteq> Unknown_level"
  shows "\<exists>v s. level_values l = Some (v, s) \<and> LogFormat_new user host l ''[%datetime | %level] | %msg'' =
    \<lparr>lf_level = l, lf_userFormat = ''[%datetime | %level] | %msg'', lf_format = ''[%datetime | '' @ v @ ''] | %msg'',
     lf_dateTimeFormat = ''%Y-%M-%d %H:%m:%s,%g'', lf_flags = {F_Level, F_LogMessage, F_DateTime}\<rparr>"
proof -
  let ?s = "''[%datetime | %level] | %msg''"
  have 1: "fold (\<lambda>(specifier, flag). conditionalAddFlag specifier flag 0) format_specifiers (?s, {}) = (?s, {F_LogMessage, F_Level})"
    by (simp add: format_specifiers_def conditionalAddFlag.simps npos_find_def escaped_def)
  have 2: "find_date ?s 0 = Some 1" by (simp add: find_date.simps npos_find_def escaped_def)
  have 3: "updateDateFormat 1 ?s = (''%Y-%M-%d %H:%m:%s,%g'', ?s)" by (simp add: updateDateFormat_def braces_def)
  have 4: "replaceFirstWithEscape ?s ''%level'' v = ''[%datetime | '' @ v @ ''] | %msg''" for v
    by (simp add: replaceFirstWithEscape_def replace_escaped.simps npos_find_def escaped_def)
  obtain v s where v: "level_values l = Some (v, s)" "CHR ''%'' \<notin> set v"
    using assms by (cases l) (simp_all add: level_values_def)
  have 5: "replaceFirstWithEscape (''[%datetime | '' @ v @ ''] | %msg'') ''%levshort'' s = ''[%datetime | '' @ v @ ''] | %msg''"
    using assms v by (cases l) (auto simp: level_values_def replaceFirstWithEscape_def replace_escaped.simps npos_find_def)
  show ?thesis using v(1) 1 2 3 4 [of v] 5
    by (auto simp: LogFormat_new_def parseFromFormat_def updateFormatSpec_def Let_def)
qed

text \<open>In a registry without duplicates an entry holds the value of its level.\<close>

lemma entry_value:
  assumes "distinct (conf_keys cs)" "c \<in> set cs"
  shows "conf_value (m_level c) (m_configurationType c) cs = Some (m_value c)"
  using assms by (induction cs) (auto simp: conf_value_def conf_get_Cons conf_predicate_def conf_keys_def)

lemma registry_set_if: "registry_ok T cs \<Longrightarrow> l \<noteq> Unknown_level \<Longrightarrow> registry_ok T (unsafeSetIfNotExist l t v cs)"
  using registry_extends [OF _ extends_unsafeSet] by (auto simp: unsafeSetIfNotExist_def)

lemma registry_defaults: "registry_ok T cs \<Longrightarrow> registry_ok T (setRemainingToDefault cs)"
  by (simp add: setRemainingToDefault_def registry_set_if)

lemma find_Some_set: "find P xs = Some x \<Longrightarrow> x \<in> set xs \<and> P x"
  by (induction xs) (auto split: if_splits)

lemma copy_all_levels:
  assumes "registry_ok {} bs" "all_levels t v bs"
  shows "all_levels t v (setFromBase (Some bs) cs)"
  unfolding all_levels_def
proof (intro allI impI)
  fix l assume l: "l \<noteq> Unknown_level"
  have val: "m_value c = v" if "c \<in> set bs" "m_configurationType c = t" for c
    using entry_value [of bs c] keys_known [OF assms(1)] assms that by (auto simp: registry_ok_def all_levels_def)
  have "conf_value l t bs \<noteq> None" using assms(2) l by (simp add: all_levels_def)
  then obtain c where "c \<in> set bs" "m_configurationType c = t" "m_level c = l"
    unfolding conf_value_None conf_get_keys by (auto simp: conf_keys_def)
  then have "find (\<lambda>c. m_configurationType c = t \<and> (m_level c = l \<or> m_level c = Global)) (rev bs) \<noteq> None"
    by (auto simp: find_None_iff)
  then obtain d where d: "find (\<lambda>c. m_configurationType c = t \<and> (m_level c = l \<or> m_level c = Global)) (rev bs) = Some d"
    by blast
  then have "d \<in> set bs" "m_configurationType d = t" using find_Some_set [OF d] by auto
  with d val l show "conf_value l t (setFromBase (Some bs) cs) = Some v" by (simp add: setFromBase_def value_fold_set)
qed

lemma copy_absent:
  assumes "t \<notin> snd ` set (conf_keys bs)" "l \<noteq> Unknown_level"
  shows "conf_value l t (setFromBase (Some bs) cs) = conf_value l t cs"
proof -
  have "find (\<lambda>c. m_configurationType c = t \<and> (m_level c = l \<or> m_level c = Global)) (rev bs) = None"
    using assms(1) by (force simp: find_None_iff conf_keys_def)
  with assms(2) show ?thesis by (simp add: setFromBase_def value_fold_set)
qed

lemma build_succeeds:
  assumes "\<forall>c \<in> set cs. m_configurationType c \<in> {SubsecondPrecision, MaxLogFileSize, LogFlushThreshold} \<longrightarrow>
    (\<exists>n. getULong (m_value c) = Inr n)"
  shows "\<exists>tc' limits'. fold_result (build_entry user host) cs (tc, limits) = Inr (tc', limits') \<and>
    set limits' \<subseteq> set limits \<union> set cs"
  using assms
proof (induction cs arbitrary: tc limits)
  case (Cons b cs)
  have "\<exists>tc1 l1. build_entry user host b (tc, limits) = Inr (tc1, l1) \<and> set l1 \<subseteq> insert b (set limits)"
    using Cons.prems by (cases "m_configurationType b") (auto simp: build_entry_def Let_def)
  then obtain tc1 l1 where 1: "build_entry user host b (tc, limits) = Inr (tc1, l1)" "set l1 \<subseteq> insert b (set limits)"
    by blast
  obtain tc' limits' where "fold_result (build_entry user host) cs (tc1, l1) = Inr (tc', limits')"
    "set limits' \<subseteq> set l1 \<union> set cs" using Cons.IH [of tc1 l1] Cons.prems by auto
  with 1 show ?case by auto
qed simp

text \<open>When all levels name the same file, all share its stream.\<close>

definition one_file :: "string \<Rightarrow> TypedConfigurations \<Rightarrow> bool" where
  "one_file name tc \<longleftrightarrow> map_of (m_filenameMap tc) Global = Some name \<and> map_of (m_fileStreamMap tc) Global = Some (Some name) \<and>
     snd ` set (m_filenameMap tc) \<subseteq> {name} \<and> snd ` set (m_fileStreamMap tc) \<subseteq> {Some name} \<and>
     map_of (m_logStreamsReference tc) name = Some (Some name)"

lemma one_file_lookup:
  assumes "one_file name tc"
  shows "unsafeGetConfigByRef l (m_filenameMap tc) = Inr name" "unsafeGetConfigByRef l (m_fileStreamMap tc) = Inr (Some name)"
  using assms by (auto simp: one_file_def unsafeGetConfigByRef_def dest!: map_of_SomeD split: option.splits)

lemma one_file_create:
  assumes "one_file name tc"
  shows "one_file name (create_stream opens name l tc) \<and> m_toFileMap (create_stream opens name l tc) = m_toFileMap tc"
  using assms by (auto simp: one_file_def create_stream_def lm_insert_def Let_def map_add_def split: option.splits)

lemma one_file_first:
  assumes "m_filenameMap tc = []" "m_fileStreamMap tc = []" "opens name"
    "map_of (m_logStreamsReference tc) name \<in> {None, Some (Some name)}"
  shows "one_file name (create_stream opens name Global tc) \<and> m_toFileMap (create_stream opens name Global tc) = m_toFileMap tc"
  using assms by (auto simp: one_file_def create_stream_def lm_insert_def newFileStream_def Let_def map_add_def split: option.splits)

lemma insert_files_same:
  assumes "\<forall>c \<in> set bs. resolveFilename t usec (m_value c) = Inr name" "one_file name tc"
  shows "\<exists>tc'. fold_result (\<lambda>conf. insertFile t usec opens (m_level conf) (m_value conf)) bs tc = Inr tc' \<and>
    one_file name tc' \<and> m_toFileMap tc' = m_toFileMap tc"
  using assms
proof (induction bs arbitrary: tc)
  case (Cons b bs)
  have "m_filenameMap tc \<noteq> []" using Cons.prems(2) by (auto simp: one_file_def)
  then have "insertFile t usec opens (m_level b) (m_value b) tc = Inr (create_stream opens name (m_level b) tc)"
    using Cons.prems(1) by (simp add: insertFile_def)
  with Cons one_file_create [OF Cons.prems(2), of opens "m_level b"] show ?case by fastforce
qed simp

lemma no_rolling:
  assumes "one_file name tc" "\<forall>c \<in> set limits. file_size name < unsafeGetConfigByVal 0 (m_level c) (m_maxLogFileSizeMap tc)"
  shows "fold_result (\<lambda>conf sizes. andThen (unsafeValidateFileRolling (m_level conf) tc sizes) (\<lambda>(_, sizes'). Inr sizes'))
    limits file_size = Inr file_size"
  using assms(2)
  by (induction limits) (auto simp: unsafeValidateFileRolling_def one_file_lookup [OF assms(1)] Let_def)

text \<open>The registry of the client's logger\<close>

definition client_registry :: configurations where
  "client_registry = logger_registry (conf_list (Configurations_new (Some log_conf) True None))"

lemma client_conf_ok: "registry_ok {} (conf_list (Configurations_new (Some log_conf) True None))"
proof -
  have "registry_ok {} []" by (simp add: registry_ok_def conf_keys_def)
  then show ?thesis unfolding log_conf_parsed Configurations.select_convs
    by (simp add: registry_defaults registry_extends [OF _ extends_conf_set])
qed

lemma client_registry_ok: "registry_ok all_types client_registry" "\<forall>c \<in> set client_registry. m_level c \<noteq> Unknown_level"
proof -
  show "registry_ok all_types client_registry"
    unfolding client_registry_def by (rule logger_registry_ok [OF keys_known [OF client_conf_ok]])
  then show "\<forall>c \<in> set client_registry. m_level c \<noteq> Unknown_level" by (rule keys_known)
qed

lemma client_registry_values:
  "all_levels Format ''[%datetime | %level] | %msg'' client_registry"
  "all_levels Filename ''./log/client_%datetime{%Y%M%d%H}.log'' client_registry"
  "all_levels Enabled ''true'' client_registry" "all_levels ToFile ''true'' client_registry"
  "all_levels ToStandardOutput ''false'' client_registry" "all_levels SubsecondPrecision ''3'' client_registry"
  "all_levels MaxLogFileSize ''209715200'' client_registry"
proof -
  obtain cs where c: "Configurations_new (Some log_conf) True None = \<lparr>conf_list = cs, m_isFromFile = True\<rparr> \<and>
      all_levels Format ''[%datetime | %level] | %msg'' cs \<and>
      all_levels Filename ''./log/client_%datetime{%Y%M%d%H}.log'' cs \<and> all_levels Enabled ''true'' cs \<and>
      all_levels ToFile ''true'' cs \<and> all_levels ToStandardOutput ''false'' cs \<and>
      all_levels SubsecondPrecision ''3'' cs \<and> all_levels MaxLogFileSize ''209715200'' cs"
    using client_log_configuration by (rule exE)
  have cs: "conf_list (Configurations_new (Some log_conf) True None) = cs" using conjunct1 [OF c] by simp
  have step: "all_levels t v client_registry" if "all_levels t v cs" for t v
    using copy_all_levels [OF client_conf_ok, of t v] that
    unfolding client_registry_def logger_registry_def cs .
  show "all_levels Format ''[%datetime | %level] | %msg'' client_registry"
    "all_levels Filename ''./log/client_%datetime{%Y%M%d%H}.log'' client_registry"
    "all_levels Enabled ''true'' client_registry" "all_levels ToFile ''true'' client_registry"
    "all_levels ToStandardOutput ''false'' client_registry" "all_levels SubsecondPrecision ''3'' client_registry"
    "all_levels MaxLogFileSize ''209715200'' client_registry"
    by (rule step, simp only: c)+
qed

lemma value_set_other:
  "l \<noteq> Unknown_level \<Longrightarrow> t \<noteq> t' \<Longrightarrow> conf_value l t (unsafeSetIfNotExist level t' v cs) = conf_value l t cs"
  by (simp add: value_set_if)

lemma client_flush_threshold: "all_levels LogFlushThreshold ''0'' client_registry"
proof -
  let ?cs = "conf_list (Configurations_new (Some log_conf) True None)"
  have none: "conf_value l LogFlushThreshold ?cs = None" if "l \<noteq> Unknown_level" for l
    using that unfolding log_conf_parsed Configurations.select_convs setRemainingToDefault_def
    by (simp add: value_set_other value_conf_set) (simp add: conf_value_def conf_get_def)
  have absent: "LogFlushThreshold \<notin> snd ` set (conf_keys ?cs)"
  proof
    assume "LogFlushThreshold \<in> snd ` set (conf_keys ?cs)"
    then obtain c where c: "c \<in> set ?cs" "m_configurationType c = LogFlushThreshold" by (auto simp: conf_keys_def)
    then have "conf_value (m_level c) LogFlushThreshold ?cs = Some (m_value c)"
      using entry_value [of ?cs c] client_conf_ok by (simp add: registry_ok_def)
    with none [of "m_level c"] keys_known [OF client_conf_ok] c(1) show False by simp
  qed
  have "all_levels LogFlushThreshold ''0'' (setToDefault [])"
    by (simp add: all_levels_def setToDefault_def value_conf_set value_setGlobally)
  then have "all_levels LogFlushThreshold ''0'' (setFromBase (Some (setToDefault [])) [])"
    using copy_all_levels default_registry by (simp add: registry_ok_def)
  then show ?thesis unfolding client_registry_def logger_registry_def all_levels_def by (simp add: copy_absent [OF absent])
qed

lemma client_entry:
  assumes "c \<in> set client_registry" "all_levels (m_configurationType c) v client_registry"
  shows "m_value c = v"
  using entry_value [of client_registry c] client_registry_ok assms by (auto simp: registry_ok_def all_levels_def)

lemma client_numbers: "getULong ''209715200'' = Inr 209715200" "getULong ''3'' = Inr 3" "getULong ''0'' = Inr 0"
  by (simp_all add: getULong_def trim_def ltrim_def rtrim_def char_eval is_digit_def digits_value_def)

lemma client_lookup:
  assumes "t \<in> all_types" "l \<noteq> Unknown_level" "all_levels t v client_registry"
  shows "unsafeGetConfigByRef l (set_all assign h (entries t client_registry) []) = Inr (h l v)"
  using registry_lookup [OF client_registry_ok(1) assms(1), of l assign h] assms(2,3) by (simp add: all_levels_def)

lemma client_build:
  assumes "name = ''./log/client_'' @ log_date t @ ''.log''" "opens name"
    "map_of streams name \<in> {None, Some (Some name)}" "file_size name < 209715200"
  shows "\<exists>tc. build user host t usec opens file_size client_registry (typed_empty streams) = Inr (tc, file_size) \<and>
    (\<forall>l. l \<notin> {Global, Unknown_level} \<longrightarrow>
      unsafeGetConfigByVal False l (m_enabledMap tc) \<and> unsafeGetConfigByVal False l (m_toFileMap tc) \<and>
      \<not> unsafeGetConfigByVal False l (m_toStandardOutputMap tc) \<and>
      unsafeGetConfigByVal 0 l (m_maxLogFileSizeMap tc) = 209715200 \<and>
      unsafeGetConfigByRef l (m_filenameMap tc) = Inr name \<and>
      unsafeGetConfigByRef l (m_fileStreamMap tc) = Inr (Some name) \<and>
      (\<exists>lf v s. unsafeGetConfigByRef l (m_logFormatMap tc) = Inr lf \<and> level_values l = Some (v, s) \<and>
         lf_format lf = ''[%datetime | '' @ v @ ''] | %msg'' \<and> lf_flags lf = {F_Level, F_LogMessage, F_DateTime}))"
proof -
  let ?R = client_registry and ?h = "LogFormat_new user host"
  note vals = client_registry_values client_flush_threshold
  have "\<forall>c \<in> set ?R. m_configurationType c \<in> {SubsecondPrecision, MaxLogFileSize, LogFlushThreshold} \<longrightarrow>
      (\<exists>n. getULong (m_value c) = Inr n)"
    using client_entry client_numbers vals(6-8) by fastforce
  from build_succeeds [OF this, of user host "typed_empty streams" "[]"] obtain tc1 limits where
    1: "fold_result (build_entry user host) ?R (typed_empty streams, []) = Inr (tc1, limits)" "set limits \<subseteq> set ?R" by auto
  note maps = build_entries [OF 1(1)]
  let ?fs = "filter (\<lambda>conf. m_configurationType conf = Filename) ?R"
  have names: "\<forall>c \<in> set ?fs. resolveFilename t usec (m_value c) = Inr name"
    using client_entry vals(2) log_file_name assms(1) by fastforce
  have "entries Filename ?R \<noteq> []"
    using entries_head [of Filename ?R] client_registry_ok(1) by (fastforce simp: registry_ok_def all_types_def)
  then obtain f fs where fs: "?fs = f # fs" by (cases ?fs) (simp_all add: entries_def)
  have empty: "m_filenameMap tc1 = []" "m_fileStreamMap tc1 = []" "m_logStreamsReference tc1 = streams"
    using maps by (simp_all add: typed_empty_def)
  let ?tc = "create_stream opens name Global tc1"
  have first: "insertFile t usec opens (m_level f) (m_value f) tc1 = Inr ?tc"
    using names fs empty by (simp add: insertFile_def)
  have one: "one_file name ?tc" "m_toFileMap ?tc = m_toFileMap tc1"
    using one_file_first [of tc1 opens name] empty assms(2,3) by simp_all
  obtain tc where 2: "fold_result (\<lambda>conf. insertFile t usec opens (m_level conf) (m_value conf)) ?fs tc1 = Inr tc"
    "one_file name tc" "m_toFileMap tc = m_toFileMap tc1"
    using insert_files_same [of fs t usec name ?tc opens] names one first unfolding fs by auto
  note keep = insert_files_keep [OF 2(1)]
  have types: "Enabled \<in> all_types" "ToFile \<in> all_types" "ToStandardOutput \<in> all_types" "MaxLogFileSize \<in> all_types"
    "Format \<in> all_types" by (simp_all add: all_types_def)
  have eqs: "m_enabledMap tc = set_all plain_assign (\<lambda>_. getBool) (entries Enabled ?R) []"
    "m_toFileMap tc = set_all plain_assign (\<lambda>_. getBool) (entries ToFile ?R) []"
    "m_toStandardOutputMap tc = set_all plain_assign (\<lambda>_. getBool) (entries ToStandardOutput ?R) []"
    "m_maxLogFileSizeMap tc = set_all plain_assign (\<lambda>_. ulong_of) (entries MaxLogFileSize ?R) []"
    "m_logFormatMap tc = set_all logformat_assign ?h (entries Format ?R) []"
    using maps keep 2(3) by (simp_all add: typed_empty_def)
  have max: "unsafeGetConfigByVal 0 l (m_maxLogFileSizeMap tc) = 209715200" if "l \<noteq> Unknown_level" for l
    using lookup_by_val [OF client_lookup [OF types(4) that vals(7), of plain_assign "\<lambda>_. ulong_of"], of 0] eqs(4) client_numbers(1)
    by (simp add: ulong_of_def)
  have "\<forall>c \<in> set limits. file_size name < unsafeGetConfigByVal 0 (m_level c) (m_maxLogFileSizeMap tc)"
    using 1(2) client_registry_ok(2) max assms(4) by fastforce
  with no_rolling [of name tc limits file_size] 2(2)
  have b: "build user host t usec opens file_size ?R (typed_empty streams) = Inr (tc, file_size)"
    using 1(1) 2(1) by (simp add: build_def)
  have true: "getBool ''true''" "\<not> getBool ''false''"
    by (simp_all add: getBool_def trim_def ltrim_def rtrim_def char_eval)
  have switches: "unsafeGetConfigByVal False l (m_enabledMap tc)" "unsafeGetConfigByVal False l (m_toFileMap tc)"
    "\<not> unsafeGetConfigByVal False l (m_toStandardOutputMap tc)" if l: "l \<noteq> Unknown_level" for l
    using lookup_by_val [OF client_lookup [OF types(1) l vals(3), of plain_assign "\<lambda>_. getBool"]]
      lookup_by_val [OF client_lookup [OF types(2) l vals(4), of plain_assign "\<lambda>_. getBool"]]
      lookup_by_val [OF client_lookup [OF types(3) l vals(5), of plain_assign "\<lambda>_. getBool"]] eqs(1-3) true
    by simp_all
  have format: "unsafeGetConfigByRef l (m_logFormatMap tc) = Inr (?h l ''[%datetime | %level] | %msg'')"
    if l: "l \<noteq> Unknown_level" for l
    using client_lookup [OF types(5) l vals(1)] eqs(5) by simp
  have "\<exists>lf v s. unsafeGetConfigByRef l (m_logFormatMap tc) = Inr lf \<and> level_values l = Some (v, s) \<and>
      lf_format lf = ''[%datetime | '' @ v @ ''] | %msg'' \<and> lf_flags lf = {F_Level, F_LogMessage, F_DateTime}"
    if "l \<notin> {Global, Unknown_level}" for l
    using log_format [of l user host] format [of l] that by fastforce
  with b switches max one_file_lookup [OF 2(2)] show ?thesis by auto
qed

section \<open>Where it goes wrong\<close>

text \<open>The first value of a type becomes the one of \<open>Global\<close>, whatever its level.\<close>

lemma first_value_is_global: "setValue assign Info v True [] = [(Global, v)]"
  by (simp add: setValue_def)

text \<open>A file name whose only date is escaped is read before its beginning.\<close>

lemma escaped_date_undefined: "resolveFilename t usec ''a%%datetime'' = Inl Undefined"
  by (simp add: resolveFilename_def npos_find_def find_date_unchecked.simps escaped_def)

text \<open>A date of 30 characters or more leaves no room for the NUL.\<close>

lemma parseFormat_plain:
  "CHR ''%'' \<notin> set f \<Longrightarrow> length buf \<le> kBuffSize \<Longrightarrow> parseFormat f t msec p buf = Inr (take kBuffSize (buf @ f))"
  by (induction f t msec p buf rule: parseFormat.induct) auto

lemma long_date_undefined:
  assumes "CHR ''%'' \<notin> set f" "30 \<le> length f"
  shows "timevalToString t usec f p = Inl Undefined"
  using assms by (simp add: timevalToString_def parseFormat_plain kBuffSize_def)

text \<open>A date that holds the date specifier is replaced for ever.\<close>

lemma find_first_at: "take (length w) (drop k s) = w \<Longrightarrow> k \<le> length s \<Longrightarrow> \<exists>j \<le> k. find_first w s = Some j"
proof (induction s arbitrary: k)
  case (Cons x s)
  show ?case
  proof (cases k)
    case 0
    with Cons.prems show ?thesis by auto
  next
    case (Suc k')
    with Cons obtain j where "j \<le> k'" "find_first w s = Some j" by auto
    with Suc show ?thesis by auto
  qed
qed auto

lemma find_first_found: "find_first w s = Some k \<Longrightarrow> take (length w) (drop k s) = w"
  by (induction s arbitrary: k) (auto split: if_splits)

lemma replace_loop_diverges:
  assumes "replace_loop what repl i s = Some r"
  shows "\<forall>x. repl = x # what \<longrightarrow> npos_find what s i = None"
proof (rule replace_loop.raw_induct
    [where P = "\<lambda>what repl i s r. \<forall>x. repl = x # what \<longrightarrow> npos_find what s i = None", OF _ assms], intro allI impI, rule ccontr)
  fix loop what repl i s r x
  assume IH: "\<And>what repl i s r. loop what repl i s = Some r \<Longrightarrow> \<forall>x. repl = x # what \<longrightarrow> npos_find what s i = None"
    and body: "(case npos_find what s i of None \<Rightarrow> Some s
      | Some k \<Rightarrow> loop what repl (k + 1) (take k s @ repl @ drop (k + length what) s)) = Some r"
    and repl: "repl = x # what" and "npos_find what s i \<noteq> None"
  then obtain k where k: "npos_find what s i = Some k" by blast
  let ?s = "take k s @ repl @ drop (k + length what) s"
  have "k \<le> length s" using npos_find_range [OF k] by simp
  then have "drop (k + 1) ?s = what @ drop (k + length what) s" "k + 1 \<le> length ?s" using repl by simp_all
  then have "npos_find what ?s (k + 1) \<noteq> None"
    using find_first_at [of what 0 "what @ drop (k + length what) s"] by (auto simp: npos_find_def)
  moreover have "loop what repl (k + 1) ?s = Some r" using body k by simp
  ultimately show False using IH [of what repl "k + 1" ?s r] repl by simp
qed

lemma date_in_date_diverges: "replaceAll_string ''%datetime'' ''%datetime'' ''x%datetime'' = Inl Diverges"
proof -
  have "npos_find ''%datetime'' ''%datetime'' 0 \<noteq> None" by (simp add: npos_find_def)
  then have "replace_loop ''%datetime'' ''x%datetime'' 0 ''%datetime'' = None"
    using replace_loop_diverges [of "''%datetime''" "''x%datetime''" 0 "''%datetime''"]
    by (cases "replace_loop ''%datetime'' ''x%datetime'' 0 ''%datetime''") auto
  then show ?thesis by (simp add: replaceAll_string_def)
qed

section \<open>Properties\<close>

text \<open>
  C27. What a logger uses at each level is what its registry says of that level: whether the level is
  enabled, whether it goes to the terminal, the size limit of its file, its flush threshold and its format
  are looked up by level as if each level had a value of its own, although values equal to the one of
  \<open>Global\<close> are not kept.  (Whether it goes to a file depends on the file as well, and performance tracking
  and the precision of seconds are kept for \<open>Global\<close> only; these are not part of the statement.)
\<close>

theorem typed_values_agree:
  assumes "build user host t usec opens file_size (logger_registry cs) (typed_empty streams) = Inr (tc, sizes)"
    "\<forall>c \<in> set cs. m_level c \<noteq> Unknown_level" "l \<noteq> Unknown_level"
  shows "unsafeGetConfigByVal False l (m_enabledMap tc) = getBool (the (conf_value l Enabled (logger_registry cs))) \<and>
    unsafeGetConfigByVal False l (m_toStandardOutputMap tc) =
      getBool (the (conf_value l ToStandardOutput (logger_registry cs))) \<and>
    unsafeGetConfigByVal 0 l (m_maxLogFileSizeMap tc) = ulong_of (the (conf_value l MaxLogFileSize (logger_registry cs))) \<and>
    unsafeGetConfigByVal 0 l (m_logFlushThresholdMap tc) =
      ulong_of (the (conf_value l LogFlushThreshold (logger_registry cs))) \<and>
    unsafeGetConfigByRef l (m_logFormatMap tc) =
      Inr (LogFormat_new user host l (the (conf_value l Format (logger_registry cs))))"
proof -
  have t: "Enabled \<in> all_types" "ToStandardOutput \<in> all_types" "MaxLogFileSize \<in> all_types"
    "LogFlushThreshold \<in> all_types" "Format \<in> all_types" by (simp_all add: all_types_def)
  note look = logger_lookup [OF assms(2) _ assms(3)]
  show ?thesis using build_maps [OF assms(1)] t
    by (simp add: look lookup_by_val [OF look])
qed

theorem typed_values_agree_witness:
  "\<exists>tc. build ''u'' ''h'' \<lparr>tm_sec = 0, tm_min = 5, tm_hour = 15, tm_mday = 8, tm_mon = 3, tm_year = 124, tm_wday = 1\<rparr> 0
       (\<lambda>_. True) (\<lambda>_. 0) client_registry (typed_empty []) = Inr (tc, \<lambda>_. 0) \<and>
     \<not> unsafeGetConfigByVal False Warning (m_toStandardOutputMap tc)"
proof -
  let ?t = "\<lparr>tm_sec = 0, tm_min = 5, tm_hour = 15, tm_mday = 8, tm_mon = 3, tm_year = 124, tm_wday = 1\<rparr>"
  let ?cs = "conf_list (Configurations_new (Some log_conf) True None)"
  obtain tc where tc: "build ''u'' ''h'' ?t 0 (\<lambda>_. True) (\<lambda>_. 0) (logger_registry ?cs) (typed_empty []) = Inr (tc, \<lambda>_. 0)"
    using client_build [OF refl, of "\<lambda>_. True" ?t "[]" "\<lambda>_. 0" "''u''" "''h''" 0] unfolding client_registry_def by auto
  have "conf_value Warning ToStandardOutput client_registry = Some ''false''"
    using client_registry_values(5) by (simp add: all_levels_def)
  moreover have "\<not> getBool ''false''" by (simp add: getBool_def trim_def ltrim_def rtrim_def char_eval)
  ultimately show ?thesis
    using typed_values_agree [OF tc keys_known [OF client_conf_ok], of Warning] tc unfolding client_registry_def by auto
qed

text \<open>
  The client's file, from its text to the values in use: the logger writes every level, and
  only to one file, named after the hour at which the client starts, in the format of the file
  with the name of the level filled in; a file below the limit is not truncated.
\<close>

theorem client_logger:
  assumes "name = ''./log/client_'' @ log_date t @ ''.log''" "opens name"
    "map_of streams name \<in> {None, Some (Some name)}" "file_size name < 209715200"
  shows "\<exists>tc. build user host t usec opens file_size client_registry (typed_empty streams) = Inr (tc, file_size) \<and>
    (\<forall>l. l \<notin> {Global, Unknown_level} \<longrightarrow>
      unsafeGetConfigByVal False l (m_enabledMap tc) \<and> unsafeGetConfigByVal False l (m_toFileMap tc) \<and>
      \<not> unsafeGetConfigByVal False l (m_toStandardOutputMap tc) \<and>
      unsafeGetConfigByVal 0 l (m_maxLogFileSizeMap tc) = 209715200 \<and>
      unsafeGetConfigByRef l (m_filenameMap tc) = Inr name \<and>
      unsafeGetConfigByRef l (m_fileStreamMap tc) = Inr (Some name) \<and>
      (\<exists>lf v s. unsafeGetConfigByRef l (m_logFormatMap tc) = Inr lf \<and> level_values l = Some (v, s) \<and>
         lf_format lf = ''[%datetime | '' @ v @ ''] | %msg'' \<and> lf_flags lf = {F_Level, F_LogMessage, F_DateTime}))"
  by (rule client_build) (fact assms)+

theorem client_logger_witness:
  "\<exists>tc. build ''u'' ''h'' \<lparr>tm_sec = 0, tm_min = 5, tm_hour = 15, tm_mday = 8, tm_mon = 3, tm_year = 124, tm_wday = 1\<rparr> 0
     (\<lambda>_. True) (\<lambda>_. 0) client_registry (typed_empty []) = Inr (tc, \<lambda>_. 0) \<and>
     unsafeGetConfigByRef Info (m_filenameMap tc) = Inr ''./log/client_2024040815.log''"
proof -
  let ?t = "\<lparr>tm_sec = 0, tm_min = 5, tm_hour = 15, tm_mday = 8, tm_mon = 3, tm_year = 124, tm_wday = 1\<rparr>"
  have "localBuff 2024 4 = ''2024''" "localBuff 4 2 = ''04''" "localBuff 8 2 = ''08''" "localBuff 15 2 = ''15''"
    by code_simp+
  then have "''./log/client_'' @ log_date ?t @ ''.log'' = ''./log/client_2024040815.log''" by (simp add: log_date_def)
  from client_logger [OF this [symmetric], of "\<lambda>_. True" "[]" "\<lambda>_. 0" "''u''" "''h''" 0] show ?thesis by auto
qed

end
