(* ===== verification/Log_Writer.thy ===== *)
theory Log_Writer
  imports Log_Typed_Facts
begin

text \<open>
  \<open>easylogging++.cc\<close>, what one statement \<open>LOG(level) << ...\<close> of the client does: the \<open>Writer\<close>, the
  dispatcher with its default callback, and the line that the \<open>LogBuilder\<close> makes of a message.  The
  flags, the time, the thread, and whether a write fails are arguments.
\<close>

section \<open>Levels in order\<close>

definition level_to_int :: "Level \<Rightarrow> nat" where
  "level_to_int l =
     (case l of Global \<Rightarrow> 1 | Trace \<Rightarrow> 2 | Debug \<Rightarrow> 4 | Fatal \<Rightarrow> 8 | Error \<Rightarrow> 16 | Warning \<Rightarrow> 32 | Verbose \<Rightarrow> 64
      | Info \<Rightarrow> 128 | Unknown_level \<Rightarrow> 1010)"

lemma level_to_int_inj: "level_to_int l = level_to_int l' \<Longrightarrow> l = l'"
  by (cases l; cases l') (simp_all add: level_to_int_def)

instantiation Level :: linorder
begin

definition less_eq_Level :: "Level \<Rightarrow> Level \<Rightarrow> bool" where
  "less_eq_Level l l' \<longleftrightarrow> level_to_int l \<le> level_to_int l'"

definition less_Level :: "Level \<Rightarrow> Level \<Rightarrow> bool" where
  "less_Level l l' \<longleftrightarrow> level_to_int l < level_to_int l'"

instance
  by standard (auto simp: less_eq_Level_def less_Level_def dest: level_to_int_inj)

end

section \<open>Messages, loggers and sinks\<close>

datatype LoggingFlag = NewLineForContainer | AllowVerboseIfModuleNotSpecified | LogDetailedCrashReason |
  DisableApplicationAbortOnFatalLog | ImmediateFlush | StrictLogFileSizeCheck | ColoredTerminalOutput |
  MultiLoggerSupport | DisablePerformanceTrackingCheckpointComparison | DisableVModules |
  DisableVModulesExtensions | HierarchicalLogging | CreateLoggerAutomatically | AutoSpacing | FixedTimeFormat |
  IgnoreSigInt

datatype DispatchAction = No_action | NormalLog | SysLog

record LogMessage =
  msg_level :: Level
  msg_file :: string
  msg_line :: nat
  msg_func :: string
  msg_verboseLevel :: nat
  msg_message :: string

record Logger =
  lg_id :: string
  lg_typed :: TypedConfigurations
  lg_app :: string
  lg_unflushed :: "Level \<rightharpoonup> 32 word"
  lg_stream :: string

text \<open>
  What surrounds the statement: flags and level of the storage, time, name of the thread, installed
  specifiers, whether writing to a file fails, and whether the terminal has colours.
\<close>

record Log_Env =
  env_flags :: "LoggingFlag set"
  env_loggingLevel :: Level
  env_time :: tm
  env_usec :: nat
  env_thread :: string
  env_specifiers :: "(string \<times> (LogMessage \<Rightarrow> string)) list"
  env_fails :: "string \<Rightarrow> bool"
  env_colors :: bool

text \<open>The files, what their streams have not flushed, and the standard output\<close>

record Log_Sinks =
  on_disk :: "string \<Rightarrow> string"
  buffered :: "string \<Rightarrow> string"
  std_out :: string

section \<open>The line of a message\<close>

text \<open>\<open>buildStrippedFilename\<close> with the limit 100: a longer name loses its beginning.\<close>

definition strip_name :: "string \<Rightarrow> string" where
  "strip_name filename =
     (if 100 \<le> length filename then
        let f = drop (length filename - 100) filename
        in if f ! 0 \<noteq> CHR ''.'' \<and> f ! 1 \<noteq> CHR ''.'' then ''..'' @ drop 3 f else f
      else filename)"

text \<open>The base name is not cut off behind a slash at index 0.\<close>

definition last_slash :: "string \<Rightarrow> nat option" where
  "last_slash s = (if CHR ''/'' \<in> set s then Some (length s - 1 - length (takeWhile (\<lambda>x. x \<noteq> CHR ''/'') (rev s))) else None)"

definition base_name :: "string \<Rightarrow> string" where
  "base_name fullPath =
     strip_name (case last_slash fullPath of None \<Rightarrow> fullPath | Some i \<Rightarrow> if i = 0 then fullPath else drop (i + 1) fullPath)"

text \<open>Numbers without padding: at most \<open>len\<close> and at most eight of the low digits\<close>

definition low_digits :: "nat \<Rightarrow> nat \<Rightarrow> string" where
  "low_digits n len = (if 0 < n then let d = dec_digits n in drop (length d - min len 8) d else ''0'')"

text \<open>The buffer of the builder has 110 bytes; a text that leaves no room for its NUL is read past its end.\<close>

definition builder_buffer :: nat where
  "builder_buffer = 110"

definition add_to :: "string \<Rightarrow> string \<Rightarrow> string" where
  "add_to str buf = take builder_buffer (buf @ str)"

definition location_text :: "string \<Rightarrow> nat \<Rightarrow> string result" where
  "location_text name line =
     (let buf = add_to (low_digits line 10) (add_to '':'' (strip_name name))
      in if length buf < builder_buffer then Inr buf else Inl Undefined)"

text \<open>\<open>DefaultLogBuilder::build\<close>\<close>

definition log_build :: "Log_Env \<Rightarrow> Logger \<Rightarrow> LogMessage \<Rightarrow> bool \<Rightarrow> string result" where
  "log_build env lg msg appendNewLine =
     andThen (unsafeGetConfigByRef (msg_level msg) (m_logFormatMap (lg_typed lg))) (\<lambda>lf.
       let put = (\<lambda>flag specifier val s. if flag \<in> lf_flags lf then replaceFirstWithEscape s specifier val else s);
           s1 = put F_AppName ''%app'' (lg_app lg) (lf_format lf);
           s2 = put F_ThreadId ''%thread'' (env_thread env) s1
       in andThen
            (if F_DateTime \<in> lf_flags lf then
               andThen (unsafeGetConfigByRef (msg_level msg) (m_subsecondPrecisionMap (lg_typed lg))) (\<lambda>p.
               andThen (timevalToString (env_time env) (env_usec env) (lf_dateTimeFormat lf) p) (\<lambda>d.
               Inr (replaceFirstWithEscape s2 ''%datetime'' d)))
             else Inr s2) (\<lambda>s3.
       let s4 = put F_Function ''%func'' (msg_func msg) s3;
           s5 = put F_File ''%file'' (strip_name (msg_file msg)) s4;
           s6 = put F_FileBase ''%fbase'' (base_name (msg_file msg)) s5;
           s7 = put F_Line ''%line'' (low_digits (msg_line msg) 10) s6
       in andThen
            (if F_Location \<in> lf_flags lf then
               andThen (location_text (msg_file msg) (msg_line msg)) (\<lambda>l. Inr (replaceFirstWithEscape s7 ''%loc'' l))
             else Inr s7) (\<lambda>s8.
       let s9 = (if msg_level msg = Verbose then put F_VerboseLevel ''%vlevel'' (low_digits (msg_verboseLevel msg) 1) s8 else s8);
           s10 = put F_LogMessage ''%msg'' (msg_message msg) s9;
           s11 = fold (\<lambda>(specifier, resolver) s. replaceFirstWithEscape s specifier (resolver msg)) (env_specifiers env) s10
       in Inr (if appendNewLine then s11 @ [CHR 0x0A] else s11))))"

definition convertToColoredOutput :: "bool \<Rightarrow> Level \<Rightarrow> string \<Rightarrow> string" where
  "convertToColoredOutput m_termSupportsColor level logLine =
     (let col = (\<lambda>n. [CHR 0x1B] @ ''['' @ n @ ''m'' @ logLine @ [CHR 0x1B] @ ''[0m'')
      in if \<not> m_termSupportsColor then logLine
         else if level = Error \<or> level = Fatal then col ''31''
         else if level = Warning then col ''33''
         else if level = Debug then col ''32''
         else if level = Info then col ''36''
         else if level = Trace then col ''35''
         else logLine)"

section \<open>Flushing and rolling\<close>

definition initUnflushedCount :: "Logger \<Rightarrow> Logger" where
  "initUnflushedCount lg = lg\<lparr>lg_unflushed := map_of (map (\<lambda>i. (level_from_int i, 0)) forEachLevel)\<rparr>"

text \<open>The counter has 32 bits and is compared with an \<open>unsigned long\<close>.\<close>

definition isFlushNeeded :: "Level \<Rightarrow> Logger \<Rightarrow> (bool \<times> Logger) result" where
  "isFlushNeeded level lg =
     andThen (deref_opt (lg_unflushed lg level)) (\<lambda>n.
       Inr (unsafeGetConfigByVal 0 level (m_logFlushThresholdMap (lg_typed lg)) \<le> uint (n + 1),
            lg\<lparr>lg_unflushed := (lg_unflushed lg)(level \<mapsto> n + 1)\<rparr>))"

text \<open>The size of a file is the position of its stream; a file that has reached its limit is truncated.\<close>

definition validateFileRolling :: "Level \<Rightarrow> TypedConfigurations \<Rightarrow> Log_Sinks \<Rightarrow> Log_Sinks result" where
  "validateFileRolling level tc out =
     andThen (unsafeValidateFileRolling level tc (\<lambda>f. int (length (on_disk out f @ buffered out f)))) (\<lambda>(_, sizes).
       Inr (out\<lparr>on_disk := \<lambda>f. if sizes f = 0 then '''' else on_disk out f,
                buffered := \<lambda>f. if sizes f = 0 then '''' else buffered out f\<rparr>))"

definition logger_flush :: "Level \<Rightarrow> string option \<Rightarrow> Logger \<times> Log_Sinks \<Rightarrow> (Logger \<times> Log_Sinks) result" where
  "logger_flush level fs0 st =
     (let (lg, out) = st; tc = lg_typed lg
      in andThen (if fs0 = None \<and> unsafeGetConfigByVal False level (m_toFileMap tc)
                  then unsafeGetConfigByRef level (m_fileStreamMap tc) else Inr fs0) (\<lambda>fs.
         case fs of
           None \<Rightarrow> Inr (lg, out)
         | Some f \<Rightarrow>
             let out1 = out\<lparr>on_disk := (on_disk out)(f := on_disk out f @ buffered out f), buffered := (buffered out)(f := '''')\<rparr>;
                 lg1 = (if lg_unflushed lg level = None then lg else lg\<lparr>lg_unflushed := (lg_unflushed lg)(level \<mapsto> 0)\<rparr>)
             in andThen (validateFileRolling level tc out1) (\<lambda>out2. Inr (lg1, out2))))"

text \<open>\<open>Logger::flush()\<close>, all levels\<close>

definition logger_flush_all :: "Logger \<times> Log_Sinks \<Rightarrow> (Logger \<times> Log_Sinks) result" where
  "logger_flush_all st = fold_result (\<lambda>i. logger_flush (level_from_int i) None) forEachLevel st"

section \<open>Dispatching\<close>

text \<open>
  \<open>DefaultLogDispatchCallback\<close>: a write that fails is reported and adds nothing.  \<open>env_fails env f\<close> is the result
  of \<open>fs->fail()\<close> after the write of this statement.  The flag of a stream stays set, so of the environments of
  successive statements those occur in which a failure is followed by failures; the definition and the
  properties admit all of them.
\<close>

definition callback_dispatch :: "Log_Env \<Rightarrow> DispatchAction \<Rightarrow> Level \<Rightarrow> string \<Rightarrow> Logger \<times> Log_Sinks \<Rightarrow>
    (Logger \<times> Log_Sinks) result" where
  "callback_dispatch env action level logLine st =
     (let tc = lg_typed (fst st)
      in if action \<noteq> NormalLog then Inr st
         else andThen
           (if unsafeGetConfigByVal False level (m_toFileMap tc) then
              andThen (unsafeGetConfigByRef level (m_fileStreamMap tc)) (\<lambda>fs.
                case fs of
                  None \<Rightarrow> Inr st
                | Some f \<Rightarrow>
                    if env_fails env f then Inr st
                    else let (lg, out) = st;
                             out1 = out\<lparr>buffered := (buffered out)(f := buffered out f @ logLine)\<rparr>
                         in if ImmediateFlush \<in> env_flags env then logger_flush level (Some f) (lg, out1)
                            else andThen (isFlushNeeded level lg) (\<lambda>(needed, lg1).
                              if needed then logger_flush level (Some f) (lg1, out1) else Inr (lg1, out1)))
            else Inr st) (\<lambda>(lg, out).
         Inr (lg,
           if unsafeGetConfigByVal False level (m_toStandardOutputMap tc)
           then out\<lparr>std_out := std_out out @
                  (if ColoredTerminalOutput \<in> env_flags env
                   then convertToColoredOutput (env_colors env) level logLine else logLine)\<rparr>
           else out)))"

definition callback_handle :: "Log_Env \<Rightarrow> DispatchAction \<Rightarrow> LogMessage \<Rightarrow> Logger \<times> Log_Sinks \<Rightarrow>
    (Logger \<times> Log_Sinks) result" where
  "callback_handle env action msg st =
     andThen (log_build env (fst st) msg (action = NormalLog)) (\<lambda>l. callback_dispatch env action (msg_level msg) l st)"

text \<open>\<open>LogDispatcher::dispatch\<close>; the default callback is the only one installed, and enabled or not.\<close>

definition dispatcher_dispatch :: "Log_Env \<Rightarrow> bool \<Rightarrow> bool \<Rightarrow> DispatchAction \<Rightarrow> LogMessage \<Rightarrow> Logger \<times> Log_Sinks \<Rightarrow>
    (Logger \<times> Log_Sinks) result" where
  "dispatcher_dispatch env callback_enabled proceed action msg st =
     (if \<not> proceed \<or> action = No_action then Inr st
      else andThen
        (if StrictLogFileSizeCheck \<in> env_flags env
         then andThen (validateFileRolling (msg_level msg) (lg_typed (fst st)) (snd st)) (\<lambda>out. Inr (fst st, out))
         else Inr st) (\<lambda>st1.
        if callback_enabled then callback_handle env action msg st1 else Inr st1))"

section \<open>The writer\<close>

text \<open>\<open>Writer::initializeLogger\<close> for a logger that is registered\<close>

definition writer_proceeds :: "Log_Env \<Rightarrow> Logger \<Rightarrow> Level \<Rightarrow> bool" where
  "writer_proceeds env lg level =
     (if HierarchicalLogging \<in> env_flags env then
        if level = Verbose then unsafeGetConfigByVal False level (m_enabledMap (lg_typed lg))
        else env_loggingLevel env \<le> level
      else unsafeGetConfigByVal False level (m_enabledMap (lg_typed lg)))"

definition message_insert :: "Log_Env \<Rightarrow> string \<Rightarrow> Logger \<Rightarrow> Logger" where
  "message_insert env log lg =
     lg\<lparr>lg_stream := lg_stream lg @ log @ (if AutoSpacing \<in> env_flags env then '' '' else '''')\<rparr>"

text \<open>
  A writer of one logger: the insertions, then \<open>processDispatch\<close> in its destructor; the flag
  tells whether it proceeded.
\<close>

definition writer_run :: "Log_Env \<Rightarrow> DispatchAction \<Rightarrow> LogMessage \<Rightarrow> string list \<Rightarrow> Logger \<times> Log_Sinks \<Rightarrow>
    (bool \<times> Logger \<times> Log_Sinks) result" where
  "writer_run env action site parts st =
     (let (lg, out) = st
      in if writer_proceeds env lg (msg_level site) then
           let lg1 = fold (message_insert env) parts lg
           in andThen (dispatcher_dispatch env True True action (site\<lparr>msg_message := lg_stream lg1\<rparr>) (lg1, out))
                (\<lambda>(lg2, out2). Inr (True, lg2\<lparr>lg_stream := ''''\<rparr>, out2))
         else Inr (False, lg\<lparr>lg_stream := ''''\<rparr>, out))"

text \<open>A statement; a fatal one writes a warning and aborts the program, which the flag tells.\<close>

definition LOG :: "Log_Env \<Rightarrow> LogMessage \<Rightarrow> string list \<Rightarrow> Logger \<times> Log_Sinks \<Rightarrow>
    (bool \<times> Logger \<times> Log_Sinks) result" where
  "LOG env site parts st =
     andThen (writer_run env NormalLog site parts st) (\<lambda>(proceeded, st1).
       if proceeded \<and> msg_level site = Fatal \<and> DisableApplicationAbortOnFatalLog \<notin> env_flags env then
         andThen (writer_run env NormalLog (site\<lparr>msg_level := Warning, msg_verboseLevel := 0\<rparr>)
             [''Aborting application. Reason: Fatal log at ['', msg_file site, '':'', dec_digits (msg_line site), '']''] st1)
           (\<lambda>(_, st2). Inr (True, st2))
       else Inr (False, st1))"

end
