(* ===== verification/Log_Writer_Facts.thy ===== *)
theory Log_Writer_Facts
  imports Log_Writer
begin

text \<open>
  What a statement of the client writes, with the configuration of its file, and the bounds of the
  buffers and of the log file.
\<close>

section \<open>Replacing a specifier\<close>

lemma find_first_spec: "x \<notin> set pre \<Longrightarrow> find_first (x # w) (pre @ (x # w) @ rest) = Some (length pre)"
  by (induction pre) auto

lemma replace_spec:
  assumes "CHR ''%'' \<notin> set pre"
  shows "replaceFirstWithEscape (pre @ (CHR ''%'' # w) @ rest) (CHR ''%'' # w) val = pre @ val @ rest"
proof -
  have f: "npos_find (CHR ''%'' # w) (pre @ (CHR ''%'' # w) @ rest) 0 = Some (length pre)"
    using find_first_spec [OF assms] by (simp add: npos_find_def)
  have "\<not> escaped (pre @ (CHR ''%'' # w) @ rest) (length pre)"
  proof
    assume "escaped (pre @ (CHR ''%'' # w) @ rest) (length pre)"
    then have "0 < length pre" "pre ! (length pre - 1) = CHR ''%''" by (auto simp: escaped_def nth_append)
    moreover from this(1) have "pre ! (length pre - 1) \<in> set pre" by (intro nth_mem) simp
    ultimately show False using assms by simp
  qed
  with f show ?thesis unfolding replaceFirstWithEscape_def
    by (subst replace_escaped.simps) simp
qed

section \<open>Buffers\<close>

lemma strip_name_length: "length (strip_name s) \<le> 100"
  by (auto simp: strip_name_def Let_def)

lemma low_digits_length: "0 < len \<Longrightarrow> length (low_digits n len) \<le> 8"
  by (auto simp: low_digits_def Let_def)

lemma location_text_fits: "location_text name line = Inr (strip_name name @ '':'' @ low_digits line 10)"
  using strip_name_length [of name] low_digits_length [of 10 line]
  by (simp add: location_text_def add_to_def builder_buffer_def)

section \<open>The client's logger\<close>

text \<open>The text of a date in the default format\<close>

definition stamp :: "tm \<Rightarrow> nat \<Rightarrow> string" where
  "stamp t usec = localBuff (tm_year t + 1900) 4 @ ''-'' @ localBuff (tm_mon t + 1) 2 @ ''-'' @ localBuff (tm_mday t) 2 @
     '' '' @ localBuff (tm_hour t) 2 @ '':'' @ localBuff (tm_min t) 2 @ '':'' @ localBuff (tm_sec t) 2 @
     '','' @ localBuff (usec div 1000) 3"

lemma stamp_string: "timevalToString t usec ''%Y-%M-%d %H:%m:%s,%g'' (subsecond_init 3) = Inr (stamp t usec)"
proof -
  have "parseFormat ''%Y-%M-%d %H:%m:%s,%g'' t (usec div m_offset (subsecond_init 3)) (subsecond_init 3) [] = Inr (stamp t usec)"
    by (simp add: date_field_def convertAndAddToBuff_def addToBuff_def kBuffSize_def length_localBuff stamp_def subsecond_init_def)
  then show ?thesis by (simp add: timevalToString_def stamp_def length_localBuff kBuffSize_def)
qed

lemma stamp_plain: "CHR ''%'' \<notin> set (stamp t usec)"
  using digits_plain by (simp add: stamp_def)

lemma build_subsecond:
  assumes "fold_result (build_entry user host) cs (tc, limits) = Inr (tc', limits')"
  shows "m_subsecondPrecisionMap tc' = fold (\<lambda>(_, s). setValue plain_assign Global (subsecond_init (to_int (ulong_of s))) True)
    (entries SubsecondPrecision cs) (m_subsecondPrecisionMap tc)"
  using assms
proof (induction cs arbitrary: tc limits)
  case Nil
  then show ?case by (simp add: entries_def)
next
  case (Cons b cs)
  obtain tc1 l1 where s: "build_entry user host b (tc, limits) = Inr (tc1, l1)"
    "fold_result (build_entry user host) cs (tc1, l1) = Inr (tc', limits')"
    using Cons.prems by (auto simp: andThen_eq_Inr_iff)
  note IH = Cons.IH [OF s(2)]
  show ?case
    using s(1) IH by (cases "m_configurationType b")
      (auto simp: build_entry_def Let_def entries_def andThen_eq_Inr_iff ulong_of_def)
qed

lemma insert_files_subsecond:
  assumes "fold_result (\<lambda>conf. insertFile t usec opens (m_level conf) (m_value conf)) bs tc = Inr tc'"
  shows "m_subsecondPrecisionMap tc' = m_subsecondPrecisionMap tc"
  using assms
  by (induction bs arbitrary: tc) (fastforce simp: andThen_eq_Inr_iff insertFile_def create_stream_def Let_def)+

lemma build_subsecond_map:
  assumes "build user host t usec opens file_size cs (typed_empty streams) = Inr (tc, sizes)"
  shows "m_subsecondPrecisionMap tc = fold (\<lambda>(_, s). setValue plain_assign Global (subsecond_init (to_int (ulong_of s))) True)
    (entries SubsecondPrecision cs) []"
proof -
  obtain tc1 limits where 1: "fold_result (build_entry user host) cs (typed_empty streams, []) = Inr (tc1, limits)"
    and 2: "fold_result (\<lambda>conf. insertFile t usec opens (m_level conf) (m_value conf))
      (filter (\<lambda>conf. m_configurationType conf = Filename) cs) tc1 = Inr tc"
    using assms by (auto simp: build_def andThen_eq_Inr_iff)
  show ?thesis using build_subsecond [OF 1] insert_files_subsecond [OF 2] by (simp add: typed_empty_def)
qed

lemma fold_same_global:
  assumes "\<forall>x \<in> set xs. f x = v" "xs \<noteq> []"
  shows "fold (\<lambda>x. setValue plain_assign Global (f x) True) xs [] = [(Global, v)]"
proof -
  have "fold (\<lambda>x. setValue plain_assign Global (f x) True) ys [(Global, v)] = [(Global, v)]" if "\<forall>x \<in> set ys. f x = v" for ys
    using that by (induction ys) (simp_all add: setValue_def)
  with assms show ?thesis by (cases xs) (simp_all add: setValue_def)
qed

text \<open>What a statement needs of the values in use\<close>

definition client_typed :: "string \<Rightarrow> TypedConfigurations \<Rightarrow> bool" where
  "client_typed name tc \<longleftrightarrow> (\<forall>l. l \<notin> {Global, Unknown_level} \<longrightarrow>
     unsafeGetConfigByVal False l (m_enabledMap tc) \<and> unsafeGetConfigByVal False l (m_toFileMap tc) \<and>
     \<not> unsafeGetConfigByVal False l (m_toStandardOutputMap tc) \<and>
     unsafeGetConfigByVal 0 l (m_maxLogFileSizeMap tc) = 209715200 \<and>
     unsafeGetConfigByVal 0 l (m_logFlushThresholdMap tc) = 0 \<and>
     unsafeGetConfigByRef l (m_filenameMap tc) = Inr name \<and>
     unsafeGetConfigByRef l (m_fileStreamMap tc) = Inr (Some name) \<and>
     unsafeGetConfigByRef l (m_subsecondPrecisionMap tc) = Inr (subsecond_init 3) \<and>
     (\<exists>lf v s. unsafeGetConfigByRef l (m_logFormatMap tc) = Inr lf \<and> level_values l = Some (v, s) \<and>
        lf_format lf = ''[%datetime | '' @ v @ ''] | %msg'' \<and> lf_dateTimeFormat lf = ''%Y-%M-%d %H:%m:%s,%g'' \<and>
        lf_flags lf = {F_Level, F_LogMessage, F_DateTime}))"

text \<open>\<open>%logger\<close> does not occur in the formats.\<close>

definition no_logger_id :: "LogFormat \<Rightarrow> bool" where
  "no_logger_id lf \<longleftrightarrow> (\<forall>ident. replaceFirstWithEscape (lf_format lf) ''%logger'' ident = lf_format lf)"

lemma set_all_formats:
  assumes "\<forall>(l, s) \<in> set xs. no_logger_id (h l s)" "\<forall>(l, w) \<in> set m. no_logger_id w"
  shows "\<forall>(l, w) \<in> set (set_all logformat_assign h xs m). no_logger_id w"
  using assms
proof (induction xs arbitrary: m)
  case (Cons x xs)
  obtain l s where x: "x = (l, s)" by (cases x)
  have "no_logger_id (logformat_assign w (h l s))" if "no_logger_id w" for w
    using that by (simp add: no_logger_id_def logformat_assign_def)
  then have "\<forall>(k, w) \<in> set (setValue logformat_assign l (h l s) True m). no_logger_id w"
    using Cons.prems x by (auto simp: setValue_def split: if_splits)
  with Cons.IH [of "setValue logformat_assign l (h l s) True m"] Cons.prems(1) x show ?case by (simp add: set_all_def)
qed (simp add: set_all_def)

lemma format_no_logger:
  assumes "l \<noteq> Unknown_level"
  shows "no_logger_id (LogFormat_new user host l ''[%datetime | %level] | %msg'')"
proof (cases "l = Global")
  case True
  let ?s = "''[%datetime | %level] | %msg''"
  have 1: "fold (\<lambda>(specifier, flag). conditionalAddFlag specifier flag 0) format_specifiers (?s, {}) = (?s, {F_LogMessage, F_Level})"
    by (simp add: format_specifiers_def conditionalAddFlag.simps npos_find_def escaped_def)
  have 2: "find_date ?s 0 = Some 1" by (simp add: find_date.simps npos_find_def escaped_def)
  have 3: "updateDateFormat 1 ?s = (''%Y-%M-%d %H:%m:%s,%g'', ?s)" by (simp add: updateDateFormat_def braces_def)
  have "lf_format (LogFormat_new user host l ?s) = ?s"
    using 1 2 3 True by (simp add: LogFormat_new_def parseFromFormat_def updateFormatSpec_def Let_def level_values_def)
  then show ?thesis
    by (simp add: no_logger_id_def replaceFirstWithEscape_def replace_escaped.simps npos_find_def)
next
  case False
  from log_format [OF False assms, of user host] obtain v s where
    v: "level_values l = Some (v, s)" "lf_format (LogFormat_new user host l ''[%datetime | %level] | %msg'') =
      ''[%datetime | '' @ v @ ''] | %msg''" by auto
  then show ?thesis using False assms
    by (cases l) (auto simp: level_values_def no_logger_id_def replaceFirstWithEscape_def replace_escaped.simps npos_find_def)
qed

lemma resolve_keeps:
  assumes "\<forall>(l, w) \<in> set (m_logFormatMap tc). no_logger_id w"
    "\<forall>i \<in> set forEachLevel. \<exists>lf. unsafeGetConfigByRef (level_from_int i) (m_logFormatMap tc) = Inr lf"
  shows "resolveLoggerFormatSpec ident tc = Inr tc"
proof -
  have same: "map (\<lambda>(l, w). if l = owner
      then (l, w\<lparr>lf_format := replaceFirstWithEscape (lf_format w) ''%logger'' ident\<rparr>) else (l, w)) (m_logFormatMap tc) =
      m_logFormatMap tc" for owner
    using assms(1) by (intro map_idI) (auto simp: no_logger_id_def)
  let ?f = "\<lambda>i tc. let level = level_from_int i;
           owner = (if map_of (m_logFormatMap tc) level = None then Global else level)
       in andThen (unsafeGetConfigByRef level (m_logFormatMap tc)) (\<lambda>lf.
          Inr (tc\<lparr>m_logFormatMap := map (\<lambda>(l, w). if l = owner
                  then (l, w\<lparr>lf_format := replaceFirstWithEscape (lf_format w) ''%logger'' ident\<rparr>) else (l, w))
                (m_logFormatMap tc)\<rparr>))"
  have "fold_result ?f is tc = Inr tc"
    if "\<forall>i \<in> set is. \<exists>lf. unsafeGetConfigByRef (level_from_int i) (m_logFormatMap tc) = Inr lf" for "is"
    using that by (induction "is") (auto simp: Let_def same)
  then show ?thesis unfolding resolveLoggerFormatSpec_def using assms(2) by blast
qed

lemma client_values:
  assumes "name = ''./log/client_'' @ log_date t @ ''.log''" "opens name"
    "map_of streams name \<in> {None, Some (Some name)}" "file_size name < 209715200"
  shows "\<exists>tc. build user host t usec opens file_size client_registry (typed_empty streams) = Inr (tc, file_size) \<and>
    resolveLoggerFormatSpec ident tc = Inr tc \<and> client_typed name tc"
proof -
  let ?R = client_registry and ?h = "LogFormat_new user host"
  obtain tc where tc: "build user host t usec opens file_size ?R (typed_empty streams) = Inr (tc, file_size)"
    and v: "\<forall>l. l \<notin> {Global, Unknown_level} \<longrightarrow>
      unsafeGetConfigByVal False l (m_enabledMap tc) \<and> unsafeGetConfigByVal False l (m_toFileMap tc) \<and>
      \<not> unsafeGetConfigByVal False l (m_toStandardOutputMap tc) \<and>
      unsafeGetConfigByVal 0 l (m_maxLogFileSizeMap tc) = 209715200 \<and>
      unsafeGetConfigByRef l (m_filenameMap tc) = Inr name \<and>
      unsafeGetConfigByRef l (m_fileStreamMap tc) = Inr (Some name)"
    using client_build [of name t opens streams file_size user host usec, OF assms] by blast
  note maps = build_maps [OF tc]
  have types: "Format \<in> all_types" "LogFlushThreshold \<in> all_types" "SubsecondPrecision \<in> all_types" by (simp_all add: all_types_def)
  have format: "unsafeGetConfigByRef l (m_logFormatMap tc) = Inr (?h l ''[%datetime | %level] | %msg'')" if "l \<noteq> Unknown_level" for l
    using client_lookup [OF types(1) that client_registry_values(1), of logformat_assign ?h] maps by simp
  have flush: "unsafeGetConfigByVal 0 l (m_logFlushThresholdMap tc) = 0" if "l \<noteq> Unknown_level" for l
  proof -
    have "m_logFlushThresholdMap tc = set_all plain_assign (\<lambda>_. ulong_of) (entries LogFlushThreshold ?R) []" using maps by blast
    moreover have "ulong_of ''0'' = 0" using client_numbers(3) by (simp add: ulong_of_def)
    ultimately show ?thesis
      using lookup_by_val [OF client_lookup [OF types(2) that client_flush_threshold, of plain_assign "\<lambda>_. ulong_of"], of 0] by simp
  qed
  have sub: "m_subsecondPrecisionMap tc = [(Global, subsecond_init 3)]"
  proof -
    let ?E = "entries SubsecondPrecision ?R"
    have "global_first SubsecondPrecision ?R" using client_registry_ok(1) types(3) by (simp add: registry_ok_def)
    then have "?E \<noteq> []" by (rule entries_head) simp
    moreover have "\<forall>(l, s) \<in> set ?E. s = ''3''"
      using client_entry client_registry_values(6) by (fastforce simp: entries_def)
    moreover have "subsecond_init (to_int (ulong_of ''3'')) = subsecond_init 3" using client_numbers(2) by (simp add: ulong_of_def to_int_def)
    ultimately have f: "fold (\<lambda>x. setValue plain_assign Global ((\<lambda>(_, s). subsecond_init (to_int (ulong_of s))) x) True) ?E [] =
        [(Global, subsecond_init 3)]" by (intro fold_same_global) auto
    show ?thesis using build_subsecond_map [OF tc] f by (simp only: case_prod_beta')
  qed
  have "\<forall>(l, s) \<in> set (entries Format ?R). l \<noteq> Unknown_level \<and> s = ''[%datetime | %level] | %msg''"
    using client_entry client_registry_values(1) client_registry_ok(2) by (fastforce simp: entries_def)
  then have "\<forall>(l, s) \<in> set (entries Format ?R). no_logger_id (?h l s)" using format_no_logger by fast
  then have "\<forall>(l, w) \<in> set (m_logFormatMap tc). no_logger_id w" using set_all_formats [of "entries Format ?R" ?h "[]"] maps by simp
  moreover have "level_from_int i \<noteq> Unknown_level" if "i \<in> set forEachLevel" for i
    using that by (auto simp: forEachLevel_eval level_from_int_def)
  then have "\<forall>i \<in> set forEachLevel. \<exists>lf. unsafeGetConfigByRef (level_from_int i) (m_logFormatMap tc) = Inr lf" using format by blast
  ultimately have "resolveLoggerFormatSpec ident tc = Inr tc" by (rule resolve_keeps)
  moreover have "client_typed name tc" unfolding client_typed_def
  proof (intro allI impI)
    fix l assume l: "l \<notin> {Global, Unknown_level}"
    then have f: "l \<noteq> Global" "l \<noteq> Unknown_level" by simp_all
    from log_format [OF f, of user host] obtain v' s where "level_values l = Some (v', s)"
      "?h l ''[%datetime | %level] | %msg'' = \<lparr>lf_level = l, lf_userFormat = ''[%datetime | %level] | %msg'',
         lf_format = ''[%datetime | '' @ v' @ ''] | %msg'', lf_dateTimeFormat = ''%Y-%M-%d %H:%m:%s,%g'',
         lf_flags = {F_Level, F_LogMessage, F_DateTime}\<rparr>" by blast
    with format [OF f(2)] have "\<exists>lf v s. unsafeGetConfigByRef l (m_logFormatMap tc) = Inr lf \<and> level_values l = Some (v, s) \<and>
        lf_format lf = ''[%datetime | '' @ v @ ''] | %msg'' \<and> lf_dateTimeFormat lf = ''%Y-%M-%d %H:%m:%s,%g'' \<and>
        lf_flags lf = {F_Level, F_LogMessage, F_DateTime}" by simp
    moreover have "unsafeGetConfigByRef l (m_subsecondPrecisionMap tc) = Inr (subsecond_init 3)"
      using f(1) by (simp add: sub unsafeGetConfigByRef_def)
    ultimately show "unsafeGetConfigByVal False l (m_enabledMap tc) \<and> unsafeGetConfigByVal False l (m_toFileMap tc) \<and>
     \<not> unsafeGetConfigByVal False l (m_toStandardOutputMap tc) \<and>
     unsafeGetConfigByVal 0 l (m_maxLogFileSizeMap tc) = 209715200 \<and>
     unsafeGetConfigByVal 0 l (m_logFlushThresholdMap tc) = 0 \<and>
     unsafeGetConfigByRef l (m_filenameMap tc) = Inr name \<and>
     unsafeGetConfigByRef l (m_fileStreamMap tc) = Inr (Some name) \<and>
     unsafeGetConfigByRef l (m_subsecondPrecisionMap tc) = Inr (subsecond_init 3) \<and>
     (\<exists>lf v s. unsafeGetConfigByRef l (m_logFormatMap tc) = Inr lf \<and> level_values l = Some (v, s) \<and>
        lf_format lf = ''[%datetime | '' @ v @ ''] | %msg'' \<and> lf_dateTimeFormat lf = ''%Y-%M-%d %H:%m:%s,%g'' \<and>
        lf_flags lf = {F_Level, F_LogMessage, F_DateTime})" using v l flush [OF f(2)] by blast
  qed
  ultimately show ?thesis using tc by blast
qed

section \<open>A statement of the client\<close>

definition limit :: nat where
  "limit = 209715200"

definition line_text :: "Log_Env \<Rightarrow> LogMessage \<Rightarrow> string \<Rightarrow> string" where
  "line_text env site message =
     ''['' @ stamp (env_time env) (env_usec env) @ '' | '' @ fst (the (level_values (msg_level site))) @ ''] | '' @ message @ [CHR 0x0A]"

text \<open>The flags and the site of the statements that the theorems are about\<close>

definition plain_site :: "string \<Rightarrow> Log_Env \<Rightarrow> LogMessage \<Rightarrow> bool" where
  "plain_site name env site \<longleftrightarrow> msg_level site \<notin> {Global, Unknown_level} \<and> \<not> env_fails env name \<and>
     env_specifiers env = [] \<and> env_flags env \<inter> {HierarchicalLogging, AutoSpacing, StrictLogFileSizeCheck} = {}"

lemma level_name_plain: "level_values l = Some (v, s) \<Longrightarrow> CHR ''%'' \<notin> set v"
  by (cases l) (auto simp: level_values_def)

lemma client_line:
  assumes c: "client_typed name (lg_typed lg)" and l: "msg_level msg \<notin> {Global, Unknown_level}" and n: "env_specifiers env = []"
  shows "log_build env lg msg True = Inr (line_text env msg (msg_message msg))"
proof -
  let ?l = "msg_level msg" and ?d = "stamp (env_time env) (env_usec env)"
  obtain lf v s where f: "unsafeGetConfigByRef ?l (m_logFormatMap (lg_typed lg)) = Inr lf" "level_values ?l = Some (v, s)"
    "lf_format lf = ''[%datetime | '' @ v @ ''] | %msg''" "lf_dateTimeFormat lf = ''%Y-%M-%d %H:%m:%s,%g''"
    "lf_flags lf = {F_Level, F_LogMessage, F_DateTime}"
    "unsafeGetConfigByRef ?l (m_subsecondPrecisionMap (lg_typed lg)) = Inr (subsecond_init 3)"
    using c l unfolding client_typed_def by blast
  have v: "CHR ''%'' \<notin> set v" using level_name_plain [OF f(2)] .
  have 1: "replaceFirstWithEscape (''[%datetime | '' @ v @ ''] | %msg'') ''%datetime'' ?d = ''['' @ ?d @ '' | '' @ v @ ''] | %msg''"
    using replace_spec [of "''[''" "''datetime''" "'' | '' @ v @ ''] | %msg''" ?d] by simp
  have 2: "replaceFirstWithEscape (''['' @ ?d @ '' | '' @ v @ ''] | %msg'') ''%msg'' m = ''['' @ ?d @ '' | '' @ v @ ''] | '' @ m" for m
    using replace_spec [of "''['' @ ?d @ '' | '' @ v @ ''] | ''" "''msg''" "''''" m] v stamp_plain by simp
  show ?thesis unfolding log_build_def Let_def f(1,5,6) andThen_Inr
    using f(3,4) stamp_string n 1 2 f(2) by (simp add: line_text_def)
qed

lemma rolling_client:
  assumes c: "client_typed name tc" and l: "level \<notin> {Global, Unknown_level}" and b: "buffered out name = ''''"
  shows "validateFileRolling level tc out =
    Inr (out\<lparr>on_disk := (on_disk out)(name := if length (on_disk out name) < limit then on_disk out name else '''')\<rparr>)"
proof -
  let ?size = "\<lambda>f. int (length (on_disk out f @ buffered out f))"
  have "unsafeGetConfigByRef level (m_fileStreamMap tc) = Inr (Some name)" "unsafeGetConfigByRef level (m_filenameMap tc) = Inr name"
    "unsafeGetConfigByVal 0 level (m_maxLogFileSizeMap tc) = 209715200"
    using c l unfolding client_typed_def by blast+
  then have r: "\<exists>r. unsafeValidateFileRolling level tc ?size = Inr (r, if 209715200 \<le> ?size name then ?size(name := 0) else ?size)"
    by (auto simp: unsafeValidateFileRolling_def Let_def)
  have keep: "(\<lambda>f. if ?size f = 0 then '''' else on_disk out f) = on_disk out" "(\<lambda>f. if ?size f = 0 then '''' else buffered out f) = buffered out"
    by (simp_all add: fun_eq_iff del: of_nat_add length_append)
  show ?thesis
  proof (cases "length (on_disk out name) < limit")
    case True
    then have "\<not> 209715200 \<le> ?size name" using b by (simp add: limit_def)
    then obtain r where "unsafeValidateFileRolling level tc ?size = Inr (r, ?size)" using r by auto
    then have "validateFileRolling level tc out = Inr (out\<lparr>on_disk := on_disk out, buffered := buffered out\<rparr>)"
      unfolding validateFileRolling_def by (simp only: andThen_Inr prod.case keep)
    with True show ?thesis by (simp add: fun_upd_idem)
  next
    case False
    then have "209715200 \<le> ?size name" by (simp add: limit_def)
    then obtain r where "unsafeValidateFileRolling level tc ?size = Inr (r, ?size(name := 0))" using r by auto
    moreover have "(\<lambda>f. if (?size(name := 0)) f = 0 then '''' else on_disk out f) = (on_disk out)(name := '''')"
      "(\<lambda>f. if (?size(name := 0)) f = 0 then '''' else buffered out f) = buffered out" using b by (auto simp: fun_eq_iff simp del: of_nat_add length_append)
    ultimately have "validateFileRolling level tc out = Inr (out\<lparr>on_disk := (on_disk out)(name := ''''), buffered := buffered out\<rparr>)"
      unfolding validateFileRolling_def by (simp only: andThen_Inr prod.case)
    with False show ?thesis by simp
  qed
qed

text \<open>The file after a line has been written, flushed, and its size checked\<close>

definition after_line :: "string \<Rightarrow> string \<Rightarrow> Log_Sinks \<Rightarrow> Log_Sinks" where
  "after_line name line out =
     (let total = on_disk out name @ buffered out name @ line
      in out\<lparr>on_disk := (on_disk out)(name := if length total < limit then total else ''''),
             buffered := (buffered out)(name := '''')\<rparr>)"

lemma flush_client:
  assumes "client_typed name (lg_typed lg)" "level \<notin> {Global, Unknown_level}"
  shows "\<exists>u. logger_flush level (Some name) (lg, out\<lparr>buffered := (buffered out)(name := buffered out name @ line)\<rparr>) =
    Inr (lg\<lparr>lg_unflushed := u\<rparr>, after_line name line out) \<and> dom u = dom (lg_unflushed lg)"
proof -
  let ?out = "out\<lparr>on_disk := (on_disk out)(name := on_disk out name @ buffered out name @ line), buffered := (buffered out)(name := '''')\<rparr>"
  have "validateFileRolling level (lg_typed lg) ?out = Inr (after_line name line out)"
    using rolling_client [OF assms, of ?out] by (simp add: after_line_def Let_def)
  then show ?thesis
    by (cases "lg_unflushed lg level = None")
      (auto simp: logger_flush_def Let_def insert_absorb split: if_splits
        intro!: exI [of _ "if lg_unflushed lg level = None then lg_unflushed lg else (lg_unflushed lg)(level \<mapsto> 0)"])
qed

lemma dispatch_client:
  assumes c: "client_typed name (lg_typed lg)" and l: "level \<notin> {Global, Unknown_level}" and f: "\<not> env_fails env name"
    and n: "lg_unflushed lg level \<noteq> None"
  shows "\<exists>u. callback_dispatch env NormalLog level line (lg, out) = Inr (lg\<lparr>lg_unflushed := u\<rparr>, after_line name line out) \<and>
    dom u = dom (lg_unflushed lg)"
proof -
  have v: "unsafeGetConfigByVal False level (m_toFileMap (lg_typed lg))" "\<not> unsafeGetConfigByVal False level (m_toStandardOutputMap (lg_typed lg))"
    "unsafeGetConfigByVal 0 level (m_logFlushThresholdMap (lg_typed lg)) = 0"
    "unsafeGetConfigByRef level (m_fileStreamMap (lg_typed lg)) = Inr (Some name)"
    using c l unfolding client_typed_def by blast+
  obtain k where k: "lg_unflushed lg level = Some k" using n by blast
  let ?out = "out\<lparr>buffered := (buffered out)(name := buffered out name @ line)\<rparr>"
  let ?lg = "lg\<lparr>lg_unflushed := (lg_unflushed lg)(level \<mapsto> k + 1)\<rparr>"
  have c': "client_typed name (lg_typed ?lg)" using c by simp
  obtain u where u: "logger_flush level (Some name) (lg, ?out) = Inr (lg\<lparr>lg_unflushed := u\<rparr>, after_line name line out)" "dom u = dom (lg_unflushed lg)"
    using flush_client [OF c l, of out line] by blast
  have d: "dom (lg_unflushed ?lg) = dom (lg_unflushed lg)" using k by auto
  obtain u' where u': "logger_flush level (Some name) (?lg, ?out) = Inr (lg\<lparr>lg_unflushed := u'\<rparr>, after_line name line out)" "dom u' = dom (lg_unflushed lg)"
    using flush_client [OF c' l, of out line] unfolding d by auto
  have "isFlushNeeded level lg = Inr (True, ?lg)" using k v(3) by (simp add: isFlushNeeded_def)
  then show ?thesis using u u' v f by (auto simp: callback_dispatch_def Let_def)
qed

lemma inserted:
  assumes "AutoSpacing \<notin> env_flags env"
  shows "fold (message_insert env) parts lg = lg\<lparr>lg_stream := lg_stream lg @ concat parts\<rparr>"
  using assms by (induction parts arbitrary: lg) (simp_all add: message_insert_def)

lemma writer_client:
  assumes c: "client_typed name (lg_typed lg)" and s: "plain_site name env site" and n: "msg_level site \<in> dom (lg_unflushed lg)"
  shows "\<exists>u. writer_run env NormalLog site parts (lg, out) =
      Inr (True, lg\<lparr>lg_unflushed := u, lg_stream := ''''\<rparr>, after_line name (line_text env site (lg_stream lg @ concat parts)) out) \<and>
    dom u = dom (lg_unflushed lg)"
proof -
  let ?l = "msg_level site" and ?m = "lg_stream lg @ concat parts"
  let ?lg = "lg\<lparr>lg_stream := ?m\<rparr>" and ?msg = "site\<lparr>msg_message := ?m\<rparr>" and ?line = "line_text env site ?m"
  have l: "?l \<notin> {Global, Unknown_level}" and f: "\<not> env_fails env name" "env_specifiers env = []"
    and g: "HierarchicalLogging \<notin> env_flags env" "AutoSpacing \<notin> env_flags env" "StrictLogFileSizeCheck \<notin> env_flags env"
    using s by (auto simp: plain_site_def)
  have c': "client_typed name (lg_typed ?lg)" using c by simp
  have n': "lg_unflushed ?lg ?l \<noteq> None" using n by auto
  have on: "writer_proceeds env lg ?l" using c l g(1) unfolding client_typed_def writer_proceeds_def by simp
  have line: "log_build env ?lg ?msg True = Inr ?line"
    using client_line [OF c', of ?msg env] l f(2) by (simp add: line_text_def)
  obtain u where u: "callback_dispatch env NormalLog ?l ?line (?lg, out) = Inr (?lg\<lparr>lg_unflushed := u\<rparr>, after_line name ?line out)"
    "dom u = dom (lg_unflushed lg)" using dispatch_client [OF c' l f(1) n', of ?line out] by auto
  have "writer_run env NormalLog site parts (lg, out) = Inr (True, lg\<lparr>lg_unflushed := u, lg_stream := ''''\<rparr>, after_line name ?line out)"
    using on g(3) line u(1)
    by (simp add: writer_run_def inserted [OF g(2)] dispatcher_dispatch_def callback_handle_def)
  with u(2) show ?thesis by blast
qed

lemma LOG_client:
  assumes "client_typed name (lg_typed lg)" "plain_site name env site" "msg_level site \<in> dom (lg_unflushed lg)" "msg_level site \<noteq> Fatal"
  shows "\<exists>u. LOG env site parts (lg, out) =
      Inr (False, lg\<lparr>lg_unflushed := u, lg_stream := ''''\<rparr>, after_line name (line_text env site (lg_stream lg @ concat parts)) out) \<and>
    dom u = dom (lg_unflushed lg)"
  using writer_client [OF assms(1-3), of parts out] assms(4) by (auto simp: LOG_def)

text \<open>A sequence of statements\<close>

fun LOG_run :: "(Log_Env \<times> LogMessage \<times> string list) list \<Rightarrow> Logger \<times> Log_Sinks \<Rightarrow> (Logger \<times> Log_Sinks) result" where
  "LOG_run [] st = Inr st"
| "LOG_run ((env, site, parts) # ls) st = andThen (LOG env site parts st) (\<lambda>(_, st'). LOG_run ls st')"

lemma after_line_bounded: "length (on_disk (after_line name line out) name) < limit" "buffered (after_line name line out) name = ''''"
  by (simp_all add: after_line_def Let_def limit_def)

lemma LOG_run_client:
  assumes "client_typed name (lg_typed lg)" "\<forall>(env, site, parts) \<in> set ls.
      plain_site name env site \<and> msg_level site \<in> dom (lg_unflushed lg) \<and> msg_level site \<noteq> Fatal"
    "length (on_disk out name) < limit" "buffered out name = ''''"
  shows "\<exists>lg' out'. LOG_run ls (lg, out) = Inr (lg', out') \<and> length (on_disk out' name) < limit \<and> buffered out' name = '''' \<and>
    std_out out' = std_out out \<and> (\<forall>f. f \<noteq> name \<longrightarrow> on_disk out' f = on_disk out f \<and> buffered out' f = buffered out f)"
  using assms
proof (induction ls arbitrary: lg out)
  case (Cons x ls)
  obtain env site parts where x: "x = (env, site, parts)" by (cases x)
  have s: "plain_site name env site" "msg_level site \<in> dom (lg_unflushed lg)" "msg_level site \<noteq> Fatal" using Cons.prems(2) x by auto
  let ?out = "after_line name (line_text env site (lg_stream lg @ concat parts)) out"
  obtain u where u: "LOG env site parts (lg, out) = Inr (False, lg\<lparr>lg_unflushed := u, lg_stream := ''''\<rparr>, ?out)"
    "dom u = dom (lg_unflushed lg)" using LOG_client [OF Cons.prems(1) s] by blast
  have "std_out ?out = std_out out \<and> (\<forall>f. f \<noteq> name \<longrightarrow> on_disk ?out f = on_disk out f \<and> buffered ?out f = buffered out f)"
    by (simp add: after_line_def Let_def)
  with Cons.IH [of "lg\<lparr>lg_unflushed := u, lg_stream := ''''\<rparr>" ?out] after_line_bounded [of name "line_text env site (lg_stream lg @ concat parts)" out]
    Cons.prems(1,2) u x show ?case by simp
qed simp

lemma all_levels_counted: "l \<notin> {Global, Unknown_level} \<Longrightarrow> l \<in> dom (lg_unflushed (initUnflushedCount lg))"
  by (cases l) (simp_all add: initUnflushedCount_def forEachLevel_eval level_from_int_def)

text \<open>A fatal statement writes a second line, a warning, and the program aborts.\<close>

lemma LOG_fatal:
  assumes c: "client_typed name (lg_typed lg)" and s: "plain_site name env site" and n: "{Fatal, Warning} \<subseteq> dom (lg_unflushed lg)"
    and l: "msg_level site = Fatal" and f: "DisableApplicationAbortOnFatalLog \<notin> env_flags env"
  shows "\<exists>u. LOG env site parts (lg, out) = Inr (True, lg\<lparr>lg_unflushed := u, lg_stream := ''''\<rparr>,
    after_line name (line_text env (site\<lparr>msg_level := Warning\<rparr>)
        (''Aborting application. Reason: Fatal log at ['' @ msg_file site @ '':'' @ dec_digits (msg_line site) @ '']''))
      (after_line name (line_text env site (lg_stream lg @ concat parts)) out))"
proof -
  let ?w = "site\<lparr>msg_level := Warning, msg_verboseLevel := 0\<rparr>"
  let ?ps = "[''Aborting application. Reason: Fatal log at ['', msg_file site, '':'', dec_digits (msg_line site), '']'']"
  have n1: "msg_level site \<in> dom (lg_unflushed lg)" using n l by simp
  let ?out = "after_line name (line_text env site (lg_stream lg @ concat parts)) out"
  obtain u where u: "writer_run env NormalLog site parts (lg, out) = Inr (True, lg\<lparr>lg_unflushed := u, lg_stream := ''''\<rparr>, ?out)"
    "dom u = dom (lg_unflushed lg)" using writer_client [OF c s n1] by blast
  let ?lg = "lg\<lparr>lg_unflushed := u, lg_stream := ''''\<rparr>"
  have "client_typed name (lg_typed ?lg)" "plain_site name env ?w" "msg_level ?w \<in> dom (lg_unflushed ?lg)"
    using c s n u(2) by (auto simp: plain_site_def)
  from writer_client [OF this, of ?ps ?out] obtain u' where
    "writer_run env NormalLog ?w ?ps (?lg, ?out) = Inr (True, lg\<lparr>lg_unflushed := u', lg_stream := ''''\<rparr>,
      after_line name (line_text env ?w (concat ?ps)) ?out)" by auto
  with u(1) l f show ?thesis by (auto simp: LOG_def line_text_def)
qed

text \<open>A statement of \<open>client_main.cpp\<close>, for the witnesses\<close>

abbreviation demo_time :: tm where
  "demo_time \<equiv> \<lparr>tm_sec = 0, tm_min = 5, tm_hour = 15, tm_mday = 8, tm_mon = 3, tm_year = 124, tm_wday = 1\<rparr>"

abbreviation demo_env :: Log_Env where
  "demo_env \<equiv> \<lparr>env_flags = {AllowVerboseIfModuleNotSpecified}, env_loggingLevel = Global, env_time = demo_time, env_usec = 0,
     env_thread = ''1'', env_specifiers = [], env_fails = \<lambda>_. False, env_colors = False\<rparr>"

abbreviation demo_site :: LogMessage where
  "demo_site \<equiv> \<lparr>msg_level = Info, msg_file = ''client_main.cpp'', msg_line = 13, msg_func = ''main'', msg_verboseLevel = 0, msg_message = ''''\<rparr>"

abbreviation demo_logger :: "TypedConfigurations \<Rightarrow> Logger" where
  "demo_logger tc \<equiv> initUnflushedCount \<lparr>lg_id = ''default'', lg_typed = tc, lg_app = '''', lg_unflushed = Map.empty, lg_stream = ''''\<rparr>"

abbreviation demo_sinks :: Log_Sinks where
  "demo_sinks \<equiv> \<lparr>on_disk = \<lambda>_. '''', buffered = \<lambda>_. '''', std_out = ''''\<rparr>"

lemma demo_log_name: "''./log/client_'' @ log_date demo_time @ ''.log'' = ''./log/client_2024040815.log''"
proof -
  have "localBuff 2024 4 = ''2024''" "localBuff 4 2 = ''04''" "localBuff 8 2 = ''08''" "localBuff 15 2 = ''15''"
    by code_simp+
  then show ?thesis by (simp add: log_date_def)
qed

lemma demo_values:
  obtains tc where "build ''u'' ''h'' demo_time 0 (\<lambda>_. True) (\<lambda>_. 0) client_registry (typed_empty []) = Inr (tc, \<lambda>_. 0)"
    "resolveLoggerFormatSpec ''default'' tc = Inr tc"
  using client_values [OF demo_log_name [symmetric], of "\<lambda>_. True" "[]" "\<lambda>_. 0" "''u''" "''h''" 0 "''default''"] by auto

section \<open>Properties\<close>

text \<open>
  The line of a message always fits into the buffers of the builder, but for a date of 30
  characters: with a format and a date that are defined, the builder yields a line.
\<close>

theorem log_build_total:
  assumes "unsafeGetConfigByRef (msg_level msg) (m_logFormatMap (lg_typed lg)) = Inr lf"
    "unsafeGetConfigByRef (msg_level msg) (m_subsecondPrecisionMap (lg_typed lg)) = Inr p"
    "timevalToString (env_time env) (env_usec env) (lf_dateTimeFormat lf) p = Inr d"
  shows "\<exists>line. log_build env lg msg nl = Inr line"
  using assms by (simp add: log_build_def location_text_fits Let_def)

text \<open>
  A log statement of the client, from its configuration file to the log: with the values that
  the client's \<open>log.conf\<close> yields, a statement of any level but fatal ends without error, appends
  exactly one line with the date, the name of the level and the message to the file named after
  the hour of the start, flushes it, and touches no other file nor the standard output; when the
  file has reached its limit it is empty afterwards.
\<close>

theorem client_log_line:
  assumes config: "name = ''./log/client_'' @ log_date t @ ''.log''" "opens name" "map_of streams name \<in> {None, Some (Some name)}"
      "file_size name < 209715200"
      "build user host t usec opens file_size client_registry (typed_empty streams) = Inr (tc0, sizes)"
      "resolveLoggerFormatSpec ''default'' tc0 = Inr tc"
    and lg: "lg = initUnflushedCount \<lparr>lg_id = ''default'', lg_typed = tc, lg_app = app, lg_unflushed = u, lg_stream = ''''\<rparr>"
    and site: "level_values (msg_level site) = Some (v, s)" "msg_level site \<noteq> Fatal" "\<not> env_fails env name" "env_specifiers env = []"
      "env_flags env \<inter> {HierarchicalLogging, AutoSpacing, StrictLogFileSizeCheck} = {}"
    and content: "content = on_disk out name @ buffered out name @
      ''['' @ stamp (env_time env) (env_usec env) @ '' | '' @ v @ ''] | '' @ concat parts @ [CHR 0x0A]"
  shows "\<exists>lg' out'. LOG env site parts (lg, out) = Inr (False, lg', out') \<and> lg_stream lg' = '''' \<and> lg_typed lg' = tc \<and>
    on_disk out' name = (if length content < 209715200 then content else '''') \<and> buffered out' name = '''' \<and>
    std_out out' = std_out out \<and> (\<forall>f. f \<noteq> name \<longrightarrow> on_disk out' f = on_disk out f \<and> buffered out' f = buffered out f)"
proof -
  obtain tc' where tc': "build user host t usec opens file_size client_registry (typed_empty streams) = Inr (tc', file_size)"
    "resolveLoggerFormatSpec ''default'' tc' = Inr tc'" "client_typed name tc'"
    using client_values [of name t opens streams file_size user host usec "''default''", OF config(1-4)] by blast
  with config(5,6) have c: "client_typed name (lg_typed lg)" by (simp add: lg initUnflushedCount_def)
  have l: "msg_level site \<notin> {Global, Unknown_level}" using site(1) by (auto simp: level_values_def)
  then have p: "plain_site name env site" using site(2-5) by (simp add: plain_site_def)
  have "msg_level site \<in> dom (lg_unflushed lg)" unfolding lg by (rule all_levels_counted [OF l])
  from LOG_client [OF c p this site(2), of parts out] obtain u' where
    u: "LOG env site parts (lg, out) = Inr (False, lg\<lparr>lg_unflushed := u', lg_stream := ''''\<rparr>,
      after_line name (line_text env site (lg_stream lg @ concat parts)) out)" by blast
  have "line_text env site (lg_stream lg @ concat parts) =
      ''['' @ stamp (env_time env) (env_usec env) @ '' | '' @ v @ ''] | '' @ concat parts @ [CHR 0x0A]"
    using site(1) by (simp add: line_text_def lg initUnflushedCount_def)
  with u content show ?thesis by (simp add: after_line_def Let_def limit_def lg initUnflushedCount_def)
qed

theorem client_log_line_witness:
  "\<exists>tc lg' out'. build ''u'' ''h'' demo_time 0 (\<lambda>_. True) (\<lambda>_. 0) client_registry (typed_empty []) = Inr (tc, \<lambda>_. 0) \<and>
     LOG demo_env demo_site [''Client '', ''start''] (demo_logger tc, demo_sinks) = Inr (False, lg', out') \<and>
     on_disk out' ''./log/client_2024040815.log'' = ''[2024-04-08 15:05:00,000 | INFO] | Client start'' @ [CHR 0x0A]"
proof -
  obtain tc where tc: "build ''u'' ''h'' demo_time 0 (\<lambda>_. True) (\<lambda>_. 0) client_registry (typed_empty []) = Inr (tc, \<lambda>_. 0)"
    "resolveLoggerFormatSpec ''default'' tc = Inr tc" by (rule demo_values)
  have "localBuff 2024 4 = ''2024''" "localBuff 4 2 = ''04''" "localBuff 8 2 = ''08''" "localBuff 15 2 = ''15''"
    "localBuff 5 2 = ''05''" "localBuff 0 2 = ''00''" "localBuff 0 3 = ''000''" by code_simp+
  then have st: "stamp (env_time demo_env) (env_usec demo_env) = ''2024-04-08 15:05:00,000''" by (simp add: stamp_def)
  have v: "level_values (msg_level demo_site) = Some (''INFO'', ''I'')" by (simp add: level_values_def)
  from client_log_line [OF demo_log_name [symmetric] _ _ _ tc refl v _ _ _ _ refl,
      where env = demo_env and out = demo_sinks and parts = "[''Client '', ''start'']" and app = "''''" and u = Map.empty]
  obtain lg' out' where "LOG demo_env demo_site [''Client '', ''start''] (demo_logger tc, demo_sinks) = Inr (False, lg', out')"
    "on_disk out' ''./log/client_2024040815.log'' = ''[2024-04-08 15:05:00,000 | INFO] | Client start'' @ [CHR 0x0A]"
    unfolding st by auto
  with tc(1) show ?thesis by blast
qed

text \<open>
  C35. The log file is bounded: after any sequence of log statements of the client, of any number
  and length, no statement has failed, the file is shorter than the limit of \<open>log.conf\<close>, nothing
  is left unflushed, and no other file has been touched.
\<close>

theorem client_log_bounded:
  assumes "name = ''./log/client_'' @ log_date t @ ''.log''" "opens name" "map_of streams name \<in> {None, Some (Some name)}"
      "file_size name < 209715200"
      "build user host t usec opens file_size client_registry (typed_empty streams) = Inr (tc0, sizes)"
      "resolveLoggerFormatSpec ''default'' tc0 = Inr tc"
    "lg = initUnflushedCount \<lparr>lg_id = ''default'', lg_typed = tc, lg_app = app, lg_unflushed = u, lg_stream = ''''\<rparr>"
    "\<forall>(env, site, parts) \<in> set ls. plain_site name env site \<and> msg_level site \<noteq> Fatal"
    "length (on_disk out name) < 209715200" "buffered out name = ''''"
  shows "\<exists>lg' out'. LOG_run ls (lg, out) = Inr (lg', out') \<and> length (on_disk out' name) < 209715200 \<and> buffered out' name = '''' \<and>
    std_out out' = std_out out \<and> (\<forall>f. f \<noteq> name \<longrightarrow> on_disk out' f = on_disk out f \<and> buffered out' f = buffered out f)"
proof -
  obtain tc' where tc': "build user host t usec opens file_size client_registry (typed_empty streams) = Inr (tc', file_size)"
    "resolveLoggerFormatSpec ''default'' tc' = Inr tc'" "client_typed name tc'"
    using client_values [of name t opens streams file_size user host usec "''default''", OF assms(1-4)] by blast
  with assms(5,6) have "client_typed name (lg_typed lg)" by (simp add: assms(7) initUnflushedCount_def)
  moreover have "\<forall>(env, site, parts) \<in> set ls.
      plain_site name env site \<and> msg_level site \<in> dom (lg_unflushed lg) \<and> msg_level site \<noteq> Fatal"
    using assms(8) all_levels_counted unfolding assms(7) plain_site_def by fastforce
  ultimately show ?thesis using LOG_run_client [of name lg ls out] assms(9,10) by (simp add: limit_def)
qed

theorem client_log_bounded_witness:
  "\<exists>tc lg' out'. LOG_run [(demo_env, demo_site, [''Client start'']), (demo_env, demo_site\<lparr>msg_level := Error\<rparr>, [''Fork error''])]
     (demo_logger tc, demo_sinks) = Inr (lg', out') \<and> buffered out' ''./log/client_2024040815.log'' = ''''"
proof -
  obtain tc where tc: "build ''u'' ''h'' demo_time 0 (\<lambda>_. True) (\<lambda>_. 0) client_registry (typed_empty []) = Inr (tc, \<lambda>_. 0)"
    "resolveLoggerFormatSpec ''default'' tc = Inr tc" by (rule demo_values)
  have "\<forall>(env, site, parts) \<in> set [(demo_env, demo_site, [''Client start'']), (demo_env, demo_site\<lparr>msg_level := Error\<rparr>, [''Fork error''])].
      plain_site ''./log/client_2024040815.log'' env site \<and> msg_level site \<noteq> Fatal" by (simp add: plain_site_def)
  from client_log_bounded [OF demo_log_name [symmetric] _ _ _ tc refl this,
      where out = demo_sinks and app = "''''" and u = Map.empty]
  show ?thesis by (auto simp del: LOG_run.simps)
qed

end
