(* ===== verification/Log_Start.thy ===== *)
theory Log_Start
  imports Log_Writer
begin

text \<open>
  \<open>easylogging++.cc\<close>, the loggers of a process: how a logger is configured and configured again,
  the registry of loggers with the streams that they share, and the start of the client's log.
\<close>

section \<open>A logger and its configuration\<close>

text \<open>
  What a configuration is made with: user and host, the time, which files can be opened, and the
  positions of the streams.
\<close>

record Conf_Env =
  ce_user :: string
  ce_host :: string
  ce_time :: tm
  ce_usec :: nat
  ce_opens :: "string \<Rightarrow> bool"
  ce_sizes :: "string \<Rightarrow> int"

text \<open>\<open>None\<close> is the null pointer that \<open>m_typedConfigurations\<close> is before the first configuration.\<close>

record Reg_Logger =
  rl_id :: string
  rl_typed :: "TypedConfigurations option"
  rl_app :: string
  rl_unflushed :: "Level \<rightharpoonup> 32 word"
  rl_stream :: string
  rl_isConfigured :: bool
  rl_configurations :: configurations

definition as_logger :: "TypedConfigurations \<Rightarrow> Reg_Logger \<Rightarrow> Logger" where
  "as_logger tc lg = \<lparr>lg_id = rl_id lg, lg_typed = tc, lg_app = rl_app lg, lg_unflushed = rl_unflushed lg, lg_stream = rl_stream lg\<rparr>"

definition rl_initUnflushedCount :: "Reg_Logger \<Rightarrow> Reg_Logger" where
  "rl_initUnflushedCount lg = lg\<lparr>rl_unflushed := map_of (map (\<lambda>i. (level_from_int i, 0)) forEachLevel)\<rparr>"

definition Reg_Logger_new :: "string \<Rightarrow> Reg_Logger" where
  "Reg_Logger_new ident = rl_initUnflushedCount
     \<lparr>rl_id = ident, rl_typed = None, rl_app = '''', rl_unflushed = Map.empty, rl_stream = '''',
      rl_isConfigured = False, rl_configurations = []\<rparr>"

text \<open>The streams that the loggers share, and the files\<close>

type_synonym log_io = "(string \<times> string option) list \<times> Log_Sinks"

definition flush_before :: "Reg_Logger \<Rightarrow> Log_Sinks \<Rightarrow> (Reg_Logger \<times> Log_Sinks) result" where
  "flush_before lg out =
     (case rl_typed lg of
        None \<Rightarrow> Inr (lg, out)
      | Some tc \<Rightarrow>
          if conf_get Global Filename (rl_configurations lg) = None then Inr (lg, out)
          else andThen (logger_flush_all (as_logger tc lg, out)) (\<lambda>(l, out').
               Inr (lg\<lparr>rl_unflushed := lg_unflushed l\<rparr>, out')))"

text \<open>
  \<open>Logger::configure\<close>.  The comparison of the registries compares pointers, so that it tells whether
  the argument is the logger's own registry (\<open>None\<close>) or another one.  A file that \<open>build\<close> rolls is
  truncated.
\<close>

definition logger_configure :: "Conf_Env \<Rightarrow> configurations option \<Rightarrow> Reg_Logger \<Rightarrow> log_io \<Rightarrow>
    (Reg_Logger \<times> log_io) result" where
  "logger_configure ce arg lg io =
     (let (streams, out) = io
      in andThen (flush_before (rl_initUnflushedCount (lg\<lparr>rl_isConfigured := False\<rparr>)) out) (\<lambda>(lg1, out1).
         let cs = setFromBase arg (rl_configurations lg1)
         in andThen (build (ce_user ce) (ce_host ce) (ce_time ce) (ce_usec ce) (ce_opens ce) (ce_sizes ce) cs (typed_empty streams))
              (\<lambda>(tc, sizes).
            andThen (resolveLoggerFormatSpec (rl_id lg1) tc) (\<lambda>tc'.
            Inr (lg1\<lparr>rl_configurations := cs, rl_typed := Some tc', rl_isConfigured := True\<rparr>,
                 m_logStreamsReference tc',
                 out1\<lparr>on_disk := \<lambda>f. if sizes f \<noteq> ce_sizes ce f then '''' else on_disk out1 f,
                      buffered := \<lambda>f. if sizes f \<noteq> ce_sizes ce f then '''' else buffered out1 f\<rparr>)))))"

definition logger_reconfigure :: "Conf_Env \<Rightarrow> Reg_Logger \<Rightarrow> log_io \<Rightarrow> (Reg_Logger \<times> log_io) result" where
  "logger_reconfigure ce = logger_configure ce None"

definition isValidId :: "string \<Rightarrow> bool" where
  "isValidId ident \<longleftrightarrow> (\<forall>c \<in> set ident. c \<in> set ''abcdefghijklmnopqrstuvwxyzABCDEFGHIJKLMNOPQRSTUVWXYZ0123456789-._'')"

section \<open>The registry of loggers\<close>

record RegisteredLoggers =
  rg_defaults :: configurations
  rg_streams :: "(string \<times> string option) list"
  rg_loggers :: "string \<rightharpoonup> Reg_Logger"

definition RegisteredLoggers_new :: RegisteredLoggers where
  "RegisteredLoggers_new = \<lparr>rg_defaults = setToDefault [], rg_streams = [], rg_loggers = Map.empty\<rparr>"

text \<open>\<open>RegisteredLoggers::get\<close>; \<open>None\<close> is the null pointer.\<close>

definition registered_get :: "Conf_Env \<Rightarrow> string \<Rightarrow> bool \<Rightarrow> RegisteredLoggers \<times> Log_Sinks \<Rightarrow>
    (Reg_Logger option \<times> RegisteredLoggers \<times> Log_Sinks) result" where
  "registered_get ce ident forceCreation st =
     (let (reg, out) = st
      in case rg_loggers reg ident of
           Some lg \<Rightarrow> Inr (Some lg, st)
         | None \<Rightarrow>
             if \<not> forceCreation \<or> \<not> isValidId ident then Inr (None, st)
             else andThen (logger_configure ce (Some (rg_defaults reg)) (Reg_Logger_new ident) (rg_streams reg, out))
               (\<lambda>(lg, streams, out'). Inr (Some lg, reg\<lparr>rg_streams := streams, rg_loggers := (rg_loggers reg)(ident \<mapsto> lg)\<rparr>, out')))"

definition registered_has :: "string \<Rightarrow> RegisteredLoggers \<Rightarrow> bool" where
  "registered_has ident reg \<longleftrightarrow> rg_loggers reg ident \<noteq> None"

definition registered_remove :: "string \<Rightarrow> RegisteredLoggers \<Rightarrow> bool \<times> RegisteredLoggers" where
  "registered_remove ident reg =
     (if ident = ''default'' then (False, reg) else (True, reg\<lparr>rg_loggers := (rg_loggers reg)(ident := None)\<rparr>))"

text \<open>\<open>unsafeFlushAll\<close>: every stream but the null pointers\<close>

definition unsafeFlushAll :: "RegisteredLoggers \<Rightarrow> Log_Sinks \<Rightarrow> Log_Sinks" where
  "unsafeFlushAll reg out =
     fold (\<lambda>(_, s) out. case s of
             None \<Rightarrow> out
           | Some f \<Rightarrow> out\<lparr>on_disk := (on_disk out)(f := on_disk out f @ buffered out f), buffered := (buffered out)(f := '''')\<rparr>)
       (rg_streams reg) out"

text \<open>\<open>Storage::Storage\<close> asks for the default logger twice.\<close>

definition Storage_new :: "Conf_Env \<Rightarrow> Log_Sinks \<Rightarrow> (RegisteredLoggers \<times> Log_Sinks) result" where
  "Storage_new ce out =
     andThen (registered_get ce ''default'' True (RegisteredLoggers_new, out)) (\<lambda>(_, st).
     andThen (registered_get ce ''default'' True st) (\<lambda>(_, st'). Inr st'))"

text \<open>\<open>Storage::~Storage\<close> deletes the registry, whose destructor flushes.\<close>

definition Storage_delete :: "RegisteredLoggers \<times> Log_Sinks \<Rightarrow> Log_Sinks" where
  "Storage_delete st = unsafeFlushAll (fst st) (snd st)"

section \<open>Loggers\<close>

text \<open>\<open>Loggers::reconfigureLogger\<close> with a pointer to a logger of the registry, which may be null\<close>

definition configure_registered :: "Conf_Env \<Rightarrow> configurations option \<Rightarrow> string \<Rightarrow> RegisteredLoggers \<times> Log_Sinks \<Rightarrow>
    (RegisteredLoggers \<times> Log_Sinks) result" where
  "configure_registered ce arg ident st =
     (let (reg, out) = st
      in case rg_loggers reg ident of
           None \<Rightarrow> Inr st
         | Some lg \<Rightarrow> andThen (logger_configure ce arg lg (rg_streams reg, out)) (\<lambda>(lg', streams, out').
             Inr (reg\<lparr>rg_streams := streams, rg_loggers := (rg_loggers reg)(ident \<mapsto> lg')\<rparr>, out')))"

definition reconfigureLogger :: "Conf_Env \<Rightarrow> string \<Rightarrow> configurations \<Rightarrow> RegisteredLoggers \<times> Log_Sinks \<Rightarrow>
    (RegisteredLoggers \<times> Log_Sinks) result" where
  "reconfigureLogger ce identity cs st =
     andThen (registered_get ce identity True st) (\<lambda>(lg, st1).
       if lg = None then Inr st1 else configure_registered ce (Some cs) identity st1)"

text \<open>One value of a logger, and then the configuration with its own registry\<close>

definition set_and_reconfigure :: "Conf_Env \<Rightarrow> Level \<Rightarrow> ConfigurationType \<Rightarrow> string \<Rightarrow> string \<Rightarrow> RegisteredLoggers \<times> Log_Sinks \<Rightarrow>
    (RegisteredLoggers \<times> Log_Sinks) result" where
  "set_and_reconfigure ce level t v ident st =
     (let (reg, out) = st
      in configure_registered ce None ident
           (reg\<lparr>rg_loggers := (rg_loggers reg)(ident := map_option
              (\<lambda>lg. lg\<lparr>rl_configurations := conf_set level t v (rl_configurations lg)\<rparr>) (rg_loggers reg ident))\<rparr>, out))"

definition reconfigureLogger_value :: "Conf_Env \<Rightarrow> string \<Rightarrow> ConfigurationType \<Rightarrow> string \<Rightarrow> RegisteredLoggers \<times> Log_Sinks \<Rightarrow>
    (RegisteredLoggers \<times> Log_Sinks) result" where
  "reconfigureLogger_value ce identity t v st =
     andThen (registered_get ce identity True st) (\<lambda>(lg, st1).
       if lg = None then Inr st1 else set_and_reconfigure ce Global t v identity st1)"

text \<open>The loops over an unordered map; \<open>order\<close> is its iteration order.\<close>

definition reconfigureAllLoggers :: "Conf_Env \<Rightarrow> string list \<Rightarrow> configurations \<Rightarrow> RegisteredLoggers \<times> Log_Sinks \<Rightarrow>
    (RegisteredLoggers \<times> Log_Sinks) result" where
  "reconfigureAllLoggers ce order cs st = fold_result (configure_registered ce (Some cs)) order st"

definition reconfigureAllLoggers_value :: "Conf_Env \<Rightarrow> string list \<Rightarrow> Level \<Rightarrow> ConfigurationType \<Rightarrow> string \<Rightarrow>
    RegisteredLoggers \<times> Log_Sinks \<Rightarrow> (RegisteredLoggers \<times> Log_Sinks) result" where
  "reconfigureAllLoggers_value ce order level t v st = fold_result (set_and_reconfigure ce level t v) order st"

definition setDefaultConfigurations :: "Conf_Env \<Rightarrow> string list \<Rightarrow> configurations \<Rightarrow> bool \<Rightarrow> RegisteredLoggers \<times> Log_Sinks \<Rightarrow>
    (RegisteredLoggers \<times> Log_Sinks) result" where
  "setDefaultConfigurations ce order cs reconfigureExistingLoggers st =
     (let (reg, out) = st; st1 = (reg\<lparr>rg_defaults := setFromBase (Some cs) (rg_defaults reg)\<rparr>, out)
      in if reconfigureExistingLoggers then reconfigureAllLoggers ce order cs st1 else Inr st1)"

section \<open>The start of the client\<close>

text \<open>
  \<open>INITIALIZE_EASYLOGGINGPP\<close> and the first three lines of \<open>main\<close>; \<open>content\<close> is the text of \<open>./log.conf\<close>,
  or \<open>None\<close> when there is no such file.
\<close>

definition client_log_main :: "Conf_Env \<Rightarrow> Conf_Env \<Rightarrow> Conf_Env \<Rightarrow> string list \<Rightarrow> string option \<Rightarrow> Log_Sinks \<Rightarrow>
    (RegisteredLoggers \<times> Log_Sinks) result" where
  "client_log_main ce0 ce1 ce2 order content out =
     andThen (Storage_new ce0 out) (\<lambda>st.
       let conf = conf_list (Configurations_new content True None)
       in andThen (reconfigureLogger ce1 ''default'' conf st) (reconfigureAllLoggers ce2 order conf))"

text \<open>A statement \<open>LOG\<close> of a program with a registry: the default logger writes it.\<close>

definition LOG_default :: "Log_Env \<Rightarrow> LogMessage \<Rightarrow> string list \<Rightarrow> RegisteredLoggers \<times> Log_Sinks \<Rightarrow>
    (bool \<times> RegisteredLoggers \<times> Log_Sinks) result" where
  "LOG_default env site parts st =
     (let (reg, out) = st
      in andThen (deref_opt (rg_loggers reg ''default'')) (\<lambda>lg.
         andThen (deref_opt (rl_typed lg)) (\<lambda>tc.
         andThen (LOG env site parts (as_logger tc lg, out)) (\<lambda>(aborts, l, out').
         Inr (aborts, reg\<lparr>rg_loggers := (rg_loggers reg)(''default'' \<mapsto>
                lg\<lparr>rl_unflushed := lg_unflushed l, rl_stream := lg_stream l\<rparr>)\<rparr>, out')))))"

end
