(* ===== verification/Log_Start_Facts.thy ===== *)
theory Log_Start_Facts
  imports Log_Writer_Facts Log_Start
begin

text \<open>
  The start of the client's log: whatever the registry of loggers goes through until then, the
  first statement of \<open>main\<close> finds the values of \<open>log.conf\<close>.
\<close>

section \<open>Registries that hold every key\<close>

definition complete :: "configurations \<Rightarrow> bool" where
  "complete cs \<longleftrightarrow> (\<forall>l t. l \<noteq> Unknown_level \<longrightarrow> t \<in> all_types \<longrightarrow> (l, t) \<in> set (conf_keys cs))"

lemma complete_logger: "complete (logger_registry cs)"
  unfolding complete_def
proof (intro allI impI)
  fix l t assume "l \<noteq> Unknown_level" "t \<in> all_types"
  then obtain s where "conf_value l t (logger_registry cs) = Some s" using logger_value by blast
  then show "(l, t) \<in> set (conf_keys (logger_registry cs))"
    using conf_get_keys [of l t "logger_registry cs"] by (auto simp: conf_value_def)
qed

text \<open>Setting appends missing keys only, and none is missing.\<close>

lemma keys_conf_set_same:
  assumes "complete cs" "distinct (conf_keys cs)" "l \<noteq> Unknown_level" "t \<in> all_types"
  shows "conf_keys (conf_set l t v cs) = conf_keys cs"
proof -
  obtain ks where ks: "conf_keys (conf_set l t v cs) = conf_keys cs @ ks" "snd ` set ks \<subseteq> {t}"
    "Unknown_level \<notin> fst ` set ks - {l}" "distinct (conf_keys cs @ ks)"
    using extends_conf_set [of l t cs v] assms(2) unfolding extends_def by auto
  have "x \<in> set (conf_keys cs)" if x: "x \<in> set ks" for x
  proof -
    have "snd x = t" using ks(2) x by blast
    moreover have "fst x \<noteq> Unknown_level" using ks(3) x assms(3) by (metis DiffI image_eqI singletonD)
    ultimately show ?thesis using assms(1,4) unfolding complete_def by (metis prod.collapse)
  qed
  then have "ks = []" using ks(4) by (cases ks) auto
  with ks(1) show ?thesis by simp
qed

lemma keys_copy_same:
  assumes "complete cs" "distinct (conf_keys cs)" "\<forall>c \<in> set bs. m_level c \<noteq> Unknown_level \<and> m_configurationType c \<in> all_types"
  shows "conf_keys (setFromBase (Some bs) cs) = conf_keys cs"
  using assms
proof (induction bs arbitrary: cs)
  case (Cons b bs)
  have k: "conf_keys (conf_set (m_level b) (m_configurationType b) (m_value b) cs) = conf_keys cs"
    using Cons.prems by (simp add: keys_conf_set_same)
  then have "complete (conf_set (m_level b) (m_configurationType b) (m_value b) cs)" using Cons.prems(1) by (simp add: complete_def)
  with Cons.IH k Cons.prems(2,3) show ?case by (simp add: setFromBase_def)
qed (simp add: setFromBase_def)

lemma registry_eqI:
  assumes "conf_keys A = conf_keys B" "distinct (conf_keys A)" "\<forall>(l, t) \<in> set (conf_keys A). conf_value l t A = conf_value l t B"
  shows "A = B"
proof (rule nth_equalityI)
  show len: "length A = length B" using assms(1) by (metis conf_keys_def length_map)
  fix i assume i: "i < length A"
  then have k: "conf_keys A ! i = (m_level (A ! i), m_configurationType (A ! i))"
    "conf_keys B ! i = (m_level (B ! i), m_configurationType (B ! i))" using len by (simp_all add: conf_keys_def)
  have "(m_level (A ! i), m_configurationType (A ! i)) \<in> set (conf_keys A)" using i by (auto simp: conf_keys_def)
  moreover have "conf_value (m_level (A ! i)) (m_configurationType (A ! i)) A = Some (m_value (A ! i))"
    "conf_value (m_level (B ! i)) (m_configurationType (B ! i)) B = Some (m_value (B ! i))"
    using entry_value [of A "A ! i"] entry_value [of B "B ! i"] assms(1,2) i len by simp_all
  ultimately show "A ! i = B ! i" using assms(1,3) k by (cases "A ! i"; cases "B ! i") auto
qed

text \<open>Configuring a logger with the same values once more changes nothing.\<close>

lemma copy_twice:
  assumes "registry_ok T cs" "complete cs" "\<forall>c \<in> set bs. m_level c \<noteq> Unknown_level \<and> m_configurationType c \<in> all_types"
  shows "setFromBase (Some bs) (setFromBase (Some bs) cs) = setFromBase (Some bs) cs"
proof (rule registry_eqI)
  have d: "distinct (conf_keys cs)" using assms(1) by (simp add: registry_ok_def)
  have k1: "conf_keys (setFromBase (Some bs) cs) = conf_keys cs" using keys_copy_same [OF assms(2) d assms(3)] .
  then have "complete (setFromBase (Some bs) cs)" using assms(2) by (simp add: complete_def)
  then show k2: "conf_keys (setFromBase (Some bs) (setFromBase (Some bs) cs)) = conf_keys (setFromBase (Some bs) cs)"
    using keys_copy_same assms(3) d k1 by metis
  show "distinct (conf_keys (setFromBase (Some bs) (setFromBase (Some bs) cs)))" using d k1 k2 by simp
  have "l \<noteq> Unknown_level" if "(l, t) \<in> set (conf_keys cs)" for l t using that assms(1) by (force simp: registry_ok_def)
  then show "\<forall>(l, t) \<in> set (conf_keys (setFromBase (Some bs) (setFromBase (Some bs) cs))).
      conf_value l t (setFromBase (Some bs) (setFromBase (Some bs) cs)) = conf_value l t (setFromBase (Some bs) cs)"
    unfolding k1 k2 by (auto simp: setFromBase_def value_fold_set split: option.splits)
qed

section \<open>The registries of the start\<close>

lemma conf_types: "snd ` set (conf_keys (conf_list (Configurations_new (Some log_conf) True None))) \<subseteq> all_types"
proof -
  have c: "snd ` set (conf_keys (conf_set l t v cs)) \<subseteq> all_types"
    if "t \<in> all_types" "snd ` set (conf_keys cs) \<subseteq> all_types" for l t v cs
    using that extends_types [OF extends_conf_set] by (meson insert_subsetI order_trans)
  have u: "snd ` set (conf_keys (unsafeSetIfNotExist l t v cs)) \<subseteq> all_types"
    if "t \<in> all_types" "snd ` set (conf_keys cs) \<subseteq> all_types" for l t v cs
    using that extends_types [OF extends_unsafeSet] by (simp add: unsafeSetIfNotExist_def) (meson insert_subsetI order_trans)
  have t: "{Enabled, Filename, ToFile, ToStandardOutput, SubsecondPrecision, PerformanceTracking, MaxLogFileSize, Format} \<subseteq> all_types"
    by (auto simp: all_types_def)
  have "snd ` set (conf_keys []) \<subseteq> all_types" by (simp add: conf_keys_def)
  then show ?thesis unfolding log_conf_parsed Configurations.select_convs setRemainingToDefault_def
    using t by (simp add: c u)
qed

lemma client_registry_again:
  "setFromBase (Some (conf_list (Configurations_new (Some log_conf) True None))) client_registry = client_registry"
proof -
  let ?bs = "conf_list (Configurations_new (Some log_conf) True None)" and ?R = "setFromBase (Some (setToDefault [])) []"
  have r: "?R = logger_registry []" by (simp add: logger_registry_def setFromBase_def)
  have "registry_ok all_types ?R" "complete ?R" unfolding r by (rule logger_registry_ok complete_logger; simp)+
  moreover have "\<forall>c \<in> set ?bs. m_level c \<noteq> Unknown_level \<and> m_configurationType c \<in> all_types"
    using keys_known [OF client_conf_ok] conf_types by (force simp: conf_keys_def)
  ultimately show ?thesis using copy_twice unfolding client_registry_def logger_registry_def by blast
qed

section \<open>Registries with one file\<close>

lemma insert_file_streams:
  assumes "insertFile t usec opens level v tc = Inr tc'" "resolveFilename t usec v = Inr name" "n \<noteq> name"
  shows "map_of (m_logStreamsReference tc') n = map_of (m_logStreamsReference tc) n"
  using assms by (auto simp: insertFile_def create_stream_def Let_def lm_insert_def map_add_def split: option.splits)

lemma build_streams:
  assumes "build user host t usec opens file_size cs (typed_empty streams) = Inr (tc, sizes)"
    "\<forall>c \<in> set cs. m_configurationType c = Filename \<longrightarrow> resolveFilename t usec (m_value c) = Inr name" "n \<noteq> name"
  shows "map_of (m_logStreamsReference tc) n = map_of streams n"
proof -
  obtain tc1 limits where 1: "fold_result (build_entry user host) cs (typed_empty streams, []) = Inr (tc1, limits)"
    and 2: "fold_result (\<lambda>conf. insertFile t usec opens (m_level conf) (m_value conf))
      (filter (\<lambda>conf. m_configurationType conf = Filename) cs) tc1 = Inr tc"
    using assms(1) by (auto simp: build_def andThen_eq_Inr_iff)
  have "fold_result (\<lambda>conf. insertFile t usec opens (m_level conf) (m_value conf)) bs tc1 = Inr tc \<Longrightarrow>
      \<forall>c \<in> set bs. resolveFilename t usec (m_value c) = Inr name \<Longrightarrow>
      map_of (m_logStreamsReference tc) n = map_of (m_logStreamsReference tc1) n" for bs tc1
  proof (induction bs arbitrary: tc1)
    case (Cons b bs)
    then obtain tc2 where "insertFile t usec opens (m_level b) (m_value b) tc1 = Inr tc2"
      "fold_result (\<lambda>conf. insertFile t usec opens (m_level conf) (m_value conf)) bs tc2 = Inr tc"
      by (auto simp: andThen_eq_Inr_iff)
    with Cons insert_file_streams [of t usec opens "m_level b" "m_value b" tc1 tc2 name n] assms(3) show ?case by simp
  qed simp
  from this [OF 2] assms(2) have "map_of (m_logStreamsReference tc) n = map_of (m_logStreamsReference tc1) n" by simp
  with build_entries [OF 1] show ?thesis by (simp add: typed_empty_def)
qed

text \<open>A logger whose file has no limit, or is below it\<close>

lemma build_one_file:
  assumes R: "registry_ok all_types R" "\<forall>c \<in> set R. m_configurationType c \<in> {SubsecondPrecision, MaxLogFileSize, LogFlushThreshold} \<longrightarrow>
      (\<exists>n. getULong (m_value c) = Inr n)"
    and f: "\<forall>c \<in> set R. m_configurationType c = Filename \<longrightarrow> resolveFilename t usec (m_value c) = Inr name" "opens name"
      "map_of streams name \<in> {None, Some (Some name)}"
    and m: "all_levels MaxLogFileSize s R" "getULong s = Inr mx" "mx = 0 \<or> file_size name < mx"
  shows "\<exists>tc. build user host t usec opens file_size R (typed_empty streams) = Inr (tc, file_size) \<and> one_file name tc \<and>
    (\<forall>l. l \<noteq> Unknown_level \<longrightarrow> unsafeGetConfigByVal 0 l (m_maxLogFileSizeMap tc) = mx)"
proof -
  obtain tc1 limits where
    1: "fold_result (build_entry user host) R (typed_empty streams, []) = Inr (tc1, limits)" "set limits \<subseteq> set R"
    using build_succeeds [OF R(2), of user host "typed_empty streams" "[]"] by auto
  note maps = build_entries [OF 1(1)]
  let ?fs = "filter (\<lambda>conf. m_configurationType conf = Filename) R"
  have names: "\<forall>c \<in> set ?fs. resolveFilename t usec (m_value c) = Inr name" using f(1) by simp
  have "entries Filename R \<noteq> []" using entries_head [of Filename R] R(1) by (fastforce simp: registry_ok_def all_types_def)
  then obtain c fs where fs: "?fs = c # fs" by (cases ?fs) (simp_all add: entries_def)
  have empty: "m_filenameMap tc1 = []" "m_fileStreamMap tc1 = []" "m_logStreamsReference tc1 = streams"
    using maps by (simp_all add: typed_empty_def)
  let ?tc = "create_stream opens name Global tc1"
  have first: "insertFile t usec opens (m_level c) (m_value c) tc1 = Inr ?tc" using names fs empty by (simp add: insertFile_def)
  have one: "one_file name ?tc" using one_file_first [of tc1 opens name] empty f(2,3) by simp
  obtain tc where 2: "fold_result (\<lambda>conf. insertFile t usec opens (m_level conf) (m_value conf)) ?fs tc1 = Inr tc" "one_file name tc"
    using insert_files_same [of fs t usec name ?tc opens] names one first unfolding fs by auto
  have max: "unsafeGetConfigByVal 0 l (m_maxLogFileSizeMap tc) = mx" if "l \<noteq> Unknown_level" for l
  proof -
    have "m_maxLogFileSizeMap tc = set_all plain_assign (\<lambda>_. ulong_of) (entries MaxLogFileSize R) []"
      using maps insert_files_keep [OF 2(1)] by (simp add: typed_empty_def)
    moreover have "conf_value l MaxLogFileSize R = Some s" using m(1) that by (simp add: all_levels_def)
    ultimately show ?thesis
      using registry_lookup [OF R(1), of MaxLogFileSize l plain_assign "\<lambda>_. ulong_of"] lookup_by_val m(2)
      by (fastforce simp: all_types_def ulong_of_def)
  qed
  have "\<forall>c \<in> set limits. m_level c \<noteq> Unknown_level" using 1(2) keys_known [OF R(1)] by blast
  then have "fold_result (\<lambda>conf sizes. andThen (unsafeValidateFileRolling (m_level conf) tc sizes) (\<lambda>(_, sizes'). Inr sizes'))
      limits file_size = Inr file_size"
    using m(3) by (induction limits) (auto simp: unsafeValidateFileRolling_def one_file_lookup [OF 2(2)] Let_def max)
  then show ?thesis using 1(1) 2 max by (auto simp: build_def)
qed

section \<open>The name of the logger in its formats\<close>

lemma resolve_total:
  assumes "map_of (m_logFormatMap tc) Global \<noteq> None"
  shows "\<exists>m. resolveLoggerFormatSpec ident tc = Inr (tc\<lparr>m_logFormatMap := m\<rparr>)"
proof -
  let ?f = "\<lambda>i tc. let level = level_from_int i;
           owner = (if map_of (m_logFormatMap tc) level = None then Global else level)
       in andThen (unsafeGetConfigByRef level (m_logFormatMap tc)) (\<lambda>lf.
          Inr (tc\<lparr>m_logFormatMap := map (\<lambda>(l, w). if l = owner
                  then (l, w\<lparr>lf_format := replaceFirstWithEscape (lf_format w) ''%logger'' ident\<rparr>) else (l, w))
                (m_logFormatMap tc)\<rparr>))"
  have keys: "map_of (map (\<lambda>(l, w). if l = k then (l, g w) else (l, w)) m) l = None \<longleftrightarrow> map_of m l = None"
    for k l and g :: "LogFormat \<Rightarrow> LogFormat" and m
    by (induction m) (simp_all split: prod.splits)
  have "\<exists>m. fold_result ?f is tc = Inr (tc\<lparr>m_logFormatMap := m\<rparr>)" for "is"
    using assms
  proof (induction "is" arbitrary: tc)
    case Nil
    have "tc\<lparr>m_logFormatMap := m_logFormatMap tc\<rparr> = tc" by simp
    then show ?case by (metis fold_result.simps(1))
  next
    case (Cons i "is")
    obtain w where w: "unsafeGetConfigByRef (level_from_int i) (m_logFormatMap tc) = Inr w"
      using Cons.prems by (cases "map_of (m_logFormatMap tc) (level_from_int i)") (auto simp: unsafeGetConfigByRef_def deref_opt_def)
    let ?o = "if map_of (m_logFormatMap tc) (level_from_int i) = None then Global else level_from_int i"
    let ?tc = "tc\<lparr>m_logFormatMap := map (\<lambda>(l, w). if l = ?o
        then (l, w\<lparr>lf_format := replaceFirstWithEscape (lf_format w) ''%logger'' ident\<rparr>) else (l, w)) (m_logFormatMap tc)\<rparr>"
    have s: "?f i tc = Inr ?tc" using w by (simp add: Let_def)
    have "map_of (m_logFormatMap ?tc) Global \<noteq> None" using Cons.prems by (simp add: keys del: not_None_eq)
    from Cons.IH [OF this] obtain m where r: "fold_result ?f is ?tc = Inr (?tc\<lparr>m_logFormatMap := m\<rparr>)" by blast
    have "fold_result ?f (i # is) tc = Inr (?tc\<lparr>m_logFormatMap := m\<rparr>)" by (simp only: fold_result.simps s andThen_Inr r)
    also have "?tc\<lparr>m_logFormatMap := m\<rparr> = tc\<lparr>m_logFormatMap := m\<rparr>" by simp
    finally show ?case by blast
  qed
  then show ?thesis unfolding resolveLoggerFormatSpec_def by blast
qed

section \<open>Flushing what is flushed\<close>

text \<open>A logger of one file that is below its limit and has nothing in its buffer\<close>

lemma flush_idle:
  assumes c: "one_file name tc" "level \<noteq> Unknown_level" "unsafeGetConfigByVal 0 level (m_maxLogFileSizeMap tc) = mx"
    and b: "buffered out name = ''''" "mx = 0 \<or> int (length (on_disk out name)) < mx" and l: "lg_typed lg = tc"
  shows "\<exists>u. logger_flush level None (lg, out) = Inr (lg\<lparr>lg_unflushed := u\<rparr>, out) \<and> dom u = dom (lg_unflushed lg)"
proof -
  let ?size = "\<lambda>f. int (length (on_disk out f @ buffered out f))"
  have keep: "(\<lambda>f. if ?size f = 0 then '''' else on_disk out f) = on_disk out" "(\<lambda>f. if ?size f = 0 then '''' else buffered out f) = buffered out"
    by (simp_all add: fun_eq_iff del: of_nat_add length_append)
  obtain r where "unsafeValidateFileRolling level tc ?size = Inr (r, ?size)"
    using b c by (auto simp: unsafeValidateFileRolling_def one_file_lookup [OF c(1)] Let_def)
  then have v: "validateFileRolling level tc out = Inr out"
    unfolding validateFileRolling_def by (simp only: andThen_Inr prod.case keep) simp
  have same: "out\<lparr>on_disk := (on_disk out)(name := on_disk out name @ buffered out name), buffered := (buffered out)(name := '''')\<rparr> = out"
    using b(1) by (simp add: fun_upd_idem)
  show ?thesis
  proof (cases "unsafeGetConfigByVal False level (m_toFileMap tc) \<and> lg_unflushed lg level \<noteq> None")
    case True
    then have "logger_flush level None (lg, out) = Inr (lg\<lparr>lg_unflushed := (lg_unflushed lg)(level \<mapsto> 0)\<rparr>, out)"
      by (simp add: logger_flush_def l Let_def one_file_lookup [OF c(1)] same v del: not_None_eq)
    moreover have "dom ((lg_unflushed lg)(level \<mapsto> 0)) = dom (lg_unflushed lg)" using True by auto
    ultimately show ?thesis by blast
  next
    case False
    then have "logger_flush level None (lg, out) = Inr (lg, out)"
      by (auto simp: logger_flush_def l Let_def one_file_lookup [OF c(1)] same v simp del: not_None_eq)
    then show ?thesis by (intro exI [of _ "lg_unflushed lg"]) simp
  qed
qed

lemma flush_all_idle:
  assumes c: "one_file name tc" "\<forall>l. l \<noteq> Unknown_level \<longrightarrow> unsafeGetConfigByVal 0 l (m_maxLogFileSizeMap tc) = mx"
    and b: "buffered out name = ''''" "mx = 0 \<or> int (length (on_disk out name)) < mx" and l: "lg_typed lg = tc"
  shows "\<exists>u. logger_flush_all (lg, out) = Inr (lg\<lparr>lg_unflushed := u\<rparr>, out) \<and> dom u = dom (lg_unflushed lg)"
proof -
  have "\<exists>u. fold_result (\<lambda>i. logger_flush (level_from_int i) None) is (lg, out) = Inr (lg\<lparr>lg_unflushed := u\<rparr>, out) \<and>
      dom u = dom (lg_unflushed lg)" if "\<forall>i \<in> set is. level_from_int i \<noteq> Unknown_level" for "is"
    using that l
  proof (induction "is" arbitrary: lg)
    case Nil
    show ?case by (intro exI [of _ "lg_unflushed lg"]) simp
  next
    case (Cons i "is")
    have i: "level_from_int i \<noteq> Unknown_level" using Cons.prems(1) by simp
    obtain u where u: "logger_flush (level_from_int i) None (lg, out) = Inr (lg\<lparr>lg_unflushed := u\<rparr>, out)" "dom u = dom (lg_unflushed lg)"
      using flush_idle [OF c(1) i c(2) [rule_format, OF i] b Cons.prems(2)] by blast
    moreover obtain u' where "fold_result (\<lambda>i. logger_flush (level_from_int i) None) is (lg\<lparr>lg_unflushed := u\<rparr>, out) =
        Inr (lg\<lparr>lg_unflushed := u'\<rparr>, out)" "dom u' = dom u" using Cons.IH [of "lg\<lparr>lg_unflushed := u\<rparr>"] Cons.prems by auto
    ultimately show ?case by auto
  qed
  moreover have "\<forall>i \<in> set forEachLevel. level_from_int i \<noteq> Unknown_level" by (auto simp: forEachLevel_eval level_from_int_def)
  ultimately show ?thesis unfolding logger_flush_all_def by blast
qed

section \<open>Configuring\<close>

text \<open>A logger that is new, or whose file is flushed and below its limit\<close>

definition idle :: "Log_Sinks \<Rightarrow> Reg_Logger \<Rightarrow> bool" where
  "idle out lg \<longleftrightarrow> (\<forall>tc. rl_typed lg = Some tc \<longrightarrow> (\<exists>name mx. one_file name tc \<and>
     (\<forall>l. l \<noteq> Unknown_level \<longrightarrow> unsafeGetConfigByVal 0 l (m_maxLogFileSizeMap tc) = mx) \<and>
     buffered out name = '''' \<and> (mx = 0 \<or> int (length (on_disk out name)) < mx)))"

abbreviation counted :: "Level set" where
  "counted \<equiv> set (map level_from_int forEachLevel)"

lemma idle_oneI:
  assumes "one_file name tc" "\<forall>l. l \<noteq> Unknown_level \<longrightarrow> unsafeGetConfigByVal 0 l (m_maxLogFileSizeMap tc) = mx"
    and "buffered out name = ''''" "mx = 0 \<or> int (length (on_disk out name)) < mx" "rl_typed lg = Some tc"
  shows "idle out lg"
  unfolding idle_def
proof (intro allI impI)
  fix tc' assume "rl_typed lg = Some tc'"
  with assms(5) have "tc' = tc" by simp
  with assms(1-4) show "\<exists>name mx. one_file name tc' \<and>
     (\<forall>l. l \<noteq> Unknown_level \<longrightarrow> unsafeGetConfigByVal 0 l (m_maxLogFileSizeMap tc') = mx) \<and>
     buffered out name = '''' \<and> (mx = 0 \<or> int (length (on_disk out name)) < mx)"
    by (intro exI [of _ name] exI [of _ mx]) simp
qed

lemma flush_before_idle:
  assumes "idle out lg"
  shows "\<exists>u. flush_before (rl_initUnflushedCount lg) out = Inr (lg\<lparr>rl_unflushed := u\<rparr>, out) \<and> dom u = counted"
proof (cases "rl_typed lg = None \<or> conf_get Global Filename (rl_configurations lg) = None")
  case True
  then have "flush_before (rl_initUnflushedCount lg) out = Inr (rl_initUnflushedCount lg, out)"
    by (auto simp: flush_before_def rl_initUnflushedCount_def split: option.splits)
  moreover have "dom (map_of (map (\<lambda>i. (level_from_int i, 0 :: 32 word)) forEachLevel)) = counted"
    by (simp add: dom_map_of_conv_image_fst image_image)
  ultimately show ?thesis unfolding rl_initUnflushedCount_def by blast
next
  case False
  then obtain tc where tc: "rl_typed lg = Some tc" by auto
  with assms obtain name mx where i: "one_file name tc" "\<forall>l. l \<noteq> Unknown_level \<longrightarrow> unsafeGetConfigByVal 0 l (m_maxLogFileSizeMap tc) = mx"
    "buffered out name = ''''" "mx = 0 \<or> int (length (on_disk out name)) < mx" unfolding idle_def by blast
  let ?lg = "as_logger tc (rl_initUnflushedCount lg)"
  obtain u where "logger_flush_all (?lg, out) = Inr (?lg\<lparr>lg_unflushed := u\<rparr>, out)" "dom u = dom (lg_unflushed ?lg)"
    using flush_all_idle [OF i, of ?lg] by (auto simp: as_logger_def)
  then show ?thesis using False tc
    by (auto simp: flush_before_def rl_initUnflushedCount_def as_logger_def dom_map_of_conv_image_fst image_image)
qed

lemma configure_step:
  assumes "idle out lg"
    "build (ce_user ce) (ce_host ce) (ce_time ce) (ce_usec ce) (ce_opens ce) (ce_sizes ce) cs (typed_empty streams) = Inr (tc, ce_sizes ce)"
    "cs = setFromBase arg (rl_configurations lg)" "resolveLoggerFormatSpec (rl_id lg) tc = Inr tc'"
  shows "\<exists>u. logger_configure ce arg lg (streams, out) =
      Inr (lg\<lparr>rl_unflushed := u, rl_configurations := cs, rl_typed := Some tc', rl_isConfigured := True\<rparr>, m_logStreamsReference tc', out) \<and>
    dom u = counted"
proof -
  have "idle out (lg\<lparr>rl_isConfigured := False\<rparr>)" using assms(1) by (simp add: idle_def)
  from flush_before_idle [OF this] obtain u where
    "flush_before (rl_initUnflushedCount (lg\<lparr>rl_isConfigured := False\<rparr>)) out = Inr (lg\<lparr>rl_isConfigured := False, rl_unflushed := u\<rparr>, out)"
    "dom u = counted" by auto
  then show ?thesis using assms(2-4) by (intro exI [of _ u]) (simp add: logger_configure_def)
qed

section \<open>The default configuration\<close>

lemma default_values:
  "all_levels Filename ''myeasylog.log'' (logger_registry [])" "all_levels SubsecondPrecision ''3'' (logger_registry [])"
  "all_levels MaxLogFileSize ''0'' (logger_registry [])" "all_levels LogFlushThreshold ''0'' (logger_registry [])"
proof -
  have r: "logger_registry [] = setFromBase (Some (setToDefault [])) []" by (simp add: logger_registry_def setFromBase_def)
  have ok: "registry_ok {} (setToDefault [])" using default_registry by (simp add: registry_ok_def)
  have "all_levels Filename ''myeasylog.log'' (setToDefault [])" "all_levels SubsecondPrecision ''3'' (setToDefault [])"
    "all_levels MaxLogFileSize ''0'' (setToDefault [])" "all_levels LogFlushThreshold ''0'' (setToDefault [])"
    by (simp_all add: all_levels_def setToDefault_def value_conf_set value_setGlobally)
  then show "all_levels Filename ''myeasylog.log'' (logger_registry [])" "all_levels SubsecondPrecision ''3'' (logger_registry [])"
    "all_levels MaxLogFileSize ''0'' (logger_registry [])" "all_levels LogFlushThreshold ''0'' (logger_registry [])"
    unfolding r using copy_all_levels [OF ok] by blast+
qed

lemma default_file_name: "resolveFilename t usec ''myeasylog.log'' = Inr ''myeasylog.log''"
  by (simp add: resolveFilename_def npos_find_def)

lemma default_build:
  assumes "opens ''myeasylog.log''"
  shows "\<exists>tc. build user host t usec opens file_size (logger_registry []) (typed_empty []) = Inr (tc, file_size) \<and>
    one_file ''myeasylog.log'' tc \<and> (\<forall>l. l \<noteq> Unknown_level \<longrightarrow> unsafeGetConfigByVal 0 l (m_maxLogFileSizeMap tc) = 0) \<and>
    map_of (m_logFormatMap tc) Global \<noteq> None"
proof -
  let ?R = "logger_registry []"
  have ok: "registry_ok all_types ?R" by (rule logger_registry_ok) simp
  have val: "m_value c = v" if "c \<in> set ?R" "m_configurationType c = t" "all_levels t v ?R" for c t v
    using entry_value [of ?R c] keys_known [OF ok] ok that by (auto simp: registry_ok_def all_levels_def)
  have "\<forall>c \<in> set ?R. m_configurationType c \<in> {SubsecondPrecision, MaxLogFileSize, LogFlushThreshold} \<longrightarrow>
      (\<exists>n. getULong (m_value c) = Inr n)"
    using val default_values(2-4) client_numbers by fastforce
  moreover have "\<forall>c \<in> set ?R. m_configurationType c = Filename \<longrightarrow> resolveFilename t usec (m_value c) = Inr ''myeasylog.log''"
    using val default_values(1) default_file_name by fastforce
  ultimately obtain tc where tc: "build user host t usec opens file_size ?R (typed_empty []) = Inr (tc, file_size)"
    "one_file ''myeasylog.log'' tc" "\<forall>l. l \<noteq> Unknown_level \<longrightarrow> unsafeGetConfigByVal 0 l (m_maxLogFileSizeMap tc) = 0"
    using build_one_file [OF ok _ _ _ _ default_values(3) client_numbers(3), of t usec "''myeasylog.log''" opens "[]" file_size user host]
      assms by auto
  have "\<exists>w. unsafeGetConfigByRef Global (m_logFormatMap tc) = Inr w"
    using registry_lookup [OF ok, of Format Global logformat_assign "LogFormat_new user host"] build_maps [OF tc(1)]
    by (simp add: all_types_def)
  then have "map_of (m_logFormatMap tc) Global \<noteq> None" by (auto simp: unsafeGetConfigByRef_def deref_opt_def split: option.splits)
  with tc show ?thesis by blast
qed

section \<open>The start\<close>

text \<open>The default logger after the storage has been made, and after each configuration with the client's file\<close>

lemma storage_start:
  assumes "ce_opens ce ''myeasylog.log''"
  shows "\<exists>tc u. Storage_new ce out = Inr (\<lparr>rg_defaults = setToDefault [], rg_streams = m_logStreamsReference tc,
      rg_loggers = [''default'' \<mapsto> \<lparr>rl_id = ''default'', rl_typed = Some tc, rl_app = '''', rl_unflushed = u, rl_stream = '''',
        rl_isConfigured = True, rl_configurations = logger_registry []\<rparr>]\<rparr>, out) \<and>
    one_file ''myeasylog.log'' tc \<and> (\<forall>l. l \<noteq> Unknown_level \<longrightarrow> unsafeGetConfigByVal 0 l (m_maxLogFileSizeMap tc) = 0) \<and>
    (\<forall>n. n \<noteq> ''myeasylog.log'' \<longrightarrow> map_of (m_logStreamsReference tc) n = None)"
proof -
  let ?R = "logger_registry []" and ?f = "''myeasylog.log''"
  have r: "?R = setFromBase (Some (setToDefault [])) (rl_configurations (Reg_Logger_new ''default''))"
    by (simp add: logger_registry_def setFromBase_def Reg_Logger_new_def rl_initUnflushedCount_def)
  obtain tc where tc: "build (ce_user ce) (ce_host ce) (ce_time ce) (ce_usec ce) (ce_opens ce) (ce_sizes ce) ?R (typed_empty []) = Inr (tc, ce_sizes ce)"
    "one_file ?f tc" "\<forall>l. l \<noteq> Unknown_level \<longrightarrow> unsafeGetConfigByVal 0 l (m_maxLogFileSizeMap tc) = 0" "map_of (m_logFormatMap tc) Global \<noteq> None"
    using default_build [of "ce_opens ce"] assms by blast
  have ok: "registry_ok all_types ?R" by (rule logger_registry_ok) simp
  have "m_value c = ?f" if "c \<in> set ?R" "m_configurationType c = Filename" for c
    using entry_value [of ?R c] keys_known [OF ok] ok default_values(1) that by (auto simp: registry_ok_def all_levels_def)
  then have files: "\<forall>c \<in> set ?R. m_configurationType c = Filename \<longrightarrow> resolveFilename (ce_time ce) (ce_usec ce) (m_value c) = Inr ?f"
    using default_file_name by simp
  have streams: "map_of (m_logStreamsReference tc) n = None" if "n \<noteq> ?f" for n
    using build_streams [OF tc(1) files that] by simp
  obtain m where m: "resolveLoggerFormatSpec (rl_id (Reg_Logger_new ''default'')) tc = Inr (tc\<lparr>m_logFormatMap := m\<rparr>)"
    using resolve_total [OF tc(4)] by blast
  have "idle out (Reg_Logger_new ''default'')" by (simp add: idle_def Reg_Logger_new_def rl_initUnflushedCount_def)
  from configure_step [OF this tc(1) r m] obtain u where
    "logger_configure ce (Some (setToDefault [])) (Reg_Logger_new ''default'') ([], out) =
      Inr (\<lparr>rl_id = ''default'', rl_typed = Some (tc\<lparr>m_logFormatMap := m\<rparr>), rl_app = '''', rl_unflushed = u, rl_stream = '''',
        rl_isConfigured = True, rl_configurations = ?R\<rparr>, m_logStreamsReference tc, out)"
    by (auto simp: Reg_Logger_new_def rl_initUnflushedCount_def)
  moreover have "isValidId ''default''" by (simp add: isValidId_def)
  moreover have "one_file ?f (tc\<lparr>m_logFormatMap := m\<rparr>)" using tc(2) by (simp add: one_file_def)
  ultimately show ?thesis using tc(3) streams
    by (intro exI [of _ "tc\<lparr>m_logFormatMap := m\<rparr>"] exI [of _ u])
      (simp add: Storage_new_def registered_get_def RegisteredLoggers_new_def)
qed

text \<open>A configuration with the values of the client's file\<close>

lemma client_configure:
  assumes n: "name = ''./log/client_'' @ log_date (ce_time ce) @ ''.log''" "ce_opens ce name"
      "map_of (rg_streams reg) name \<in> {None, Some (Some name)}" "ce_sizes ce name < 209715200"
    and lg: "rg_loggers reg ''default'' = Some lg" "rl_id lg = ''default''" "idle out lg"
      "setFromBase (Some (conf_list (Configurations_new (Some log_conf) True None))) (rl_configurations lg) = client_registry"
  shows "\<exists>tc u. configure_registered ce (Some (conf_list (Configurations_new (Some log_conf) True None))) ''default'' (reg, out) =
      Inr (reg\<lparr>rg_streams := m_logStreamsReference tc, rg_loggers := (rg_loggers reg)(''default'' \<mapsto>
        lg\<lparr>rl_unflushed := u, rl_configurations := client_registry, rl_typed := Some tc, rl_isConfigured := True\<rparr>)\<rparr>, out) \<and>
    client_typed name tc \<and> one_file name tc \<and> dom u = counted \<and>
    (\<forall>l. l \<noteq> Unknown_level \<longrightarrow> unsafeGetConfigByVal 0 l (m_maxLogFileSizeMap tc) = 209715200) \<and>
    (\<forall>k. k \<noteq> name \<longrightarrow> map_of (m_logStreamsReference tc) k = map_of (rg_streams reg) k)"
proof -
  obtain tc where tc: "build (ce_user ce) (ce_host ce) (ce_time ce) (ce_usec ce) (ce_opens ce) (ce_sizes ce) client_registry
      (typed_empty (rg_streams reg)) = Inr (tc, ce_sizes ce)"
    "resolveLoggerFormatSpec (rl_id lg) tc = Inr tc" "client_typed name tc"
    using client_values [OF n(1), of "ce_opens ce"] n(2-4) by blast
  have val: "m_value c = v" if "c \<in> set client_registry" "m_configurationType c = t" "all_levels t v client_registry" for c t v
    using client_entry that by blast
  have nums: "\<forall>c \<in> set client_registry. m_configurationType c \<in> {SubsecondPrecision, MaxLogFileSize, LogFlushThreshold} \<longrightarrow>
      (\<exists>n. getULong (m_value c) = Inr n)"
    using val client_registry_values client_flush_threshold client_numbers by fastforce
  have files: "\<forall>c \<in> set client_registry. m_configurationType c = Filename \<longrightarrow>
      resolveFilename (ce_time ce) (ce_usec ce) (m_value c) = Inr name"
    using val client_registry_values(2) log_file_name n(1) by fastforce
  obtain tc' where tc': "build (ce_user ce) (ce_host ce) (ce_time ce) (ce_usec ce) (ce_opens ce) (ce_sizes ce) client_registry
      (typed_empty (rg_streams reg)) = Inr (tc', ce_sizes ce)" "one_file name tc'"
    "\<forall>l. l \<noteq> Unknown_level \<longrightarrow> unsafeGetConfigByVal 0 l (m_maxLogFileSizeMap tc') = 209715200"
    using build_one_file [where user = "ce_user ce" and host = "ce_host ce" and R = client_registry and t = "ce_time ce" and usec = "ce_usec ce"
          and name = name and opens = "ce_opens ce" and streams = "rg_streams reg" and file_size = "ce_sizes ce",
        OF client_registry_ok(1) nums files n(2,3) client_registry_values(7) client_numbers(1)] n(4) by blast
  then have "one_file name tc" "\<forall>l. l \<noteq> Unknown_level \<longrightarrow> unsafeGetConfigByVal 0 l (m_maxLogFileSizeMap tc) = 209715200"
    using tc(1) by simp_all
  moreover obtain u where "logger_configure ce (Some (conf_list (Configurations_new (Some log_conf) True None))) lg (rg_streams reg, out) =
      Inr (lg\<lparr>rl_unflushed := u, rl_configurations := client_registry, rl_typed := Some tc, rl_isConfigured := True\<rparr>,
        m_logStreamsReference tc, out)" "dom u = counted"
    using configure_step [OF lg(3) tc(1) lg(4) [symmetric] tc(2)] by blast
  moreover have "\<forall>k. k \<noteq> name \<longrightarrow> map_of (m_logStreamsReference tc) k = map_of (rg_streams reg) k"
    using build_streams [OF tc(1) files] by blast
  ultimately show ?thesis using lg(1) tc(3) by (auto simp: configure_registered_def)
qed

text \<open>A logger that the client's values configure, between two statements\<close>

definition ready :: "string \<Rightarrow> Reg_Logger \<Rightarrow> bool" where
  "ready name lg \<longleftrightarrow> (\<exists>tc. rl_typed lg = Some tc \<and> client_typed name tc) \<and> counted \<subseteq> dom (rl_unflushed lg) \<and> rl_stream lg = ''''"

lemma level_counted: "l \<notin> {Global, Unknown_level} \<Longrightarrow> l \<in> counted"
  by (cases l) (simp_all add: forEachLevel_eval level_from_int_def)

lemma LOG_ready:
  assumes "rg_loggers reg ''default'' = Some lg" "ready name lg" "plain_site name env site" "msg_level site \<noteq> Fatal"
  shows "\<exists>lg'. LOG_default env site parts (reg, out) = Inr (False, reg\<lparr>rg_loggers := (rg_loggers reg)(''default'' \<mapsto> lg')\<rparr>,
      after_line name (line_text env site (concat parts)) out) \<and> ready name lg'"
proof -
  obtain tc where tc: "rl_typed lg = Some tc" "client_typed name tc" "counted \<subseteq> dom (rl_unflushed lg)" "rl_stream lg = ''''"
    using assms(2) unfolding ready_def by blast
  have "msg_level site \<in> dom (rl_unflushed lg)" using assms(3) tc(3) level_counted unfolding plain_site_def by blast
  then obtain u where "LOG env site parts (as_logger tc lg, out) = Inr (False, (as_logger tc lg)\<lparr>lg_unflushed := u, lg_stream := ''''\<rparr>,
      after_line name (line_text env site (concat parts)) out)" "dom u = dom (rl_unflushed lg)"
    using LOG_client [of name "as_logger tc lg" env site parts out] assms(3,4) tc(2,4) by (auto simp: as_logger_def)
  then show ?thesis using assms(1) tc
    by (intro exI [of _ "lg\<lparr>rl_unflushed := u, rl_stream := ''''\<rparr>"]) (simp add: LOG_default_def ready_def)
qed

text \<open>The logger of the client before its first statement\<close>

lemma client_started:
  assumes files: "name1 = ''./log/client_'' @ log_date (ce_time ce1) @ ''.log''" "name = ''./log/client_'' @ log_date (ce_time ce2) @ ''.log''"
      "ce_opens ce0 ''myeasylog.log''" "ce_opens ce1 name1" "ce_opens ce2 name"
      "ce_sizes ce1 name1 < 209715200" "ce_sizes ce2 name < 209715200"
    and fresh: "buffered out = (\<lambda>_. '''')" "length (on_disk out name1) < 209715200"
  shows "\<exists>reg lg. client_log_main ce0 ce1 ce2 [''default''] (Some log_conf) out = Inr (reg, out) \<and>
    rg_loggers reg = [''default'' \<mapsto> lg] \<and> ready name lg"
proof -
  let ?conf = "conf_list (Configurations_new (Some log_conf) True None)"
  obtain tc u where st: "Storage_new ce0 out = Inr (\<lparr>rg_defaults = setToDefault [], rg_streams = m_logStreamsReference tc,
      rg_loggers = [''default'' \<mapsto> \<lparr>rl_id = ''default'', rl_typed = Some tc, rl_app = '''', rl_unflushed = u, rl_stream = '''',
        rl_isConfigured = True, rl_configurations = logger_registry []\<rparr>]\<rparr>, out)"
    and tc: "one_file ''myeasylog.log'' tc" "\<forall>l. l \<noteq> Unknown_level \<longrightarrow> unsafeGetConfigByVal 0 l (m_maxLogFileSizeMap tc) = 0"
      "\<forall>n. n \<noteq> ''myeasylog.log'' \<longrightarrow> map_of (m_logStreamsReference tc) n = None"
    using storage_start [of ce0 out] files(3) by blast
  let ?lg = "\<lparr>rl_id = ''default'', rl_typed = Some tc, rl_app = '''', rl_unflushed = u, rl_stream = '''',
        rl_isConfigured = True, rl_configurations = logger_registry []\<rparr>"
  let ?reg = "\<lparr>rg_defaults = setToDefault [], rg_streams = m_logStreamsReference tc, rg_loggers = [''default'' \<mapsto> ?lg]\<rparr>"
  have "idle out ?lg" using idle_oneI [of "''myeasylog.log''" tc 0 out ?lg] tc(1,2) fresh(1) by simp
  moreover have "setFromBase (Some ?conf) (rl_configurations ?lg) = client_registry"
    by (simp add: client_registry_def logger_registry_def) (simp add: setFromBase_def)
  ultimately obtain tc1 u1 where 1: "configure_registered ce1 (Some ?conf) ''default'' (?reg, out) =
      Inr (?reg\<lparr>rg_streams := m_logStreamsReference tc1, rg_loggers := (rg_loggers ?reg)(''default'' \<mapsto>
        ?lg\<lparr>rl_unflushed := u1, rl_configurations := client_registry, rl_typed := Some tc1, rl_isConfigured := True\<rparr>)\<rparr>, out)"
    "one_file name1 tc1" "\<forall>l. l \<noteq> Unknown_level \<longrightarrow> unsafeGetConfigByVal 0 l (m_maxLogFileSizeMap tc1) = 209715200"
    "\<forall>k. k \<noteq> name1 \<longrightarrow> map_of (m_logStreamsReference tc1) k = map_of (m_logStreamsReference tc) k"
    using client_configure [of name1 ce1 ?reg ?lg out] files(1,4,6) tc(3) by auto
  let ?lg1 = "?lg\<lparr>rl_unflushed := u1, rl_configurations := client_registry, rl_typed := Some tc1, rl_isConfigured := True\<rparr>"
  let ?reg1 = "?reg\<lparr>rg_streams := m_logStreamsReference tc1, rg_loggers := (rg_loggers ?reg)(''default'' \<mapsto> ?lg1)\<rparr>"
  have "idle out ?lg1" using idle_oneI [of name1 tc1 209715200 out ?lg1] 1(2,3) fresh by simp
  moreover have "map_of (m_logStreamsReference tc1) name \<in> {None, Some (Some name)}"
    using 1(2,4) tc(3) files(1,2) by (cases "name = name1") (auto simp: one_file_def)
  ultimately obtain tc2 u2 where 2: "configure_registered ce2 (Some ?conf) ''default'' (?reg1, out) =
      Inr (?reg1\<lparr>rg_streams := m_logStreamsReference tc2, rg_loggers := (rg_loggers ?reg1)(''default'' \<mapsto>
        ?lg1\<lparr>rl_unflushed := u2, rl_configurations := client_registry, rl_typed := Some tc2, rl_isConfigured := True\<rparr>)\<rparr>, out)"
    "client_typed name tc2" "dom u2 = counted"
    using client_configure [of name ce2 ?reg1 ?lg1 out] files(2,5,7) client_registry_again by auto
  let ?lg2 = "?lg1\<lparr>rl_unflushed := u2, rl_configurations := client_registry, rl_typed := Some tc2, rl_isConfigured := True\<rparr>"
  let ?reg2 = "?reg1\<lparr>rg_streams := m_logStreamsReference tc2, rg_loggers := (rg_loggers ?reg1)(''default'' \<mapsto> ?lg2)\<rparr>"
  have main: "client_log_main ce0 ce1 ce2 [''default''] (Some log_conf) out = Inr (?reg2, out)"
    using st 1(1) 2(1) by (simp add: client_log_main_def reconfigureLogger_def reconfigureAllLoggers_def registered_get_def)
  have "counted \<subseteq> dom u2" using 2(3) by simp
  then have "ready name ?lg2" using 2(2) by (simp add: ready_def)
  moreover have "rg_loggers ?reg2 = [''default'' \<mapsto> ?lg2]" by simp
  ultimately show ?thesis using main by blast
qed

section \<open>Property\<close>

text \<open>
  C33. The client's log, from the start of the process: after the storage with its default logger
  has been made and \<open>main\<close> has configured it twice with \<open>log.conf\<close>, the first statement appends
  exactly one line, with the date, the name of the level and the message, to the file that is named
  after the hour of the second configuration, and flushes it; no other file is touched, nothing is
  printed, and the logger is ready for the next message.
\<close>

theorem client_log_start:
  assumes files: "name1 = ''./log/client_'' @ log_date (ce_time ce1) @ ''.log''" "name = ''./log/client_'' @ log_date (ce_time ce2) @ ''.log''"
      "ce_opens ce0 ''myeasylog.log''" "ce_opens ce1 name1" "ce_opens ce2 name"
      "ce_sizes ce1 name1 < 209715200" "ce_sizes ce2 name < 209715200"
    and fresh: "buffered out = (\<lambda>_. '''')" "length (on_disk out name1) < 209715200"
    and site: "level_values (msg_level site) = Some (v, s)" "msg_level site \<noteq> Fatal" "\<not> env_fails env name" "env_specifiers env = []"
      "env_flags env \<inter> {HierarchicalLogging, AutoSpacing, StrictLogFileSizeCheck} = {}"
    and content: "content = on_disk out name @
      ''['' @ stamp (env_time env) (env_usec env) @ '' | '' @ v @ ''] | '' @ concat parts @ [CHR 0x0A]"
  shows "\<exists>reg reg' out' lg. client_log_main ce0 ce1 ce2 [''default''] (Some log_conf) out = Inr (reg, out) \<and>
    dom (rg_loggers reg) = {''default''} \<and> LOG_default env site parts (reg, out) = Inr (False, reg', out') \<and>
    on_disk out' = (on_disk out)(name := if length content < 209715200 then content else '''') \<and> buffered out' = (\<lambda>_. '''') \<and>
    std_out out' = std_out out \<and> rg_loggers reg' ''default'' = Some lg \<and> rl_stream lg = ''''"
proof -
  obtain reg lg where reg: "client_log_main ce0 ce1 ce2 [''default''] (Some log_conf) out = Inr (reg, out)"
    "rg_loggers reg = [''default'' \<mapsto> lg]" "ready name lg"
    using client_started [OF files fresh] by blast
  have "msg_level site \<notin> {Global, Unknown_level}" using site(1) by (auto simp: level_values_def)
  then have "plain_site name env site" using site(2-5) by (simp add: plain_site_def)
  then obtain lg' where "LOG_default env site parts (reg, out) = Inr (False, reg\<lparr>rg_loggers := (rg_loggers reg)(''default'' \<mapsto> lg')\<rparr>,
      after_line name (line_text env site (concat parts)) out)" "ready name lg'"
    using LOG_ready [of reg lg name env site parts out] reg(2,3) site(2) by auto
  moreover have "after_line name (line_text env site (concat parts)) out =
      out\<lparr>on_disk := (on_disk out)(name := if length content < 209715200 then content else ''''), buffered := \<lambda>_. ''''\<rparr>"
    using site(1) content fresh(1) by (auto simp: after_line_def line_text_def limit_def Let_def fun_eq_iff)
  ultimately show ?thesis using reg(1,2) by (auto simp: ready_def)
qed

abbreviation demo_conf :: Conf_Env where
  "demo_conf \<equiv> \<lparr>ce_user = ''u'', ce_host = ''h'', ce_time = demo_time, ce_usec = 0, ce_opens = \<lambda>_. True, ce_sizes = \<lambda>_. 0\<rparr>"

theorem client_log_start_witness:
  "\<exists>reg reg' out'. client_log_main demo_conf demo_conf demo_conf [''default''] (Some log_conf) demo_sinks = Inr (reg, demo_sinks) \<and>
     LOG_default demo_env demo_site [''Client '', ''start''] (reg, demo_sinks) = Inr (False, reg', out') \<and>
     on_disk out' ''./log/client_2024040815.log'' = ''[2024-04-08 15:05:00,000 | INFO] | Client start'' @ [CHR 0x0A]"
proof -
  have "localBuff 2024 4 = ''2024''" "localBuff 4 2 = ''04''" "localBuff 8 2 = ''08''" "localBuff 15 2 = ''15''"
    "localBuff 5 2 = ''05''" "localBuff 0 2 = ''00''" "localBuff 0 3 = ''000''" by code_simp+
  then have st: "stamp (env_time demo_env) (env_usec demo_env) = ''2024-04-08 15:05:00,000''" by (simp add: stamp_def)
  have v: "level_values (msg_level demo_site) = Some (''INFO'', ''I'')" by (simp add: level_values_def)
  have name: "''./log/client_2024040815.log'' = ''./log/client_'' @ log_date (ce_time demo_conf) @ ''.log''"
    using demo_log_name by simp
  obtain reg reg' out' where
    "client_log_main demo_conf demo_conf demo_conf [''default''] (Some log_conf) demo_sinks = Inr (reg, demo_sinks)"
    "LOG_default demo_env demo_site [''Client '', ''start''] (reg, demo_sinks) = Inr (False, reg', out')"
    and disk: "on_disk out' = (on_disk demo_sinks)(''./log/client_2024040815.log'' :=
      (let content = on_disk demo_sinks ''./log/client_2024040815.log'' @ ''['' @ stamp (env_time demo_env) (env_usec demo_env) @
         '' | '' @ ''INFO'' @ ''] | '' @ concat [''Client '', ''start''] @ [CHR 0x0A] in if length content < 209715200 then content else ''''))"
    using client_log_start [OF name name _ _ _ _ _ _ _ v _ _ _ _ refl, of demo_conf demo_sinks demo_env "[''Client '', ''start'']"]
    unfolding Let_def by (elim meta_impE exE conjE) simp_all
  moreover have "on_disk out' ''./log/client_2024040815.log'' = ''[2024-04-08 15:05:00,000 | INFO] | Client start'' @ [CHR 0x0A]"
    using disk st by simp
  ultimately show ?thesis by blast
qed

end
