(* ===== verification/Log_Filters.thy ===== *)
theory Log_Filters
  imports Client Log_Start
begin

text \<open>
  \<open>easylogging++.cc\<close>, which statements are written: the hit counters of occasional statements, the
  levels of verbose ones by module, and the program arguments that set them.
\<close>

section \<open>Hit counters\<close>

record HitCounter =
  hc_filename :: string
  hc_lineNumber :: nat
  hc_hitCounts :: "64 word"

definition HitCounter_new :: "string \<Rightarrow> nat \<Rightarrow> HitCounter" where
  "HitCounter_new file line = \<lparr>hc_filename = file, hc_lineNumber = line, hc_hitCounts = 0\<rparr>"

definition hc_predicate :: "string \<Rightarrow> nat \<Rightarrow> HitCounter \<Rightarrow> bool" where
  "hc_predicate file line c \<longleftrightarrow> hc_filename c = file \<and> hc_lineNumber c = line"

definition kMaxLogPerCounter :: "64 word" where
  "kMaxLogPerCounter = 100000"

definition validateHitCounts :: "64 word \<Rightarrow> HitCounter \<Rightarrow> HitCounter" where
  "validateHitCounts n c =
     (let h = (if kMaxLogPerCounter \<le> hc_hitCounts c then if 1 \<le> n then kMaxLogPerCounter mod n else 0 else hc_hitCounts c)
      in c\<lparr>hc_hitCounts := h + 1\<rparr>)"

definition hc_increment :: "HitCounter \<Rightarrow> HitCounter" where
  "hc_increment c = c\<lparr>hc_hitCounts := hc_hitCounts c + 1\<rparr>"

text \<open>
  The counter that \<open>get\<close> finds, or the new one that is registered; and the vector after this
  counter, to which the code has a pointer, has changed.
\<close>

definition the_counter :: "string \<Rightarrow> nat \<Rightarrow> HitCounter list \<Rightarrow> HitCounter" where
  "the_counter file line cs = (case find (hc_predicate file line) cs of None \<Rightarrow> HitCounter_new file line | Some c \<Rightarrow> c)"

fun set_counter :: "string \<Rightarrow> nat \<Rightarrow> HitCounter \<Rightarrow> HitCounter list \<Rightarrow> HitCounter list" where
  "set_counter file line c' [] = [c']"
| "set_counter file line c' (c # cs) = (if hc_predicate file line c then c' # cs else c # set_counter file line c' cs)"

definition validateEveryN :: "string \<Rightarrow> nat \<Rightarrow> 64 word \<Rightarrow> HitCounter list \<Rightarrow> bool \<times> HitCounter list" where
  "validateEveryN file line n cs =
     (let c = validateHitCounts n (the_counter file line cs)
      in (1 \<le> n \<and> hc_hitCounts c \<noteq> 0 \<and> hc_hitCounts c mod n = 0, set_counter file line c cs))"

definition validateAfterN :: "string \<Rightarrow> nat \<Rightarrow> 64 word \<Rightarrow> HitCounter list \<Rightarrow> bool \<times> HitCounter list" where
  "validateAfterN file line n cs =
     (let c = the_counter file line cs
      in if n \<le> hc_hitCounts c then (True, set_counter file line c cs)
         else (False, set_counter file line (hc_increment c) cs))"

definition validateNTimes :: "string \<Rightarrow> nat \<Rightarrow> 64 word \<Rightarrow> HitCounter list \<Rightarrow> bool \<times> HitCounter list" where
  "validateNTimes file line n cs =
     (let c = hc_increment (the_counter file line cs)
      in (hc_hitCounts c \<le> n, set_counter file line c cs))"

text \<open>The macros \<open>LOG_EVERY_N\<close>, \<open>LOG_AFTER_N\<close> and \<open>LOG_N_TIMES\<close>: a test, and the statement behind \<open>&&\<close>\<close>

datatype Occasion = Every_N "64 word" | After_N "64 word" | N_Times "64 word"

definition validate_occasion :: "Occasion \<Rightarrow> string \<Rightarrow> nat \<Rightarrow> HitCounter list \<Rightarrow> bool \<times> HitCounter list" where
  "validate_occasion occ file line cs =
     (case occ of Every_N n \<Rightarrow> validateEveryN file line n cs | After_N n \<Rightarrow> validateAfterN file line n cs
      | N_Times n \<Rightarrow> validateNTimes file line n cs)"

definition LOG_occasion :: "Log_Env \<Rightarrow> Occasion \<Rightarrow> LogMessage \<Rightarrow> string list \<Rightarrow> HitCounter list \<times> RegisteredLoggers \<times> Log_Sinks \<Rightarrow>
    (bool \<times> HitCounter list \<times> RegisteredLoggers \<times> Log_Sinks) result" where
  "LOG_occasion env occ site parts st =
     (let (cs, io) = st; (go, cs') = validate_occasion occ (msg_file site) (msg_line site) cs
      in if go then andThen (LOG_default env site parts io) (\<lambda>(aborts, io'). Inr (aborts, cs', io'))
         else Inr (False, cs', io))"

text \<open>\<open>LOG_IF\<close>\<close>

definition LOG_IF :: "bool \<Rightarrow> Log_Env \<Rightarrow> LogMessage \<Rightarrow> string list \<Rightarrow> RegisteredLoggers \<times> Log_Sinks \<Rightarrow>
    (bool \<times> RegisteredLoggers \<times> Log_Sinks) result" where
  "LOG_IF condition env site parts st = (if condition then LOG_default env site parts st else Inr (False, st))"

section \<open>Arguments of the program\<close>

text \<open>\<open>m_argc\<close> and \<open>m_argv\<close> are not initialised (\<open>None\<close>) before a call with arguments.\<close>

record CommandLineArgs =
  ca_argv :: "string list option"
  ca_paramsWithValue :: "(string \<times> string) list"
  ca_params :: "string list"

definition hasParamWithValue :: "string \<Rightarrow> CommandLineArgs \<Rightarrow> bool" where
  "hasParamWithValue paramKey c \<longleftrightarrow> map_of (ca_paramsWithValue c) paramKey \<noteq> None"

definition getParamValue :: "string \<Rightarrow> CommandLineArgs \<Rightarrow> string" where
  "getParamValue paramKey c = (case map_of (ca_paramsWithValue c) paramKey of None \<Rightarrow> '''' | Some v \<Rightarrow> v)"

definition hasParam :: "string \<Rightarrow> CommandLineArgs \<Rightarrow> bool" where
  "hasParam paramKey c \<longleftrightarrow> paramKey \<in> set (ca_params c)"

definition args_empty :: "CommandLineArgs \<Rightarrow> bool" where
  "args_empty c \<longleftrightarrow> ca_params c = [] \<and> ca_paramsWithValue c = []"

definition args_size :: "CommandLineArgs \<Rightarrow> nat" where
  "args_size c = length (ca_params c) + length (ca_paramsWithValue c)"

definition set_arg :: "string \<Rightarrow> CommandLineArgs \<Rightarrow> CommandLineArgs" where
  "set_arg arg c =
     (case find_first ''='' arg of
        Some i \<Rightarrow>
          let key = take i arg
          in if hasParamWithValue key c then c
             else c\<lparr>ca_paramsWithValue := ca_paramsWithValue c @ [(key, drop (i + 1) arg)]\<rparr>
      | None \<Rightarrow> if hasParam arg c then c else c\<lparr>ca_params := ca_params c @ [arg]\<rparr>)"

definition setArgs :: "string list option \<Rightarrow> CommandLineArgs \<Rightarrow> CommandLineArgs" where
  "setArgs argv c =
     (let c1 = c\<lparr>ca_params := [], ca_paramsWithValue := []\<rparr>
      in case argv of
           None \<Rightarrow> c1
         | Some args \<Rightarrow> if args = [] then c1 else fold set_arg (tl args) (c1\<lparr>ca_argv := Some args\<rparr>))"

definition CommandLineArgs_new :: CommandLineArgs where
  "CommandLineArgs_new = setArgs None \<lparr>ca_argv = None, ca_paramsWithValue = [], ca_params = []\<rparr>"

definition print_args :: "CommandLineArgs \<Rightarrow> string result" where
  "print_args c =
     (case ca_argv c of
        None \<Rightarrow> Inl Undefined
      | Some args \<Rightarrow> Inr (concat (map (\<lambda>i. ''['' @ args ! i @ '']'' @ (if i < length args - 1 then '' '' else ''''))
          [1..<length args])))"

section \<open>Verbose levels by module\<close>

text \<open>The unordered map of modules is the list of its entries; the flags are those of the storage.\<close>

record VRegistry =
  vr_level :: "16 word"
  vr_modules :: "(string \<times> 16 word) list"

definition setLevel :: "16 word \<Rightarrow> VRegistry \<Rightarrow> VRegistry" where
  "setLevel level vr = vr\<lparr>vr_level := if 9 < level then 9 else level\<rparr>"

definition clearModules :: "VRegistry \<Rightarrow> VRegistry" where
  "clearModules vr = vr\<lparr>vr_modules := []\<rparr>"

definition vModulesEnabled :: "LoggingFlag set \<Rightarrow> bool" where
  "vModulesEnabled flags \<longleftrightarrow> DisableVModules \<notin> flags"

definition strip_suffix :: "string \<Rightarrow> string \<Rightarrow> string" where
  "strip_suffix ss sfx = (if endsWith ss sfx then take (length ss - length sfx) ss else ss)"

definition addSuffix :: "string \<Rightarrow> string option \<Rightarrow> string \<Rightarrow> string" where
  "addSuffix sfx prev ss =
     (let ss1 = (case prev of None \<Rightarrow> ss | Some p \<Rightarrow> strip_suffix ss p) in strip_suffix ss1 sfx @ sfx)"

text \<open>\<open>insert\<close> of a map keeps an entry that is there.\<close>

definition module_entry :: "16 word \<Rightarrow> string \<Rightarrow> (string \<times> 16 word) list \<Rightarrow> (string \<times> 16 word) list" where
  "module_entry level name ms = (if map_of ms name = None then ms @ [(name, level)] else ms)"

definition insert_module :: "LoggingFlag set \<Rightarrow> string \<Rightarrow> 16 word \<Rightarrow> (string \<times> 16 word) list \<Rightarrow> (string \<times> 16 word) list" where
  "insert_module flags name level ms =
     (let (ss, ms1) =
        (if DisableVModulesExtensions \<in> flags then (name, ms)
         else let (ss, ms1) = fold (\<lambda>(sfx, prev) (ss, ms). let s = addSuffix sfx prev ss in (s, module_entry level s ms))
                    [(''.h'', None), (''.c'', Some ''.h''), (''.cpp'', Some ''.c''), (''.cc'', Some ''.cpp''), (''.cxx'', Some ''.cc''),
                     (''.-inl.h'', Some ''.cxx''), (''.hxx'', Some ''.-inl.h''), (''.hpp'', Some ''.hxx'')] (name, ms)
              in (addSuffix ''.hh'' (Some ''.hpp'') ss, ms1))
      in module_entry level ss ms1)"

text \<open>
  The loop over the characters: whether a module or a level is read, the text of the module, the
  level (-1 is none), and the modules so far.
\<close>

fun setModules_loop :: "LoggingFlag set \<Rightarrow> string \<Rightarrow> bool \<Rightarrow> bool \<Rightarrow> string \<Rightarrow> int \<Rightarrow> (string \<times> 16 word) list \<Rightarrow>
    (string \<times> 16 word) list" where
  "setModules_loop flags [] inModule inLevel ss level ms =
     (if ss \<noteq> [] \<and> level \<noteq> -1 then insert_module flags ss (word_of_int level) ms else ms)"
| "setModules_loop flags (x # xs) inModule inLevel ss level ms =
     (if x = CHR ''='' then setModules_loop flags xs False True ss level ms
      else if x = CHR '','' then
        if ss \<noteq> [] \<and> level \<noteq> -1
        then setModules_loop flags xs True False '''' (-1) (insert_module flags ss (word_of_int level) ms)
        else setModules_loop flags xs True False ss level ms
      else if inModule then setModules_loop flags xs inModule inLevel (ss @ [x]) level ms
      else if inLevel \<and> is_digit x then setModules_loop flags xs inModule inLevel ss (of_char x - 48) ms
      else setModules_loop flags xs inModule inLevel ss level ms)"

definition setModules :: "LoggingFlag set \<Rightarrow> string \<Rightarrow> VRegistry \<Rightarrow> VRegistry" where
  "setModules flags modules vr = vr\<lparr>vr_modules := setModules_loop flags modules True False '''' (-1) (vr_modules vr)\<rparr>"

text \<open>\<open>order\<close> is the list of the modules in the iteration order of the map; a null file is \<open>None\<close>.\<close>

definition allowed :: "LoggingFlag set \<Rightarrow> (string \<times> 16 word) list \<Rightarrow> 16 word \<Rightarrow> string option \<Rightarrow> VRegistry \<Rightarrow> bool" where
  "allowed flags order vlevel file vr =
     (case file of
        None \<Rightarrow> vlevel \<le> vr_level vr
      | Some f \<Rightarrow>
          if vr_modules vr = [] then vlevel \<le> vr_level vr
          else case find (\<lambda>(pattern, _). wildCardMatch (base_name f) pattern) order of
                 Some (_, level) \<Rightarrow> vlevel \<le> level
               | None \<Rightarrow> AllowVerboseIfModuleNotSpecified \<in> flags)"

definition setFromArgs :: "LoggingFlag set \<Rightarrow> CommandLineArgs \<Rightarrow> VRegistry \<Rightarrow> VRegistry result" where
  "setFromArgs flags args vr =
     (let level = (\<lambda>key. andThen (atoi (Some (getParamValue key args))) (\<lambda>n. Inr (setLevel (word_of_int n) vr)))
      in if hasParam ''-v'' args \<or> hasParam ''--verbose'' args \<or> hasParam ''-V'' args \<or> hasParam ''--VERBOSE'' args
         then Inr (setLevel 9 vr)
         else if hasParamWithValue ''--v'' args then level ''--v''
         else if hasParamWithValue ''--V'' args then level ''--V''
         else if hasParamWithValue ''-vmodule'' args \<and> vModulesEnabled flags
         then Inr (setModules flags (getParamValue ''-vmodule'' args) vr)
         else if hasParamWithValue ''-VMODULE'' args \<and> vModulesEnabled flags
         then Inr (setModules flags (getParamValue ''-VMODULE'' args) vr)
         else Inr vr)"

text \<open>\<open>VLOG\<close>: the macro tests the module of its file, then a writer of the level \<open>Verbose\<close>.\<close>

definition VLOG :: "Log_Env \<Rightarrow> (string \<times> 16 word) list \<Rightarrow> VRegistry \<Rightarrow> LogMessage \<Rightarrow> string list \<Rightarrow>
    RegisteredLoggers \<times> Log_Sinks \<Rightarrow> (bool \<times> RegisteredLoggers \<times> Log_Sinks) result" where
  "VLOG env order vr site parts st =
     LOG_IF (allowed (env_flags env) order (of_nat (msg_verboseLevel site)) (Some (msg_file site)) vr) env
       (site\<lparr>msg_level := Verbose\<rparr>) parts st"

section \<open>The storage\<close>

record Storage =
  st_counters :: "HitCounter list"
  st_flags :: "LoggingFlag set"
  st_vRegistry :: VRegistry
  st_args :: CommandLineArgs
  st_specifiers :: "(string \<times> (LogMessage \<Rightarrow> string)) list"

definition Storage_start :: Storage where
  "Storage_start = \<lparr>st_counters = [], st_flags = {AllowVerboseIfModuleNotSpecified},
     st_vRegistry = \<lparr>vr_level = 0, vr_modules = []\<rparr>, st_args = CommandLineArgs_new, st_specifiers = []\<rparr>"

text \<open>\<open>setApplicationArguments\<close>: the argument \<open>--default-log-file\<close> configures every logger.\<close>

definition setApplicationArguments :: "Conf_Env \<Rightarrow> string list \<Rightarrow> string list option \<Rightarrow> Storage \<Rightarrow> RegisteredLoggers \<times> Log_Sinks \<Rightarrow>
    (Storage \<times> RegisteredLoggers \<times> Log_Sinks) result" where
  "setApplicationArguments ce order argv st io =
     (let args = setArgs argv (st_args st)
      in andThen (setFromArgs (st_flags st) args (st_vRegistry st)) (\<lambda>vr.
         andThen (if hasParamWithValue ''--default-log-file'' args
             then let c = setGlobally Filename (getParamValue ''--default-log-file'' args) False []
                  in andThen (setDefaultConfigurations ce order c False io) (reconfigureAllLoggers ce order c)
             else Inr io) (\<lambda>io'. Inr (st\<lparr>st_args := args, st_vRegistry := vr\<rparr>, io'))))"

definition hasCustomFormatSpecifier :: "string \<Rightarrow> Storage \<Rightarrow> bool" where
  "hasCustomFormatSpecifier spec st \<longleftrightarrow> (\<exists>(s, _) \<in> set (st_specifiers st). s = spec)"

definition installCustomFormatSpecifier :: "string \<times> (LogMessage \<Rightarrow> string) \<Rightarrow> Storage \<Rightarrow> Storage" where
  "installCustomFormatSpecifier spec st =
     (if hasCustomFormatSpecifier (fst spec) st then st else st\<lparr>st_specifiers := st_specifiers st @ [spec]\<rparr>)"

fun remove_first :: "string \<Rightarrow> (string \<times> 'a) list \<Rightarrow> (string \<times> 'a) list" where
  "remove_first spec [] = []"
| "remove_first spec (x # xs) = (if fst x = spec then xs else x # remove_first spec xs)"

definition uninstallCustomFormatSpecifier :: "string \<Rightarrow> Storage \<Rightarrow> bool \<times> Storage" where
  "uninstallCustomFormatSpecifier spec st =
     (if hasCustomFormatSpecifier spec st then (True, st\<lparr>st_specifiers := remove_first spec (st_specifiers st)\<rparr>) else (False, st))"

end
