(* ===== verification/Log_Filters_Facts.thy ===== *)
theory Log_Filters_Facts
  imports Log_Start_Facts Log_Filters
begin

text \<open>
  The facts of occasional and verbose statements: when the counters let a statement through, and what
  the arguments of the program mean for the modules.
\<close>

section \<open>Hit counters\<close>

definition hits :: "string \<Rightarrow> nat \<Rightarrow> HitCounter list \<Rightarrow> 64 word" where
  "hits f0 l0 cs = hc_hitCounts (the_counter f0 l0 cs)"

lemma the_counter_at [simp]: "hc_predicate f0 l0 (the_counter f0 l0 cs)"
  by (auto simp: the_counter_def HitCounter_new_def hc_predicate_def find_Some_iff split: option.splits)

lemma hits_set_counter:
  assumes "hc_predicate f0 l0 c"
  shows "hits f l (set_counter f0 l0 c cs) = (if f = f0 \<and> l = l0 then hc_hitCounts c else hits f l cs)"
  using assms by (induction cs) (auto simp: hits_def the_counter_def hc_predicate_def HitCounter_new_def)

text \<open>When the \<open>k\<close>-th execution of a statement writes\<close>

definition due :: "Occasion \<Rightarrow> nat \<Rightarrow> bool" where
  "due occ k \<longleftrightarrow> (case occ of Every_N n \<Rightarrow> n \<noteq> 0 \<and> unat n dvd k | After_N n \<Rightarrow> unat n < k | N_Times n \<Rightarrow> k \<le> unat n)"

definition counted_hits :: "Occasion \<Rightarrow> nat \<Rightarrow> 64 word \<Rightarrow> bool" where
  "counted_hits occ k h \<longleftrightarrow>
     (case occ of
        Every_N n \<Rightarrow> unat h \<le> 100000 \<and> (n \<noteq> 0 \<longrightarrow> unat h mod unat n = k mod unat n)
      | After_N n \<Rightarrow> unat h = min k (unat n)
      | N_Times n \<Rightarrow> unat h = k)"

definition occasion_ok :: "Occasion \<Rightarrow> bool" where
  "occasion_ok occ \<longleftrightarrow> (case occ of Every_N n \<Rightarrow> n \<le> kMaxLogPerCounter | _ \<Rightarrow> True)"

lemma counted_hits_0: "counted_hits occ 0 0"
  by (simp add: counted_hits_def split: Occasion.splits)

lemma unat_kMax: "unat kMaxLogPerCounter = 100000"
  by (simp add: kMaxLogPerCounter_def)

lemma unat_add_1: "unat (h :: 64 word) < 2 ^ 64 - 1 \<Longrightarrow> unat (h + 1) = Suc (unat h)"
  by (simp add: unat_word_ariths)

lemma reset_hits:
  fixes h n :: "64 word"
  assumes "unat h \<le> 100000" "n \<le> kMaxLogPerCounter"
  defines "h' \<equiv> (if kMaxLogPerCounter \<le> h then if 1 \<le> n then kMaxLogPerCounter mod n else 0 else h)"
  shows "unat (h' + 1) = Suc (unat h')" "unat (h' + 1) \<le> 100000" "n \<noteq> 0 \<Longrightarrow> unat h' mod unat n = unat h mod unat n"
proof -
  have n1: "1 \<le> n \<longleftrightarrow> n \<noteq> 0" by (simp add: word_le_nat_alt Suc_le_eq unat_gt_0)
  have c: "kMaxLogPerCounter \<le> h \<longleftrightarrow> unat h = 100000" using assms(1) by (auto simp: word_le_nat_alt unat_kMax)
  have n: "unat n \<le> 100000" using assms(2) by (simp add: word_le_nat_alt unat_kMax)
  have u: "unat h' = (if unat h = 100000 then if n \<noteq> 0 then 100000 mod unat n else 0 else unat h)"
    by (simp add: h'_def n1 c unat_mod unat_kMax)
  moreover have "n \<noteq> 0 \<Longrightarrow> 100000 mod unat n < 100000" using n
    by (meson less_le_trans mod_less_divisor unat_gt_0)
  ultimately have "unat h' < 100000" using assms(1) by (auto split: if_splits)
  then show "unat (h' + 1) = Suc (unat h')" "unat (h' + 1) \<le> 100000" using unat_add_1 [of h'] by simp_all
  show "n \<noteq> 0 \<Longrightarrow> unat h' mod unat n = unat h mod unat n" using u by simp
qed

lemma every_n_step:
  assumes "unat (hits f0 l0 cs) \<le> 100000" "n \<le> kMaxLogPerCounter" "n \<noteq> 0 \<longrightarrow> unat (hits f0 l0 cs) mod unat n = k mod unat n"
    and "validateEveryN f0 l0 n cs = (b, cs')"
  shows "b \<longleftrightarrow> n \<noteq> 0 \<and> unat n dvd Suc k"
    and "unat (hits f0 l0 cs') \<le> 100000" "n \<noteq> 0 \<longrightarrow> unat (hits f0 l0 cs') mod unat n = Suc k mod unat n"
    and "\<forall>f l. (f, l) \<noteq> (f0, l0) \<longrightarrow> hits f l cs' = hits f l cs"
proof -
  let ?h = "hits f0 l0 cs"
  let ?h' = "if kMaxLogPerCounter \<le> ?h then if 1 \<le> n then kMaxLogPerCounter mod n else 0 else ?h"
  note r = reset_hits [OF assms(1,2)]
  let ?c = "validateHitCounts n (the_counter f0 l0 cs)"
  have c: "hc_predicate f0 l0 ?c" "hc_hitCounts ?c = ?h' + 1"
    using the_counter_at [of f0 l0 cs] by (simp_all add: validateHitCounts_def hits_def hc_predicate_def Let_def)
  have v: "b = (1 \<le> n \<and> ?h' + 1 \<noteq> 0 \<and> (?h' + 1) mod n = 0)" "cs' = set_counter f0 l0 ?c cs"
    using assms(4) c(2) by (simp_all add: validateEveryN_def Let_def)
  have h': "hits f0 l0 cs' = ?h' + 1" "\<forall>f l. (f, l) \<noteq> (f0, l0) \<longrightarrow> hits f l cs' = hits f l cs"
    using hits_set_counter [OF c(1)] c(2) v(2) by simp_all
  have m: "unat (?h' + 1) mod unat n = Suc k mod unat n" if "n \<noteq> 0"
    using r(1) r(3) [OF that] assms(3) that by (metis mod_Suc_eq)
  have n1: "1 \<le> n \<longleftrightarrow> n \<noteq> 0" by (simp add: word_le_nat_alt Suc_le_eq unat_gt_0)
  have z: "?h' + 1 \<noteq> 0" using r(1) by (metis Zero_not_Suc unat_0)
  have d: "n \<noteq> 0 \<longrightarrow> (?h' + 1) mod n = 0 \<longleftrightarrow> unat n dvd Suc k"
    using m by (simp add: word_eq_iff_unsigned unat_mod dvd_eq_mod_eq_0 flip: unat_eq_0)
  show "b \<longleftrightarrow> n \<noteq> 0 \<and> unat n dvd Suc k" using v(1) z d n1 by metis
  show "unat (hits f0 l0 cs') \<le> 100000" using r(2) h'(1) by simp
  show "n \<noteq> 0 \<longrightarrow> unat (hits f0 l0 cs') mod unat n = Suc k mod unat n" using m h'(1) by simp
  show "\<forall>f l. (f, l) \<noteq> (f0, l0) \<longrightarrow> hits f l cs' = hits f l cs" using h'(2) .
qed

lemma after_n_step:
  assumes "unat (hits f0 l0 cs) = min k (unat n)" "validateAfterN f0 l0 n cs = (b, cs')"
  shows "b \<longleftrightarrow> unat n < Suc k" "unat (hits f0 l0 cs') = min (Suc k) (unat n)"
    and "\<forall>f l. (f, l) \<noteq> (f0, l0) \<longrightarrow> hits f l cs' = hits f l cs"
proof -
  let ?c = "the_counter f0 l0 cs"
  have g: "n \<le> hc_hitCounts ?c \<longleftrightarrow> unat n \<le> k" using assms(1) by (auto simp: word_le_nat_alt hits_def)
  have p: "hc_predicate f0 l0 (hc_increment ?c)"
    using the_counter_at [of f0 l0 cs] by (simp add: hc_increment_def hc_predicate_def)
  have v: "b = (unat n \<le> k)" "cs' = set_counter f0 l0 (if unat n \<le> k then ?c else hc_increment ?c) cs"
    using assms(2) by (auto simp: validateAfterN_def Let_def g split: if_splits)
  then show "b \<longleftrightarrow> unat n < Suc k" by (simp add: less_Suc_eq_le)
  have lim: "unat n < 2 ^ 64" using unsigned_less [of n] by simp
  have "unat (hits f0 l0 cs + 1) = Suc k" if "\<not> unat n \<le> k"
    using that assms(1) unat_add_1 [of "hits f0 l0 cs"] lim by simp
  then show "unat (hits f0 l0 cs') = min (Suc k) (unat n)"
    using assms(1) hits_set_counter [OF the_counter_at [of f0 l0 cs]] hits_set_counter [OF p] v(2)
    by (auto simp: hc_increment_def hits_def)
  show "\<forall>f l. (f, l) \<noteq> (f0, l0) \<longrightarrow> hits f l cs' = hits f l cs"
    using hits_set_counter [OF the_counter_at] hits_set_counter [OF p] v(2) by auto
qed

lemma n_times_step:
  assumes "unat (hits f0 l0 cs) = k" "Suc k < 2 ^ 64" "validateNTimes f0 l0 n cs = (b, cs')"
  shows "b \<longleftrightarrow> Suc k \<le> unat n" "unat (hits f0 l0 cs') = Suc k"
    and "\<forall>f l. (f, l) \<noteq> (f0, l0) \<longrightarrow> hits f l cs' = hits f l cs"
proof -
  let ?c = "hc_increment (the_counter f0 l0 cs)"
  have p: "hc_predicate f0 l0 ?c"
    using the_counter_at [of f0 l0 cs] by (simp add: hc_increment_def hc_predicate_def)
  have h: "hc_hitCounts ?c = hits f0 l0 cs + 1" by (simp add: hc_increment_def hits_def)
  have u: "unat (hits f0 l0 cs + 1) = Suc k" using assms(1,2) by (simp add: unat_word_ariths)
  have v: "b = (hits f0 l0 cs + 1 \<le> n)" "cs' = set_counter f0 l0 ?c cs"
    using assms(3) h by (simp_all add: validateNTimes_def Let_def)
  show "b \<longleftrightarrow> Suc k \<le> unat n" using v(1) u by (simp add: word_le_nat_alt)
  show "unat (hits f0 l0 cs') = Suc k" using hits_set_counter [OF p] h u v(2) by simp
  show "\<forall>f l. (f, l) \<noteq> (f0, l0) \<longrightarrow> hits f l cs' = hits f l cs" using hits_set_counter [OF p] v(2) by auto
qed

lemma occasion_step:
  assumes "counted_hits occ k (hits f0 l0 cs)" "occasion_ok occ" "Suc k < 2 ^ 64"
    and "validate_occasion occ f0 l0 cs = (b, cs')"
  shows "b \<longleftrightarrow> due occ (Suc k)" "counted_hits occ (Suc k) (hits f0 l0 cs')"
    and "\<forall>f l. (f, l) \<noteq> (f0, l0) \<longrightarrow> hits f l cs' = hits f l cs"
proof -
  have "(b \<longleftrightarrow> due occ (Suc k)) \<and> counted_hits occ (Suc k) (hits f0 l0 cs') \<and>
      (\<forall>f l. (f, l) \<noteq> (f0, l0) \<longrightarrow> hits f l cs' = hits f l cs)"
  proof (cases occ)
    case (Every_N n)
    with assms every_n_step [of f0 l0 cs n k b cs'] show ?thesis
      by (simp add: counted_hits_def occasion_ok_def due_def validate_occasion_def)
  next
    case (After_N n)
    with assms after_n_step [of f0 l0 cs k n b cs'] show ?thesis
      by (simp add: counted_hits_def due_def validate_occasion_def)
  next
    case (N_Times n)
    with assms n_times_step [of f0 l0 cs k n b cs'] show ?thesis
      by (simp add: counted_hits_def due_def validate_occasion_def)
  qed
  then show "b \<longleftrightarrow> due occ (Suc k)" "counted_hits occ (Suc k) (hits f0 l0 cs')"
    and "\<forall>f l. (f, l) \<noteq> (f0, l0) \<longrightarrow> hits f l cs' = hits f l cs" by blast+
qed

text \<open>A statement for every more than 100000 executions: the counter is reset to the same value again and again.\<close>

lemma large_occasion_sticks:
  assumes "kMaxLogPerCounter < n" "hits f0 l0 cs = kMaxLogPerCounter + 1" "validateEveryN f0 l0 n cs = (b, cs')"
  shows "b \<longleftrightarrow> n = kMaxLogPerCounter + 1" "hits f0 l0 cs' = kMaxLogPerCounter + 1"
proof -
  let ?c = "validateHitCounts n (the_counter f0 l0 cs)"
  have m: "kMaxLogPerCounter mod n = kMaxLogPerCounter" using assms(1)
    by (simp add: word_less_nat_alt unat_mod word_unat_eq_iff)
  have n1: "1 \<le> n" using assms(1) by (simp add: word_less_nat_alt word_le_nat_alt)
  have c: "hc_predicate f0 l0 ?c" "hc_hitCounts ?c = kMaxLogPerCounter + 1"
    using the_counter_at [of f0 l0 cs] assms(2) m n1
    by (simp_all add: validateHitCounts_def hits_def hc_predicate_def Let_def kMaxLogPerCounter_def)
  have "(kMaxLogPerCounter + 1) mod n = 0 \<longleftrightarrow> n = kMaxLogPerCounter + 1"
  proof -
    have "100000 < unat n" using assms(1) by (simp add: word_less_nat_alt unat_kMax)
    then have "100001 mod unat n = 0 \<longleftrightarrow> unat n = 100001" by (cases "unat n = 100001") auto
    then show ?thesis by (simp add: word_unat_eq_iff unat_mod kMaxLogPerCounter_def)
  qed
  with assms(3) c n1 show "b \<longleftrightarrow> n = kMaxLogPerCounter + 1"
    by (simp add: validateEveryN_def Let_def kMaxLogPerCounter_def)
  show "hits f0 l0 cs' = kMaxLogPerCounter + 1"
    using assms(3) hits_set_counter [OF c(1)] c(2) by (auto simp: validateEveryN_def Let_def)
qed

text \<open>A run of such statements, and the lines that are due; \<open>n\<close> counts the executions at every place.\<close>

type_synonym occasional = "Log_Env \<times> Occasion \<times> LogMessage \<times> string list"

fun LOG_occasions :: "occasional list \<Rightarrow> HitCounter list \<times> RegisteredLoggers \<times> Log_Sinks \<Rightarrow>
    (HitCounter list \<times> RegisteredLoggers \<times> Log_Sinks) result" where
  "LOG_occasions [] st = Inr st"
| "LOG_occasions ((env, occ, site, parts) # es) st =
     andThen (LOG_occasion env occ site parts st) (\<lambda>(_, st'). LOG_occasions es st')"

definition place :: "LogMessage \<Rightarrow> string \<times> nat" where
  "place site = (msg_file site, msg_line site)"

fun due_lines :: "(string \<times> nat \<Rightarrow> nat) \<Rightarrow> occasional list \<Rightarrow> string" where
  "due_lines n [] = ''''"
| "due_lines n ((env, occ, site, parts) # es) =
     (if due occ (Suc (n (place site))) then line_text env site (concat parts) else '''') @
     due_lines (n(place site := Suc (n (place site)))) es"

lemma occasions_run:
  assumes "rg_loggers reg ''default'' = Some lg" "ready name lg" "buffered out name = ''''"
    and "\<forall>(env, occ, site, parts) \<in> set es. plain_site name env site \<and> msg_level site \<noteq> Fatal \<and> occasion_ok occ \<and> occ = occ_at (place site)"
    and "\<forall>f l. counted_hits (occ_at (f, l)) (n (f, l)) (hits f l cs)" "\<forall>p. n p + length es < 2 ^ 64"
    and "length (on_disk out name @ due_lines n es) < limit"
  shows "\<exists>cs' reg' out'. LOG_occasions es (cs, reg, out) = Inr (cs', reg', out') \<and>
    on_disk out' = (on_disk out)(name := on_disk out name @ due_lines n es) \<and> buffered out' = buffered out \<and> std_out out' = std_out out"
  using assms
proof (induction es arbitrary: reg lg cs n out)
  case (Cons x es)
  obtain env occ site parts where x: "x = (env, occ, site, parts)" by (cases x)
  have site: "plain_site name env site" "msg_level site \<noteq> Fatal" "occasion_ok occ" "occ = occ_at (place site)"
    using Cons.prems(4) x by auto
  obtain b cs1 where v: "validate_occasion occ (msg_file site) (msg_line site) cs = (b, cs1)"
    by (cases "validate_occasion occ (msg_file site) (msg_line site) cs")
  let ?n = "n(place site := Suc (n (place site)))"
  have c: "counted_hits occ (n (place site)) (hits (msg_file site) (msg_line site) cs)" "Suc (n (place site)) < 2 ^ 64"
    using Cons.prems(5) spec [OF Cons.prems(6), of "place site"] site(4) by (simp_all add: place_def)
  note step = occasion_step [OF c(1) site(3) c(2) v]
  have cs1: "\<forall>f l. counted_hits (occ_at (f, l)) (?n (f, l)) (hits f l cs1)"
    using step(2,3) Cons.prems(5) site(4) by (simp add: place_def)
  have len: "\<forall>p. ?n p + length es < 2 ^ 64"
  proof
    fix p show "?n p + length es < 2 ^ 64" using spec [OF Cons.prems(6), of p] by (cases "p = place site") simp_all
  qed
  have rest: "\<forall>(env, occ, site, parts) \<in> set es. plain_site name env site \<and> msg_level site \<noteq> Fatal \<and> occasion_ok occ \<and> occ = occ_at (place site)"
    using Cons.prems(4) by simp
  let ?l = "line_text env site (concat parts)"
  show ?case
  proof (cases b)
    case True
    let ?out = "after_line name ?l out" and ?reg = "\<lambda>lg'. reg\<lparr>rg_loggers := (rg_loggers reg)(''default'' \<mapsto> lg')\<rparr>"
    obtain lg' where lg': "LOG_default env site parts (reg, out) =
        Inr (False, reg\<lparr>rg_loggers := (rg_loggers reg)(''default'' \<mapsto> lg')\<rparr>, ?out)" "ready name lg'"
      using LOG_ready [OF Cons.prems(1,2) site(1,2)] by blast
    have due: "due_lines n (x # es) = ?l @ due_lines ?n es" using step(1) True x by simp
    have o: "on_disk ?out = (on_disk out)(name := on_disk out name @ ?l)" "buffered ?out = buffered out" "std_out ?out = std_out out"
      using Cons.prems(3,7) due by (auto simp: after_line_def Let_def fun_eq_iff)
    have up: "rg_loggers (?reg lg') ''default'' = Some lg'" by simp
    have b0: "buffered ?out name = ''''" using Cons.prems(3) o(2) by simp
    have small: "length (on_disk ?out name @ due_lines ?n es) < limit" using Cons.prems(7) due o(1) by simp
    obtain cs' reg' out' where r: "LOG_occasions es (cs1, ?reg lg', ?out) = Inr (cs', reg', out')"
      "on_disk out' = (on_disk ?out)(name := on_disk ?out name @ due_lines ?n es)" "buffered out' = buffered ?out" "std_out out' = std_out ?out"
      using Cons.IH [where n = ?n and reg = "?reg lg'", OF up lg'(2) b0 rest cs1 len small] by blast
    have "on_disk out' = (on_disk out)(name := on_disk out name @ due_lines n (x # es))" unfolding r(2) due o(1) by simp
    moreover have "LOG_occasions (x # es) (cs, reg, out) = Inr (cs', reg', out')"
      using r(1) x v True lg'(1) by (simp add: LOG_occasion_def)
    moreover have "buffered out' = buffered out" "std_out out' = std_out out" using r(3,4) o(2,3) by simp_all
    ultimately show ?thesis by blast
  next
    case False
    have due: "due_lines n (x # es) = due_lines ?n es" using step(1) False x by simp
    have "length (on_disk out name @ due_lines ?n es) < limit" using Cons.prems(7) due by simp
    from Cons.IH [where n = ?n, OF Cons.prems(1-3) rest cs1 len this]
    obtain cs' reg' out' where r: "LOG_occasions es (cs1, reg, out) = Inr (cs', reg', out')"
      "on_disk out' = (on_disk out)(name := on_disk out name @ due_lines ?n es)" "buffered out' = buffered out" "std_out out' = std_out out"
      by blast
    moreover have "LOG_occasions (x # es) (cs, reg, out) = Inr (cs', reg', out')"
      using r(1) x v False by (simp add: LOG_occasion_def)
    ultimately show ?thesis unfolding due by blast
  qed
qed simp

section \<open>Modules\<close>

definition source_suffixes :: "string list" where
  "source_suffixes = [''.h'', ''.c'', ''.cpp'', ''.cc'', ''.cxx'', ''.-inl.h'', ''.hxx'', ''.hpp'', ''.hh'']"

definition plain_module :: "string \<Rightarrow> bool" where
  "plain_module m \<longleftrightarrow> m \<noteq> '''' \<and> set m \<inter> set ''=,.?*'' = {}"

lemma strip_suffix_same: "strip_suffix (m @ p) p = m"
  by (simp add: strip_suffix_def endsWith_def)

lemma strip_suffix_none:
  assumes "CHR ''.'' \<notin> set m" "CHR ''.'' \<in> set sfx"
  shows "strip_suffix m sfx = m"
proof -
  have "drop (length m - length sfx) m \<noteq> sfx" using assms set_drop_subset [of "length m - length sfx" m] by auto
  then show ?thesis by (simp add: strip_suffix_def endsWith_def)
qed

lemma map_of_module_entry:
  "map_of (module_entry level k ms) x = (case map_of ms x of Some l \<Rightarrow> Some l | None \<Rightarrow> if x = k then Some level else None)"
  by (auto simp: module_entry_def map_add_def split: option.splits)

lemma distinct_module_entry:
  "distinct (map fst ms) \<Longrightarrow> distinct (map fst (module_entry level k ms))"
  by (auto simp: module_entry_def map_of_eq_None_iff)

lemma insert_module_plain:
  assumes "CHR ''.'' \<notin> set m" "DisableVModulesExtensions \<notin> flags"
  shows "insert_module flags m level ms = fold (\<lambda>sfx. module_entry level (m @ sfx)) source_suffixes ms"
  using assms strip_suffix_same [of m] strip_suffix_none [OF assms(1)]
  by (simp add: insert_module_def source_suffixes_def addSuffix_def Let_def)

text \<open>The modules that a list of names and levels stands for\<close>

definition module_list :: "(string \<times> nat) list \<Rightarrow> (string \<times> 16 word) list" where
  "module_list mods = concat (map (\<lambda>(m, d). map (\<lambda>sfx. (m @ sfx, of_nat d)) source_suffixes) mods)"

fun module_text :: "(string \<times> nat) list \<Rightarrow> string" where
  "module_text [] = ''''"
| "module_text ((m, d) # mods) =
     m @ ''='' @ [char_of (48 + d)] @ (if mods = [] then '''' else '','' @ module_text mods)"

lemma map_of_entries_fold:
  "map_of (fold (\<lambda>(k, l). module_entry l k) es ms) x = (case map_of ms x of Some l \<Rightarrow> Some l | None \<Rightarrow> map_of es x)"
  by (induction es arbitrary: ms) (auto simp: map_of_module_entry split: option.splits)

lemma distinct_entries_fold:
  "distinct (map fst ms) \<Longrightarrow> distinct (map fst (fold (\<lambda>(k, l). module_entry l k) es ms))"
  by (induction es arbitrary: ms) (auto intro: distinct_module_entry)

lemma setModules_name:
  assumes "set m \<inter> set ''=,'' = {}"
  shows "setModules_loop flags (m @ ''='' @ xs) True False ss level ms = setModules_loop flags xs False True (ss @ m) level ms"
  using assms by (induction m arbitrary: ss) auto

lemma level_digit:
  assumes "d < 10"
  shows "is_digit (char_of (48 + d))" "of_char (char_of (48 + d)) - 48 = (int d :: int)"
    "char_of (48 + d) \<noteq> CHR ''=''" "char_of (48 + d) \<noteq> CHR '',''"
proof -
  have c: "of_char (char_of (48 + d)) = (48 + d :: nat)" using assms by simp
  moreover from this have "of_char (char_of (48 + d)) = int (48 + d)" by (metis of_nat_of_char)
  ultimately show "is_digit (char_of (48 + d))" "of_char (char_of (48 + d)) - 48 = (int d :: int)"
    using assms unfolding is_digit_def by simp_all
  show "char_of (48 + d) \<noteq> CHR ''=''"
  proof
    assume eq: "char_of (48 + d) = CHR ''=''"
    show False using c assms unfolding eq by simp
  qed
  show "char_of (48 + d) \<noteq> CHR '',''"
  proof
    assume eq: "char_of (48 + d) = CHR '',''"
    show False using c assms unfolding eq by simp
  qed
qed

lemma setModules_entry:
  assumes "set m \<inter> set ''=,'' = {}" "d < 10"
  shows "setModules_loop flags (m @ ''='' @ char_of (48 + d) # xs) True False '''' (-1) ms =
    setModules_loop flags xs False True m (int d) ms"
  unfolding setModules_name [OF assms(1)] using level_digit [OF assms(2)] by simp

lemma setModules_text:
  assumes "\<forall>(m, d) \<in> set mods. plain_module m \<and> d < 10" "DisableVModulesExtensions \<notin> flags"
  shows "setModules_loop flags (module_text mods) True False '''' (-1) ms = fold (\<lambda>(k, l). module_entry l k) (module_list mods) ms"
  using assms
proof (induction mods arbitrary: ms)
  case (Cons x mods)
  obtain m d where x: "x = (m, d)" by (cases x)
  have m: "plain_module m" "d < 10" using Cons.prems x by auto
  then have n: "set m \<inter> set ''=,'' = {}" "CHR ''.'' \<notin> set m" "m \<noteq> ''''" by (auto simp: plain_module_def)
  have f: "fold (\<lambda>(k, l). module_entry l k) (module_list (x # mods)) ms =
      fold (\<lambda>(k, l). module_entry l k) (module_list mods) (fold (\<lambda>sfx. module_entry (of_nat d) (m @ sfx)) source_suffixes ms)"
    by (simp add: x module_list_def source_suffixes_def)
  have t: "module_text (x # mods) = m @ ''='' @ char_of (48 + d) # (if mods = [] then '''' else '','' @ module_text mods)"
    by (simp add: x)
  have "setModules_loop flags (module_text (x # mods)) True False '''' (-1) ms =
      setModules_loop flags (module_text mods) True False '''' (-1) (insert_module flags m (of_nat d) ms)"
    unfolding t setModules_entry [OF n(1) m(2)] using n(3) by (cases mods) simp_all
  also have "\<dots> = fold (\<lambda>(k, l). module_entry l k) (module_list mods) (insert_module flags m (of_nat d) ms)"
    using Cons.IH Cons.prems by simp
  finally show ?case unfolding f insert_module_plain [OF n(2) Cons.prems(2)] .
qed (simp add: module_list_def)

text \<open>The level of a source file: the one of the module that the file is of\<close>

definition module_level :: "(string \<times> nat) list \<Rightarrow> string \<Rightarrow> nat option" where
  "module_level mods f =
     (if dropWhile (\<lambda>x. x \<noteq> CHR ''.'') f \<in> set source_suffixes then map_of mods (takeWhile (\<lambda>x. x \<noteq> CHR ''.'') f) else None)"

lemma module_split:
  assumes "CHR ''.'' \<notin> set m" "sfx \<in> set source_suffixes"
  shows "takeWhile (\<lambda>x. x \<noteq> CHR ''.'') (m @ sfx) = m" "dropWhile (\<lambda>x. x \<noteq> CHR ''.'') (m @ sfx) = sfx"
proof -
  obtain s where "sfx = CHR ''.'' # s" using assms(2) by (auto simp: source_suffixes_def)
  then show "takeWhile (\<lambda>x. x \<noteq> CHR ''.'') (m @ sfx) = m" "dropWhile (\<lambda>x. x \<noteq> CHR ''.'') (m @ sfx) = sfx"
    using assms(1) by (induction m) auto
qed

lemma map_of_suffixes:
  assumes "CHR ''.'' \<notin> set m"
  shows "map_of (map (\<lambda>sfx. (m @ sfx, l)) source_suffixes) f =
    (if dropWhile (\<lambda>x. x \<noteq> CHR ''.'') f \<in> set source_suffixes \<and> takeWhile (\<lambda>x. x \<noteq> CHR ''.'') f = m then Some l else None)"
proof (cases "f \<in> (\<lambda>sfx. m @ sfx) ` set source_suffixes")
  case True
  then obtain sfx where s: "f = m @ sfx" "sfx \<in> set source_suffixes" by blast
  then have "(f, l) \<in> set (map (\<lambda>sfx. (m @ sfx, l)) source_suffixes)" by simp
  then obtain y where y: "map_of (map (\<lambda>sfx. (m @ sfx, l)) source_suffixes) f = Some y" using weak_map_of_SomeI by fast
  then have "y = l" using map_of_SomeD [OF y] by auto
  with y have "map_of (map (\<lambda>sfx. (m @ sfx, l)) source_suffixes) f = Some l" by simp
  then show ?thesis using module_split [OF assms s(2)] s by simp
next
  case False
  then have "map_of (map (\<lambda>sfx. (m @ sfx, l)) source_suffixes) f = None" by (auto simp: map_of_eq_None_iff)
  moreover have "\<not> (dropWhile (\<lambda>x. x \<noteq> CHR ''.'') f \<in> set source_suffixes \<and> takeWhile (\<lambda>x. x \<noteq> CHR ''.'') f = m)"
    using False takeWhile_dropWhile_id [of "\<lambda>x. x \<noteq> CHR ''.''" f] by (metis image_eqI)
  ultimately show ?thesis by simp
qed

lemma map_of_module_list:
  assumes "\<forall>(m, d) \<in> set mods. plain_module m"
  shows "map_of (module_list mods) f = map_option of_nat (module_level mods f)"
  using assms
proof (induction mods)
  case (Cons x mods)
  obtain m d where x: "x = (m, d)" by (cases x)
  have m: "CHR ''.'' \<notin> set m" using Cons.prems x by (auto simp: plain_module_def)
  have e: "module_list (x # mods) = map (\<lambda>sfx. (m @ sfx, of_nat d)) source_suffixes @ module_list mods"
    by (simp add: x module_list_def)
  have "map_of (module_list (x # mods)) f =
      (case map_of (map (\<lambda>sfx. (m @ sfx, of_nat d)) source_suffixes) f of Some l \<Rightarrow> Some l | None \<Rightarrow> map_of (module_list mods) f)"
    unfolding e by (simp add: map_add_def)
  with Cons show ?case unfolding map_of_suffixes [OF m] by (simp add: module_level_def x)
qed (simp add: module_list_def module_level_def)

text \<open>A pattern without wild cards is its only match, whatever the iteration order is.\<close>

lemma find_literal:
  assumes "distinct (map fst order)" "\<forall>(k, _) \<in> set order. CHR ''?'' \<notin> set k \<and> CHR ''*'' \<notin> set k"
  shows "find (\<lambda>(pattern, _). wildCardMatch f pattern) order = map_option (Pair f) (map_of order f)"
  using assms
proof (induction order)
  case (Cons x order)
  obtain k l where x: "x = (k, l)" by (cases x)
  have "wildCardMatch f k \<longleftrightarrow> f = k" using Cons.prems(2) x by (intro wildcard_literal) auto
  with Cons x show ?case by auto
qed simp

lemma module_list_literal:
  "\<forall>(m, d) \<in> set mods. plain_module m \<Longrightarrow> (k, l) \<in> set (module_list mods) \<Longrightarrow> CHR ''?'' \<notin> set k \<and> CHR ''*'' \<notin> set k"
  by (fastforce simp: module_list_def source_suffixes_def plain_module_def)

lemma set_module_entry: "set (module_entry l k ms) \<subseteq> insert (k, l) (set ms)"
  by (auto simp: module_entry_def)

lemma set_entries_fold: "set (fold (\<lambda>(k, l). module_entry l k) es ms) \<subseteq> set ms \<union> set es"
proof (induction es arbitrary: ms)
  case (Cons x es)
  obtain k l where x: "x = (k, l)" by (cases x)
  show ?case using Cons [of "module_entry l k ms"] set_module_entry [of l k ms] x by auto
qed simp

lemma modules_allow:
  assumes "\<forall>(m, d) \<in> set mods. plain_module m \<and> d < 10" "mods \<noteq> []" "DisableVModulesExtensions \<notin> flags"
    and "distinct order" "set order = set (vr_modules (setModules flags (module_text mods) vr))" "vr_modules vr = []"
  shows "allowed flags order v (Some f) (setModules flags (module_text mods) vr) \<longleftrightarrow>
    (case module_level mods (base_name f) of Some d \<Rightarrow> unat v \<le> d | None \<Rightarrow> AllowVerboseIfModuleNotSpecified \<in> flags)"
proof -
  let ?ms = "fold (\<lambda>(k, l). module_entry l k) (module_list mods) []"
  have p: "\<forall>(m, d) \<in> set mods. plain_module m" using assms(1) by auto
  have ms: "vr_modules (setModules flags (module_text mods) vr) = ?ms"
    using setModules_text [OF assms(1,3)] assms(6) by (simp add: setModules_def)
  have d: "distinct (map fst ?ms)" using distinct_entries_fold [of "[]" "module_list mods"] by simp
  have o: "set order = set ?ms" "distinct (map fst order)"
    using assms(4,5) ms d by (simp_all add: distinct_map)
  have "map_of order = map_of ?ms" using map_of_inject_set [OF o(2) d] o(1) by simp
  then have l: "map_of order g = map_option of_nat (module_level mods g)" for g
    using map_of_entries_fold [of "module_list mods" "[]" g] map_of_module_list [OF p] by simp
  have "\<forall>(k, _) \<in> set order. CHR ''?'' \<notin> set k \<and> CHR ''*'' \<notin> set k"
    using module_list_literal [OF p] set_entries_fold [of "module_list mods" "[]"] o(1) by fastforce
  note find = find_literal [OF o(2) this, unfolded l]
  have "?ms \<noteq> []"
  proof -
    obtain m d ms' where "mods = (m, d) # ms'" using assms(2) by (cases mods) auto
    then have "map_of (module_list mods) (m @ ''.h'') \<noteq> None" by (simp add: module_list_def source_suffixes_def)
    then show ?thesis using map_of_entries_fold [of "module_list mods" "[]" "m @ ''.h''"] by auto
  qed
  moreover have "v \<le> of_nat d \<longleftrightarrow> unat v \<le> d" if "module_level mods g = Some d" for d g
  proof -
    have "d < 10" using that assms(1) by (auto simp: module_level_def dest: map_of_SomeD split: if_splits)
    then show ?thesis by (simp add: word_le_nat_alt unat_of_nat)
  qed
  ultimately show ?thesis using find ms
    by (auto simp: allowed_def split: option.splits)
qed

section \<open>Properties\<close>

text \<open>
  C34. Occasional statements, from the start of the client: whatever sequence of \<open>LOG_EVERY_N\<close> (with
  numbers up to 100000), \<open>LOG_AFTER_N\<close> and \<open>LOG_N_TIMES\<close> statements is executed, in any interleaving,
  the log file grows by exactly the lines that are due: at each place of the program every \<open>n\<close>-th
  execution, those after the first \<open>n\<close>, or the first \<open>n\<close>.  The conditions: the files can be opened and
  written, the file with these lines stays below the limit of 209715200 bytes at which it would be
  truncated, there are fewer than 2^64 statements, none of level \<open>FATAL\<close>, and the flags and format
  specifiers are those of the client (no hierarchical logging, no automatic spacing, no strict size check).
\<close>

theorem occasional_statements:
  assumes files: "name1 = ''./log/client_'' @ log_date (ce_time ce1) @ ''.log''" "name = ''./log/client_'' @ log_date (ce_time ce2) @ ''.log''"
      "ce_opens ce0 ''myeasylog.log''" "ce_opens ce1 name1" "ce_opens ce2 name"
      "ce_sizes ce1 name1 < 209715200" "ce_sizes ce2 name < 209715200"
    and fresh: "buffered out = (\<lambda>_. '''')" "length (on_disk out name1) < 209715200"
    and statements: "\<forall>(env, occ, site, parts) \<in> set es. plain_site name env site \<and> msg_level site \<noteq> Fatal \<and>
      occasion_ok occ \<and> occ = occ_at (place site)" "length es < 2 ^ 64"
      "length (on_disk out name @ due_lines (\<lambda>_. 0) es) < 209715200"
  shows "\<exists>reg cs reg' out'. client_log_main ce0 ce1 ce2 [''default''] (Some log_conf) out = Inr (reg, out) \<and>
    LOG_occasions es ([], reg, out) = Inr (cs, reg', out') \<and>
    on_disk out' = (on_disk out)(name := on_disk out name @ due_lines (\<lambda>_. 0) es) \<and> buffered out' = (\<lambda>_. '''') \<and>
    std_out out' = std_out out"
proof -
  obtain reg lg where reg: "client_log_main ce0 ce1 ce2 [''default''] (Some log_conf) out = Inr (reg, out)"
    "rg_loggers reg = [''default'' \<mapsto> lg]" "ready name lg"
    using client_started [OF files fresh] by blast
  have "hits f l [] = 0" for f l by (simp add: hits_def the_counter_def HitCounter_new_def)
  then have c: "\<forall>f l. counted_hits (occ_at (f, l)) 0 (hits f l [])" using counted_hits_0 by simp
  have "\<exists>cs' reg' out'. LOG_occasions es ([], reg, out) = Inr (cs', reg', out') \<and>
    on_disk out' = (on_disk out)(name := on_disk out name @ due_lines (\<lambda>_. 0) es) \<and> buffered out' = buffered out \<and> std_out out' = std_out out"
    by (rule occasions_run [where n = "\<lambda>_. 0", OF _ reg(3) _ statements(1) c])
      (use reg(2) fresh(1) statements(2,3) in \<open>simp_all add: limit_def\<close>)
  then show ?thesis using reg(1) fresh(1) by auto
qed

abbreviation demo_occasional :: "occasional list" where
  "demo_occasional \<equiv> replicate 3 (demo_env, Every_N 2, demo_site, [''Client start''])"

theorem occasional_statements_witness:
  "\<exists>reg cs reg' out'. client_log_main demo_conf demo_conf demo_conf [''default''] (Some log_conf) demo_sinks = Inr (reg, demo_sinks) \<and>
     LOG_occasions demo_occasional ([], reg, demo_sinks) = Inr (cs, reg', out') \<and>
     on_disk out' ''./log/client_2024040815.log'' = line_text demo_env demo_site ''Client start''"
proof -
  have name: "''./log/client_2024040815.log'' = ''./log/client_'' @ log_date (ce_time demo_conf) @ ''.log''"
    using demo_log_name by simp
  have es: "\<forall>(env, occ, site, parts) \<in> set demo_occasional. plain_site ''./log/client_2024040815.log'' env site \<and>
      msg_level site \<noteq> Fatal \<and> occasion_ok occ \<and> occ = (\<lambda>_. Every_N 2) (place site)"
    by (simp add: plain_site_def occasion_ok_def kMaxLogPerCounter_def)
  have due: "due_lines (\<lambda>_. 0) demo_occasional = line_text demo_env demo_site ''Client start''"
    by (simp add: numeral_3_eq_3 due_def)
  have "length (stamp (env_time demo_env) (env_usec demo_env)) = 23"
  proof -
    have "localBuff 2024 4 = ''2024''" "localBuff 4 2 = ''04''" "localBuff 8 2 = ''08''" "localBuff 15 2 = ''15''"
      "localBuff 5 2 = ''05''" "localBuff 0 2 = ''00''" "localBuff 0 3 = ''000''" by code_simp+
    then show ?thesis by (simp add: stamp_def)
  qed
  then have len: "length (line_text demo_env demo_site ''Client start'') < 209715200"
    by (simp add: line_text_def level_values_def)
  show ?thesis
    using occasional_statements [OF name name _ _ _ _ _ _ _ es, of demo_conf demo_sinks] due len by auto
qed

text \<open>
  The argument \<open>-vmodule\<close>, from the command line to a verbose statement: with a list of modules and
  levels, a statement \<open>VLOG\<close> of a source file is written exactly when its level does not exceed the
  one that is given for the file's module, whatever the ending of the file is among the known ones
  and in whatever order the map of modules is searched; files of other modules write every level.
\<close>

theorem verbose_modules:
  assumes "\<forall>(m, d) \<in> set mods. plain_module m \<and> d < 10" "mods \<noteq> []"
  shows "\<exists>st. setApplicationArguments ce ids (Some [program, ''-vmodule='' @ module_text mods]) Storage_start io = Inr (st, io) \<and>
    (\<forall>order. distinct order \<and> set order = set (vr_modules (st_vRegistry st)) \<longrightarrow>
      (allowed (st_flags st) order v (Some f) (st_vRegistry st) \<longleftrightarrow> (\<forall>d. module_level mods (base_name f) = Some d \<longrightarrow> unat v \<le> d)))"
proof -
  let ?text = "module_text mods" and ?flags = "{AllowVerboseIfModuleNotSpecified}" and ?vr = "\<lparr>vr_level = 0, vr_modules = []\<rparr>"
  have "find_first ''='' (''-vmodule='' @ ?text) = Some 8" by simp
  then have args: "setArgs (Some [program, ''-vmodule='' @ ?text]) CommandLineArgs_new =
      \<lparr>ca_argv = Some [program, ''-vmodule='' @ ?text], ca_paramsWithValue = [(''-vmodule'', ?text)], ca_params = []\<rparr>"
    by (simp add: setArgs_def CommandLineArgs_new_def set_arg_def hasParamWithValue_def)
  have "setFromArgs ?flags (setArgs (Some [program, ''-vmodule='' @ ?text]) CommandLineArgs_new) ?vr = Inr (setModules ?flags ?text ?vr)"
    unfolding args by (simp add: setFromArgs_def hasParam_def hasParamWithValue_def getParamValue_def vModulesEnabled_def)
  then have "setApplicationArguments ce ids (Some [program, ''-vmodule='' @ ?text]) Storage_start io =
      Inr (Storage_start\<lparr>st_args := setArgs (Some [program, ''-vmodule='' @ ?text]) CommandLineArgs_new,
        st_vRegistry := setModules ?flags ?text ?vr\<rparr>, io)"
    using args by (simp add: setApplicationArguments_def Storage_start_def hasParamWithValue_def)
  moreover have "allowed ?flags order v (Some f) (setModules ?flags ?text ?vr) \<longleftrightarrow>
      (\<forall>d. module_level mods (base_name f) = Some d \<longrightarrow> unat v \<le> d)"
    if "distinct order" "set order = set (vr_modules (setModules ?flags ?text ?vr))" for order
    using modules_allow [OF assms _ that] by (simp split: option.splits)
  ultimately show ?thesis
    by (intro exI conjI) (assumption, simp add: Storage_start_def)
qed

theorem verbose_modules_witness:
  "\<exists>st. setApplicationArguments demo_conf [] (Some [''./client'', ''-vmodule=client=3,tools=1'']) Storage_start (RegisteredLoggers_new, demo_sinks) =
       Inr (st, RegisteredLoggers_new, demo_sinks) \<and>
     \<not> allowed (st_flags st) (remdups (vr_modules (st_vRegistry st))) 5 (Some ''../src/client.cpp'') (st_vRegistry st)"
proof -
  have t: "''-vmodule='' @ module_text [(''client'', 3), (''tools'', 1)] = ''-vmodule=client=3,tools=1''" by code_simp
  have m: "\<forall>(m, d) \<in> set [(''client'', 3), (''tools'', 1 :: nat)]. plain_module m \<and> d < 10" by (simp add: plain_module_def)
  have b: "module_level [(''client'', 3), (''tools'', 1)] (base_name ''../src/client.cpp'') = Some 3" by code_simp
  have ne: "[(''client'', 3), (''tools'', 1 :: nat)] \<noteq> []" by simp
  obtain st where st: "setApplicationArguments demo_conf [] (Some [''./client'', ''-vmodule=client=3,tools=1'']) Storage_start
      (RegisteredLoggers_new, demo_sinks) = Inr (st, RegisteredLoggers_new, demo_sinks)"
    "\<forall>order. distinct order \<and> set order = set (vr_modules (st_vRegistry st)) \<longrightarrow>
      (allowed (st_flags st) order 5 (Some ''../src/client.cpp'') (st_vRegistry st) \<longleftrightarrow> (\<forall>d. Some 3 = Some d \<longrightarrow> unat (5 :: 16 word) \<le> d))"
    using verbose_modules [OF m ne, of demo_conf "[]" "''./client''" "(RegisteredLoggers_new, demo_sinks)" 5 "''../src/client.cpp''",
        unfolded t b] by (elim exE conjE) (rule that)
  have "\<not> allowed (st_flags st) (remdups (vr_modules (st_vRegistry st))) 5 (Some ''../src/client.cpp'') (st_vRegistry st)"
    using spec [OF st(2), of "remdups (vr_modules (st_vRegistry st))"] by simp
  with st(1) show ?thesis by (intro exI conjI)
qed

end
