(* ===== verification/Log_Calls.thy ===== *)
theory Log_Calls
  imports Log_Filters
begin

text \<open>
  \<open>easylogging++.cc\<close>, the other ways to write and to configure: \<open>Logger::log\<close> with a format, one statement
  for several loggers, containers, the directories of a log file, the environment, durations, and the
  configuration file of all loggers.
\<close>

section \<open>Logger::log\<close>

text \<open>
  The message of \<open>log_\<close>: \<open>%v\<close> takes the next value, \<open>%%\<close> is one sign.  The last piece of the format is
  not scanned: it goes to a writer.  \<open>None\<close>: there are values left; no writer is made.
\<close>

fun log_format :: "Log_Env \<Rightarrow> string \<Rightarrow> string list \<Rightarrow> Logger \<Rightarrow> Logger \<times> string option" where
  "log_format env s [] lg = (lg, Some s)"
| "log_format env [] (value # args) lg = (lg, None)"
| "log_format env (x # s) (value # args) lg =
     (if x = CHR ''%'' \<and> s \<noteq> [] \<and> hd s = CHR ''%'' then log_format env (tl s) (value # args) (message_insert env [hd s] lg)
      else if x = CHR ''%'' \<and> s \<noteq> [] \<and> hd s = CHR ''v'' then log_format env (tl s) args (message_insert env value lg)
      else log_format env s (value # args) (message_insert env [x] lg))"

text \<open>\<open>Logger::log\<close> and \<open>Logger::verbose\<close>; \<open>verbose_on\<close> is what the registry of verbose levels allows.\<close>

definition Logger_log :: "Log_Env \<Rightarrow> bool \<Rightarrow> Level \<Rightarrow> nat \<Rightarrow> string \<Rightarrow> string list \<Rightarrow> Logger \<times> Log_Sinks \<Rightarrow>
    (bool \<times> Logger \<times> Log_Sinks) result" where
  "Logger_log env verbose_on level vlevel s args st =
     (let (lg, out) = st
      in case log_format env s args lg of
           (lg1, None) \<Rightarrow> Inr (False, lg1, out)
         | (lg1, Some rest) \<Rightarrow>
             if level = Verbose \<and> \<not> verbose_on then Inr (False, lg1\<lparr>lg_stream := ''''\<rparr>, out)
             else LOG env \<lparr>msg_level = level, msg_file = ''FILE'', msg_line = 0, msg_func = ''FUNCTION'',
                 msg_verboseLevel = (if level = Verbose then vlevel else 0), msg_message = ''''\<rparr> [rest] (lg1, out))"

section \<open>Several loggers in one statement\<close>

text \<open>What a logger of the registry does, with its streams and counters written back\<close>

definition run_on :: "string \<Rightarrow> (Logger \<times> Log_Sinks \<Rightarrow> ('a \<times> Logger \<times> Log_Sinks) result) \<Rightarrow> RegisteredLoggers \<times> Log_Sinks \<Rightarrow>
    ('a \<times> RegisteredLoggers \<times> Log_Sinks) result" where
  "run_on ident act st =
     (let (reg, out) = st
      in andThen (deref_opt (rg_loggers reg ident)) (\<lambda>lg.
         andThen (deref_opt (rl_typed lg)) (\<lambda>tc.
         andThen (act (as_logger tc lg, out)) (\<lambda>(r, l, out').
         Inr (r, reg\<lparr>rg_loggers := (rg_loggers reg)(ident \<mapsto>
                lg\<lparr>rl_unflushed := lg_unflushed l, rl_stream := lg_stream l\<rparr>)\<rparr>, out')))))"

text \<open>
  \<open>Writer::initializeLogger\<close> with a lookup: whether the writer proceeds, and whether there is a logger.
  For an unknown one the default logger writes a debug statement.
\<close>

definition initializeLogger :: "Conf_Env \<Rightarrow> Log_Env \<Rightarrow> LogMessage \<Rightarrow> string \<Rightarrow> RegisteredLoggers \<times> Log_Sinks \<Rightarrow>
    ((bool \<times> bool) \<times> RegisteredLoggers \<times> Log_Sinks) result" where
  "initializeLogger ce env site loggerId st =
     andThen (registered_get ce loggerId (CreateLoggerAutomatically \<in> env_flags env) st) (\<lambda>(lg, st1).
       case lg of
         None \<Rightarrow>
           andThen (registered_get ce ''default'' True st1) (\<lambda>(_, st2).
           andThen (LOG_default env (site\<lparr>msg_level := Debug, msg_verboseLevel := 0\<rparr>)
               [''Logger ['' @ loggerId @ ''] is not registered yet!''] st2) (\<lambda>(_, st3).
           Inr ((False, False), st3)))
       | Some _ \<Rightarrow>
           run_on loggerId (\<lambda>(l, out). Inr ((writer_proceeds env l (msg_level site), True), l, out)) st1)"

text \<open>\<open>triggerDispatch\<close> of a writer that proceeds; a fatal message is followed by a warning of the default logger.\<close>

definition triggerDispatch :: "Log_Env \<Rightarrow> LogMessage \<Rightarrow> string \<Rightarrow> RegisteredLoggers \<times> Log_Sinks \<Rightarrow>
    (bool \<times> RegisteredLoggers \<times> Log_Sinks) result" where
  "triggerDispatch env site loggerId st =
     andThen (run_on loggerId (\<lambda>(lg, out).
         andThen (dispatcher_dispatch env True True NormalLog (site\<lparr>msg_message := lg_stream lg\<rparr>) (lg, out)) (\<lambda>(lg', out').
         Inr ((), lg'\<lparr>lg_stream := ''''\<rparr>, out'))) st) (\<lambda>(_, st1).
       if msg_level site = Fatal \<and> DisableApplicationAbortOnFatalLog \<notin> env_flags env then
         andThen (LOG_default env (site\<lparr>msg_level := Warning, msg_verboseLevel := 0\<rparr>)
             [''Aborting application. Reason: Fatal log at ['', msg_file site, '':'', dec_digits (msg_line site), '']''] st1)
           (\<lambda>(_, st2). Inr (True, st2))
       else Inr (False, st1))"

definition update_stream :: "(string \<Rightarrow> string) \<Rightarrow> string \<Rightarrow> RegisteredLoggers \<times> Log_Sinks \<Rightarrow> (RegisteredLoggers \<times> Log_Sinks) result" where
  "update_stream f loggerId st =
     andThen (run_on loggerId (\<lambda>(lg, out). Inr ((), lg\<lparr>lg_stream := f (lg_stream lg)\<rparr>, out)) st) (\<lambda>(_, st'). Inr st')"

text \<open>
  The loop of \<open>processDispatch\<close>: \<open>lgid\<close> with its two flags has been initialised; \<open>message\<close> is the
  copy of the first dispatched message, \<open>None\<close> before there is one.
\<close>

fun process_loggers :: "Conf_Env \<Rightarrow> Log_Env \<Rightarrow> LogMessage \<Rightarrow> bool \<Rightarrow> string \<Rightarrow> bool \<times> bool \<Rightarrow> string option \<Rightarrow> string list \<Rightarrow>
    RegisteredLoggers \<times> Log_Sinks \<Rightarrow> (bool \<times> RegisteredLoggers \<times> Log_Sinks) result" where
  "process_loggers ce env site many lgid (proceed, found) message ids st =
     andThen
       (if proceed then
          andThen (run_on lgid (\<lambda>(lg, out). Inr (lg_stream lg, lg, out)) st) (\<lambda>(s, _).
          andThen (case message of
              Some m \<Rightarrow> update_stream (\<lambda>x. x @ m) lgid st
            | None \<Rightarrow> Inr st) (\<lambda>st1.
          andThen (triggerDispatch env site lgid st1) (\<lambda>(aborts, st2).
          Inr (aborts, if message = None then Some (if many then s else '''') else message, st2))))
        else if found then andThen (update_stream (\<lambda>_. '''') lgid st) (\<lambda>st1. Inr (False, message, st1))
        else Inr (False, message, st)) (\<lambda>(aborts, message', st').
     case ids of
       [] \<Rightarrow> Inr (aborts, st')
     | i # is \<Rightarrow>
         if aborts then Inr (True, st')
         else andThen (initializeLogger ce env site i st') (\<lambda>(flags, st'').
              process_loggers ce env site many i flags message' is st''))"

text \<open>\<open>CLOG(LEVEL, ids) << parts\<close>: the parts go to the stream of the first logger when it proceeds.\<close>

definition CLOG :: "Conf_Env \<Rightarrow> Log_Env \<Rightarrow> string \<Rightarrow> string list \<Rightarrow> LogMessage \<Rightarrow> string list \<Rightarrow> RegisteredLoggers \<times> Log_Sinks \<Rightarrow>
    (bool \<times> RegisteredLoggers \<times> Log_Sinks) result" where
  "CLOG ce env loggerId ids site parts st =
     andThen (initializeLogger ce env site loggerId st) (\<lambda>((proceed, found), st1).
     andThen (if proceed
         then andThen (run_on loggerId (\<lambda>(lg, out). Inr ((), fold (message_insert env) parts lg, out)) st1) (\<lambda>(_, st2). Inr st2)
         else Inr st1) (\<lambda>st2.
       process_loggers ce env site (ids \<noteq> [] \<and> MultiLoggerSupport \<in> env_flags env) loggerId (proceed, found) None
         (if MultiLoggerSupport \<in> env_flags env then ids else []) st2))"

section \<open>Containers\<close>

text \<open>\<open>writeIterator\<close>: at most 100 elements; the separator follows every one but the last of the container.\<close>

definition container_separator :: "Log_Env \<Rightarrow> string" where
  "container_separator env = (if NewLineForContainer \<in> env_flags env then [CHR 0x0A] @ ''    '' else '', '')"

definition writeIterator :: "Log_Env \<Rightarrow> string list \<Rightarrow> Logger \<Rightarrow> Logger" where
  "writeIterator env elements lg =
     (let raw = (\<lambda>s l. l\<lparr>lg_stream := lg_stream l @ s\<rparr>);
          lg1 = fold (\<lambda>i l. raw (if i < length elements - 1 then container_separator env else '''') (message_insert env (elements ! i) l))
                  [0..<min (length elements) 100] (raw ''['' lg);
          lg2 = raw '']'' (if 100 < length elements then raw ''...'' lg1 else lg1)
      in if AutoSpacing \<in> env_flags env then raw '' '' lg2 else lg2)"

section \<open>Directories\<close>

definition extractPathFromFilename :: "string \<Rightarrow> string" where
  "extractPathFromFilename fullPath =
     (case last_slash fullPath of None \<Rightarrow> fullPath | Some i \<Rightarrow> if i = 0 then ''/'' else take (i + 1) fullPath)"

fun path_tokens :: "string \<Rightarrow> string \<Rightarrow> string list" where
  "path_tokens [] token = (if token = [] then [] else [token])"
| "path_tokens (x # s) token =
     (if x = CHR ''/'' then (if token = [] then path_tokens s [] else token # path_tokens s []) else path_tokens s (token @ [x]))"

fun built_paths :: "string \<Rightarrow> string list \<Rightarrow> string list" where
  "built_paths builtPath [] = []"
| "built_paths builtPath (t # ts) = (builtPath @ t @ ''/'') # built_paths (builtPath @ t @ ''/'') ts"

text \<open>The calls of \<open>mkdir\<close>, whose results are an argument, and the result: that of the last call\<close>

definition createPath :: "(string \<Rightarrow> bool) \<Rightarrow> (string \<Rightarrow> bool) \<Rightarrow> string \<Rightarrow> string list \<times> bool" where
  "createPath pathExists mkdir path =
     (if path = [] then ([], False)
      else if pathExists path then ([], True)
      else let dirs = built_paths (if hd path = CHR ''/'' then ''/'' else '''') (path_tokens path [])
           in (dirs, dirs \<noteq> [] \<and> mkdir (last dirs)))"

definition insertFile_path :: "(string \<Rightarrow> bool) \<Rightarrow> (string \<Rightarrow> bool) \<Rightarrow> string \<Rightarrow> string list" where
  "insertFile_path pathExists mkdir resolvedFilename =
     (let filePath = extractPathFromFilename resolvedFilename
      in if length filePath < length resolvedFilename then fst (createPath pathExists mkdir filePath) else [])"

section \<open>Environment\<close>

definition getEnvironmentVariable :: "(string \<Rightarrow> string option) \<Rightarrow> string \<Rightarrow> string \<Rightarrow> string" where
  "getEnvironmentVariable getenv variableName defaultVal =
     (case getenv variableName of None \<Rightarrow> defaultVal | Some val \<Rightarrow> if val = '''' then defaultVal else val)"

definition currentUser :: "(string \<Rightarrow> string option) \<Rightarrow> string" where
  "currentUser getenv = getEnvironmentVariable getenv ''USER'' ''unknown-user''"

definition currentHost :: "(string \<Rightarrow> string option) \<Rightarrow> string" where
  "currentHost getenv = getEnvironmentVariable getenv ''HOSTNAME'' ''unknown-host''"

definition termSupportsColor :: "(string \<Rightarrow> string option) \<Rightarrow> bool" where
  "termSupportsColor getenv \<longleftrightarrow> getEnvironmentVariable getenv ''TERM'' '''' \<in>
     {''xterm'', ''xterm-color'', ''xterm-256color'', ''screen'', ''linux'', ''cygwin'', ''screen-256color''}"

section \<open>Durations\<close>

datatype TimestampUnit = Microsecond | Millisecond | Second | Minute | Hour | Day

definition unit_to_int :: "TimestampUnit \<Rightarrow> nat" where
  "unit_to_int u = (case u of Microsecond \<Rightarrow> 0 | Millisecond \<Rightarrow> 1 | Second \<Rightarrow> 2 | Minute \<Rightarrow> 3 | Hour \<Rightarrow> 4 | Day \<Rightarrow> 5)"

definition kTimeFormats :: "(nat \<times> string) list" where
  "kTimeFormats = [(1000, ''us''), (1000, ''ms''), (60, ''seconds''), (60, ''minutes''), (24, ''hours''), (7, ''days'')]"

text \<open>The test \<open>time / 1000.0f < 1.9f\<close> separates the numbers below 1900 from the others.\<close>

fun formatTime_loop :: "nat \<Rightarrow> (nat \<times> string) list \<Rightarrow> nat \<times> string" where
  "formatTime_loop time ((value, unit) # next # fs) =
     (if time \<le> value then (time, unit)
      else if value = 1000 \<and> time < 1900 then (time, unit)
      else formatTime_loop (time div value) (next # fs))"
| "formatTime_loop time [(value, unit)] = (time, unit)"
| "formatTime_loop time [] = (time, '''')"

definition formatTime :: "64 word \<Rightarrow> TimestampUnit \<Rightarrow> string" where
  "formatTime time timestampUnit =
     (case formatTime_loop (unat time) (drop (unit_to_int timestampUnit) kTimeFormats) of (t, unit) \<Rightarrow> dec_digits t @ '' '' @ unit)"

text \<open>A \<open>timeval\<close> is its seconds and its microseconds.\<close>

definition getTimeDifference :: "int \<times> int \<Rightarrow> int \<times> int \<Rightarrow> TimestampUnit \<Rightarrow> 64 word" where
  "getTimeDifference endTime startTime timestampUnit =
     (if timestampUnit = Microsecond
      then word_of_int (1000000 * fst endTime + snd endTime) - word_of_int (1000000 * fst startTime + snd startTime)
      else let conv = (\<lambda>tim. word_of_int (fst tim * 1000 + snd tim div 1000)) in conv endTime - conv startTime)"

section \<open>The configuration file of all loggers\<close>

text \<open>
  The lines of \<open>configureFromGlobal\<close>: the text collected so far and the logger that it is for
  (\<open>None\<close> is the null pointer).
\<close>

definition configure_section :: "Conf_Env \<Rightarrow> string \<Rightarrow> string option \<Rightarrow> RegisteredLoggers \<times> Log_Sinks \<Rightarrow>
    (RegisteredLoggers \<times> Log_Sinks) result" where
  "configure_section ce ss logger st =
     (case logger of
        Some ident \<Rightarrow>
          if ss = '''' then Inr st
          else configure_registered ce
                 (Some (conf_list (snd (parseFromText ss None \<lparr>conf_list = [], m_isFromFile = False\<rparr>)))) ident st
      | None \<Rightarrow> Inr st)"

fun global_lines :: "Conf_Env \<Rightarrow> string list \<Rightarrow> string \<Rightarrow> string option \<Rightarrow> RegisteredLoggers \<times> Log_Sinks \<Rightarrow>
    (RegisteredLoggers \<times> Log_Sinks) result" where
  "global_lines ce [] ss logger st = configure_section ce ss logger st"
| "global_lines ce (l # ls) ss logger st =
     (let line = trim l
      in if isComment line then global_lines ce ls ss logger st
         else let line' = trim (ignoreComments line)
              in if 2 < length line' \<and> startsWith line' ''--'' then
                   andThen (configure_section ce ss logger st) (\<lambda>st1.
                     let ident = trim (drop 2 line')
                     in if 1 < length ident
                        then andThen (registered_get ce ident True st1) (\<lambda>(lg, st2).
                               global_lines ce ls '''' (if lg = None then None else Some ident) st2)
                        else global_lines ce ls '''' logger st1)
                 else global_lines ce ls (ss @ line' @ [CHR 0x0A]) logger st)"

text \<open>\<open>content\<close> is the text of the file; \<open>None\<close>: it cannot be opened, and nothing is read.\<close>

definition configureFromGlobal :: "Conf_Env \<Rightarrow> string option \<Rightarrow> RegisteredLoggers \<times> Log_Sinks \<Rightarrow>
    (RegisteredLoggers \<times> Log_Sinks) result" where
  "configureFromGlobal ce content st =
     (case content of None \<Rightarrow> Inr st | Some s \<Rightarrow> global_lines ce (good_lines s) '''' None st)"

definition configureFromArg :: "Conf_Env \<Rightarrow> (string \<Rightarrow> string option) \<Rightarrow> CommandLineArgs \<Rightarrow> string \<Rightarrow> RegisteredLoggers \<times> Log_Sinks \<Rightarrow>
    (bool \<times> RegisteredLoggers \<times> Log_Sinks) result" where
  "configureFromArg ce file args argKey st =
     (if \<not> hasParamWithValue argKey args then Inr (False, st)
      else andThen (configureFromGlobal ce (file (getParamValue argKey args)) st) (\<lambda>st'. Inr (True, st')))"

end
