(* ===== verification/Log_Calls_Facts.thy ===== *)
theory Log_Calls_Facts
  imports Log_Filters_Facts Log_Calls
begin

text \<open>The facts of formats, of statements for several loggers, of containers and of the other helpers.\<close>

section \<open>Formats\<close>

definition escape_percent :: "string \<Rightarrow> string" where
  "escape_percent s = concat (map (\<lambda>x. if x = CHR ''%'' then ''%%'' else [x]) s)"

text \<open>A piece in which every \<open>%\<close> is doubled is taken as it is, and \<open>%v\<close> takes a value.\<close>

lemma log_format_piece:
  assumes "AutoSpacing \<notin> env_flags env"
  shows "log_format env (escape_percent p @ ''%v'' @ s) (v # vs) lg = log_format env s vs (lg\<lparr>lg_stream := lg_stream lg @ p @ v\<rparr>)"
  using assms
proof (induction p arbitrary: lg)
  case Nil
  then show ?case by (simp add: escape_percent_def message_insert_def)
next
  case (Cons x p)
  note IH = Cons.IH [OF Cons.prems, of "lg\<lparr>lg_stream := lg_stream lg @ [x]\<rparr>"]
  show ?case
  proof (cases "x = CHR ''%''")
    case True
    then show ?thesis using IH Cons.prems by (simp add: escape_percent_def message_insert_def)
  next
    case False
    then show ?thesis using IH Cons.prems by (simp add: escape_percent_def message_insert_def)
  qed
qed

lemma log_format_render:
  assumes "AutoSpacing \<notin> env_flags env"
  shows "log_format env (concat (map (\<lambda>(p, _). escape_percent p @ ''%v'') ps) @ rest) (map snd ps) lg =
    (lg\<lparr>lg_stream := lg_stream lg @ concat (map (\<lambda>(p, v). p @ v) ps)\<rparr>, Some rest)"
  using log_format_piece [OF assms]
proof (induction ps arbitrary: lg)
  case (Cons x ps)
  then show ?case by (cases x) simp
qed simp

text \<open>With more values than places no writer is made, and the text stays in the stream of the logger.\<close>

lemma too_many_values:
  assumes "AutoSpacing \<notin> env_flags env" "CHR ''%'' \<notin> set s"
  shows "Logger_log env on level vlevel s (v # vs) (lg, out) = Inr (False, lg\<lparr>lg_stream := lg_stream lg @ s\<rparr>, out)"
proof -
  have "log_format env s (v # vs) lg = (lg\<lparr>lg_stream := lg_stream lg @ s\<rparr>, None)"
    using assms by (induction s arbitrary: lg) (auto simp: message_insert_def)
  then show ?thesis by (simp add: Logger_log_def)
qed

section \<open>Several loggers\<close>

definition disabled :: "Level \<Rightarrow> Reg_Logger \<Rightarrow> bool" where
  "disabled level lg \<longleftrightarrow> (\<exists>tc. rl_typed lg = Some tc \<and> \<not> unsafeGetConfigByVal False level (m_enabledMap tc))"

definition takes_part :: "string \<Rightarrow> (string \<Rightarrow> bool) \<Rightarrow> Level \<Rightarrow> string \<Rightarrow> Reg_Logger \<Rightarrow> bool" where
  "takes_part name on level i lg \<longleftrightarrow> (if on i then ready name lg else disabled level lg \<and> rl_stream lg = '''')"

lemma run_on_typed:
  assumes "rg_loggers reg i = Some lg" "rl_typed lg = Some tc"
  shows "run_on i act (reg, out) = andThen (act (as_logger tc lg, out)) (\<lambda>(r, l, out').
    Inr (r, reg\<lparr>rg_loggers := (rg_loggers reg)(i \<mapsto> lg\<lparr>rl_unflushed := lg_unflushed l, rl_stream := lg_stream l\<rparr>)\<rparr>, out'))"
  using assms by (simp add: run_on_def)

lemma takes_part_typed: "takes_part name on level i lg \<Longrightarrow> \<exists>tc. rl_typed lg = Some tc"
  by (auto simp: takes_part_def ready_def disabled_def split: if_splits)

lemma update_stream_typed:
  assumes "rg_loggers reg i = Some lg" "rl_typed lg = Some tc"
  shows "update_stream f i (reg, out) = Inr (reg\<lparr>rg_loggers := (rg_loggers reg)(i \<mapsto> lg\<lparr>rl_stream := f (rl_stream lg)\<rparr>)\<rparr>, out)"
  by (simp add: update_stream_def run_on_typed [OF assms] as_logger_def)

lemma initialize_typed:
  assumes "rg_loggers reg i = Some lg" "takes_part name on (msg_level site) i lg" "plain_site name env site"
  shows "initializeLogger ce env site i (reg, out) = Inr ((on i, True), reg, out)"
proof -
  obtain tc where tc: "rl_typed lg = Some tc" using takes_part_typed [OF assms(2)] by blast
  have "writer_proceeds env (as_logger tc lg) (msg_level site) = on i"
    using assms(2,3) tc by (auto simp: writer_proceeds_def plain_site_def takes_part_def ready_def disabled_def client_typed_def as_logger_def
        split: if_splits)
  moreover have "lg\<lparr>rl_unflushed := lg_unflushed (as_logger tc lg), rl_stream := lg_stream (as_logger tc lg)\<rparr> = lg"
    by (simp add: as_logger_def)
  moreover have "reg\<lparr>rg_loggers := (rg_loggers reg)(i \<mapsto> lg)\<rparr> = reg" using assms(1) by (simp add: fun_upd_idem)
  ultimately show ?thesis
    using assms(1) by (simp add: initializeLogger_def registered_get_def run_on_typed [OF assms(1) tc])
qed

lemma trigger_ready:
  assumes "rg_loggers reg i = Some lg" "ready name (lg\<lparr>rl_stream := ''''\<rparr>)" "plain_site name env site" "msg_level site \<noteq> Fatal"
  shows "\<exists>lg'. triggerDispatch env site i (reg, out) = Inr (False, reg\<lparr>rg_loggers := (rg_loggers reg)(i \<mapsto> lg')\<rparr>,
      after_line name (line_text env site (rl_stream lg)) out) \<and> ready name lg'"
proof -
  obtain tc where tc: "rl_typed lg = Some tc" "client_typed name tc" "counted \<subseteq> dom (rl_unflushed lg)"
    using assms(2) by (auto simp: ready_def)
  let ?l = "as_logger tc lg"
  have "msg_level site \<in> dom (rl_unflushed lg)" using assms(3) tc(3) level_counted unfolding plain_site_def by blast
  then have l: "msg_level site \<in> dom (lg_unflushed ?l)" by (simp add: as_logger_def)
  have c: "client_typed name (lg_typed ?l)" using tc(2) by (simp add: as_logger_def)
  have on: "writer_proceeds env ?l (msg_level site)" using c assms(3) by (simp add: client_typed_def writer_proceeds_def plain_site_def)
  obtain u where u: "writer_run env NormalLog site [] (?l, out) =
      Inr (True, ?l\<lparr>lg_unflushed := u, lg_stream := ''''\<rparr>, after_line name (line_text env site (lg_stream ?l)) out)"
    "dom u = dom (lg_unflushed ?l)" using writer_client [OF c assms(3) l, of "[]" out] by auto
  then obtain l2 where d: "dispatcher_dispatch env True True NormalLog (site\<lparr>msg_message := lg_stream ?l\<rparr>) (?l, out) =
      Inr (l2, after_line name (line_text env site (lg_stream ?l)) out)" "l2\<lparr>lg_stream := ''''\<rparr> = ?l\<lparr>lg_unflushed := u, lg_stream := ''''\<rparr>"
    using on by (auto simp: writer_run_def andThen_eq_Inr_iff Let_def split: prod.splits)
  have "lg_unflushed l2 = u" using arg_cong [OF d(2), of lg_unflushed] by simp
  then have "triggerDispatch env site i (reg, out) =
      Inr (False, reg\<lparr>rg_loggers := (rg_loggers reg)(i \<mapsto> lg\<lparr>rl_unflushed := u, rl_stream := ''''\<rparr>)\<rparr>,
        after_line name (line_text env site (rl_stream lg)) out)"
    using d(1) assms(4) by (simp add: triggerDispatch_def run_on_typed [OF assms(1) tc(1)]) (simp add: as_logger_def)
  moreover have "ready name (lg\<lparr>rl_unflushed := u, rl_stream := ''''\<rparr>)"
    using tc u(2) by (simp add: ready_def as_logger_def)
  ultimately show ?thesis by blast
qed

definition all_take_part :: "string \<Rightarrow> (string \<Rightarrow> bool) \<Rightarrow> Level \<Rightarrow> string set \<Rightarrow> RegisteredLoggers \<Rightarrow> bool" where
  "all_take_part name on level ids reg \<longleftrightarrow> (\<forall>i \<in> ids. \<exists>lg. rg_loggers reg i = Some lg \<and> takes_part name on level i lg)"

text \<open>
  The loop: \<open>text\<close> is in the stream of the current logger, or has been dispatched already and copied;
  a current logger that is disabled only leaves the empty text to the others.
\<close>

definition text_kept :: "(string \<Rightarrow> bool) \<Rightarrow> string \<Rightarrow> string option \<Rightarrow> string \<Rightarrow> Reg_Logger \<Rightarrow> bool" where
  "text_kept on text message i lg \<longleftrightarrow>
     (case message of None \<Rightarrow> rl_stream lg = text \<and> (\<not> on i \<longrightarrow> text = '''') | Some m \<Rightarrow> m = text \<and> rl_stream lg = '''')"

lemma process_step:
  assumes "rg_loggers reg i = Some lg" "takes_part name on (msg_level site) i (lg\<lparr>rl_stream := ''''\<rparr>)" "text_kept on text message i lg"
    and site: "plain_site name env site" "msg_level site \<noteq> Fatal"
  shows "\<exists>message' lg' out'. (\<forall>ids. (many \<or> ids = []) \<longrightarrow>
      process_loggers ce env site many i (on i, True) message ids (reg, out) =
        (case ids of [] \<Rightarrow> Inr (False, reg\<lparr>rg_loggers := (rg_loggers reg)(i \<mapsto> lg')\<rparr>, out')
         | j # js \<Rightarrow> andThen (initializeLogger ce env site j (reg\<lparr>rg_loggers := (rg_loggers reg)(i \<mapsto> lg')\<rparr>, out'))
             (\<lambda>(flags, st). process_loggers ce env site many j flags message' js st))) \<and>
    out' = (if on i then after_line name (line_text env site text) out else out) \<and>
    takes_part name on (msg_level site) i lg' \<and> rl_stream lg' = '''' \<and>
    (many \<longrightarrow> (\<forall>j l. rl_stream l = '''' \<longrightarrow> text_kept on text message' j l))"
proof -
  obtain tc where tc: "rl_typed lg = Some tc" using takes_part_typed [OF assms(2)] by auto
  show ?thesis
  proof (cases "on i")
    case True
    let ?m = "case message of None \<Rightarrow> rl_stream lg | Some m \<Rightarrow> rl_stream lg @ m"
    let ?lg = "lg\<lparr>rl_stream := ?m\<rparr>" and ?message = "if message = None then Some (if many then rl_stream lg else '''') else message"
    let ?reg = "reg\<lparr>rg_loggers := (rg_loggers reg)(i \<mapsto> ?lg)\<rparr>"
    have m: "?m = text" using assms(3) by (simp add: text_kept_def split: option.splits)
    have read: "run_on i (\<lambda>(lg, out). Inr (lg_stream lg, lg, out)) (reg, out) =
        Inr (rl_stream lg, reg\<lparr>rg_loggers := (rg_loggers reg)(i \<mapsto> lg)\<rparr>, out)"
      by (simp add: run_on_typed [OF assms(1) tc]) (simp add: as_logger_def)
    have add: "(case message of Some m \<Rightarrow> update_stream (\<lambda>x. x @ m) i (reg, out) | None \<Rightarrow> Inr (reg, out)) = Inr (?reg, out)"
      using update_stream_typed [OF assms(1) tc] assms(1) by (simp add: fun_upd_idem split: option.splits)
    have "ready name (?lg\<lparr>rl_stream := ''''\<rparr>)" using assms(2) True by (simp add: takes_part_def)
    then obtain lg' where t: "triggerDispatch env site i (?reg, out) = Inr (False, ?reg\<lparr>rg_loggers := (rg_loggers ?reg)(i \<mapsto> lg')\<rparr>,
        after_line name (line_text env site text) out)" "ready name lg'"
      using trigger_ready [of ?reg i ?lg name env site out] site m by auto
    have "text_kept on text ?message j l" if "many" "rl_stream l = ''''" for j l
      using assms(3) that by (auto simp: text_kept_def split: option.splits)
    moreover have "takes_part name on (msg_level site) i lg'" "rl_stream lg' = ''''" using t(2) True by (simp_all add: takes_part_def ready_def)
    ultimately show ?thesis using True read add t(1)
      by (intro exI [of _ ?message] exI [of _ lg'] exI [of _ "after_line name (line_text env site text) out"]) (simp split: list.splits)
  next
    case False
    let ?lg = "lg\<lparr>rl_stream := ''''\<rparr>"
    have clear: "update_stream (\<lambda>_. '''') i (reg, out) = Inr (reg\<lparr>rg_loggers := (rg_loggers reg)(i \<mapsto> ?lg)\<rparr>, out)"
      using update_stream_typed [OF assms(1) tc] by simp
    have "text_kept on text message j l" if "rl_stream l = ''''" for j l
      using assms(3) False that by (auto simp: text_kept_def split: option.splits)
    then show ?thesis using False clear assms(2)
      by (intro exI [of _ message] exI [of _ ?lg] exI [of _ out]) (simp split: list.splits)
  qed
qed

lemma process_run:
  assumes "rg_loggers reg i = Some lg" "takes_part name on (msg_level site) i (lg\<lparr>rl_stream := ''''\<rparr>)" "text_kept on text message i lg"
    and "all_take_part name on (msg_level site) (set ids - {i}) reg" "many \<or> ids = []" "buffered out name = ''''"
    and "length (on_disk out name @ concat (map (\<lambda>j. if on j then line_text env site text else '''') (i # ids))) < limit"
    and site: "plain_site name env site" "msg_level site \<noteq> Fatal"
  shows "\<exists>reg' out'. process_loggers ce env site many i (on i, True) message ids (reg, out) = Inr (False, reg', out') \<and>
    on_disk out' = (on_disk out)(name := on_disk out name @ concat (map (\<lambda>j. if on j then line_text env site text else '''') (i # ids))) \<and>
    buffered out' = buffered out \<and> std_out out' = std_out out"
  using assms(1-7)
proof (induction ids arbitrary: reg i lg message out)
  case Nil
  from process_step [OF Nil.prems(1-3) site, of many ce out] show ?case using Nil.prems(6,7)
    by (auto simp: after_line_def Let_def fun_eq_iff fun_upd_idem)
next
  case (Cons j js)
  let ?l = "line_text env site text"
  obtain message' lg' out' where step: "process_loggers ce env site many i (on i, True) message (j # js) (reg, out) =
      andThen (initializeLogger ce env site j (reg\<lparr>rg_loggers := (rg_loggers reg)(i \<mapsto> lg')\<rparr>, out'))
        (\<lambda>(flags, st). process_loggers ce env site many j flags message' js st)"
    and out': "out' = (if on i then after_line name ?l out else out)"
    and lg': "takes_part name on (msg_level site) i lg'" "rl_stream lg' = ''''"
    and kept: "\<forall>j l. rl_stream l = '''' \<longrightarrow> text_kept on text message' j l"
    using process_step [OF Cons.prems(1-3) site, of many ce out] Cons.prems(5) by (metis (no_types, lifting) list.simps(5) list.distinct(1))
  let ?reg = "reg\<lparr>rg_loggers := (rg_loggers reg)(i \<mapsto> lg')\<rparr>"
  have all: "all_take_part name on (msg_level site) (set (j # js)) ?reg"
    using Cons.prems(4) lg'(1) by (auto simp: all_take_part_def)
  then obtain lgj where lgj: "rg_loggers ?reg j = Some lgj" "takes_part name on (msg_level site) j lgj"
    unfolding all_take_part_def by (meson list.set_intros(1))
  have e: "rl_stream lgj = ''''" using lgj(2) by (auto simp: takes_part_def ready_def split: if_splits)
  then have "lgj\<lparr>rl_stream := ''''\<rparr> = lgj" by (cases lgj) simp
  then have p: "takes_part name on (msg_level site) j (lgj\<lparr>rl_stream := ''''\<rparr>)" using lgj(2) by simp
  have o: "on_disk out' = (on_disk out)(name := on_disk out name @ (if on i then ?l else ''''))" "buffered out' = buffered out"
    "std_out out' = std_out out"
    using out' Cons.prems(6,7) by (auto simp: after_line_def Let_def fun_eq_iff)
  have b0: "buffered out' name = ''''" using o(2) Cons.prems(6) by simp
  have small: "length (on_disk out' name @ concat (map (\<lambda>j. if on j then ?l else '''') (j # js))) < limit"
    using Cons.prems(7) o(1) by simp
  have rest: "all_take_part name on (msg_level site) (set js - {j}) ?reg" using all by (simp add: all_take_part_def)
  have many: "many \<or> js = []" using Cons.prems(5) by simp
  obtain reg' out2 where run: "process_loggers ce env site many j (on j, True) message' js (?reg, out') = Inr (False, reg', out2)"
    "on_disk out2 = (on_disk out')(name := on_disk out' name @ concat (map (\<lambda>j. if on j then ?l else '''') (j # js)))"
    "buffered out2 = buffered out'" "std_out out2 = std_out out'"
    using Cons.IH [OF lgj(1) p _ rest many b0 small, of message'] kept e by blast
  have "on_disk out2 = (on_disk out)(name := on_disk out name @ concat (map (\<lambda>j. if on j then ?l else '''') (i # j # js)))"
    unfolding run(2) o(1) by simp
  moreover have "process_loggers ce env site many i (on i, True) message (j # js) (reg, out) = Inr (False, reg', out2)"
    using step run(1) initialize_typed [OF lgj site(1)] by simp
  ultimately show ?case using run(3,4) o(2,3) by (metis (no_types, lifting))
qed

section \<open>Containers, directories, durations\<close>

fun separated :: "string \<Rightarrow> string list \<Rightarrow> string" where
  "separated sep [] = ''''"
| "separated sep [x] = x"
| "separated sep (x # y # xs) = x @ sep @ separated sep (y # xs)"

lemma separated_indices:
  "concat (map (\<lambda>i. es ! i @ (if i < length es - 1 then sep else '''')) [0..<length es]) = separated sep es"
proof (induction sep es rule: separated.induct)
  case (3 sep x y xs)
  have e: "map (\<lambda>i. (x # y # xs) ! i @ (if i < length (x # y # xs) - 1 then sep else '''')) [0..<length (x # y # xs)] =
      (x @ sep) # map (\<lambda>i. (y # xs) ! i @ (if i < length (y # xs) - 1 then sep else '''')) [0..<length (y # xs)]"
    by (simp add: upt_conv_Cons del: upt_Suc flip: map_Suc_upt)
  show ?case unfolding e using 3 by (simp del: upt_Suc)
qed simp_all

lemma container_text:
  assumes "AutoSpacing \<notin> env_flags env" "length es \<le> 100"
  shows "lg_stream (writeIterator env es lg) = lg_stream lg @ ''['' @ separated (container_separator env) es @ '']''"
proof -
  let ?sep = "\<lambda>i. if i < length es - 1 then container_separator env else ''''"
  have "lg_stream (fold (\<lambda>i l. (message_insert env (es ! i) l)\<lparr>lg_stream := lg_stream (message_insert env (es ! i) l) @ ?sep i\<rparr>) is lg) =
      lg_stream lg @ concat (map (\<lambda>i. es ! i @ ?sep i) is)" for "is" lg
    using assms(1) by (induction "is" arbitrary: lg) (simp_all add: message_insert_def)
  then show ?thesis using assms separated_indices [of es "container_separator env"]
    by (simp add: writeIterator_def Let_def min_absorb1)
qed

lemma last_slash_append: "CHR ''/'' \<notin> set f \<Longrightarrow> last_slash (p @ ''/'' @ f) = Some (length p)"
  by (simp add: last_slash_def)

lemma log_directory:
  assumes "CHR ''/'' \<notin> set f" "f \<noteq> ''''"
  shows "insertFile_path (\<lambda>_. False) mkdir (''./log/'' @ f) = [''./'', ''./log/'']"
proof -
  have "extractPathFromFilename (''./log/'' @ f) = ''./log/''"
    using last_slash_append [OF assms(1), of "''./log''"] by (simp add: extractPathFromFilename_def)
  then show ?thesis using assms(2) by (simp add: insertFile_path_def createPath_def)
qed

lemma duration_rounded_down:
  "fs \<noteq> [] \<Longrightarrow> formatTime_loop time fs = (t, unit) \<Longrightarrow>
    \<exists>k < length fs. unit = snd (fs ! k) \<and> t = time div prod_list (map fst (take k fs))"
proof (induction time fs rule: formatTime_loop.induct)
  case (1 time val u x fs)
  show ?case
  proof (cases "time \<le> val \<or> val = 1000 \<and> time < 1900")
    case True
    then have "t = time" "unit = u" using "1.prems"(2) by (auto split: if_splits)
    then show ?thesis by (intro exI [of _ 0]) simp
  next
    case False
    then obtain k where "k < length (x # fs)" "unit = snd ((x # fs) ! k)" "t = time div val div prod_list (map fst (take k (x # fs)))"
      using 1 by auto
    then show ?thesis by (intro exI [of _ "Suc k"]) (simp add: div_mult2_eq)
  qed
qed auto

text \<open>The section of a logger whose name has one character configures the logger before it.\<close>

lemma short_logger_section:
  "global_lines ce (''-- x'' # ls) ss (Some ident) st =
     andThen (configure_section ce ss (Some ident) st) (\<lambda>st1. global_lines ce ls '''' (Some ident) st1)"
proof -
  have "trim ''-- x'' = ''-- x''" "\<not> isComment ''-- x''" "trim (ignoreComments ''-- x'') = ''-- x''" "startsWith ''-- x'' ''--''"
    "trim (drop 2 ''-- x'') = ''x''" by code_simp+
  then show ?thesis by (simp add: Let_def)
qed

section \<open>Property\<close>

text \<open>
  One statement for several loggers (\<open>MultiLoggerSupport\<close>), which share a file and of which some may
  be disabled for the level: the file grows by one line for each enabled one, in the order of the
  statement, and nothing else changes.  The message of these lines is the one that was written when
  the first logger of the list is enabled; otherwise they are empty.
\<close>

theorem several_loggers:
  assumes "all_take_part name on (msg_level site) (set (i # ids)) reg" "MultiLoggerSupport \<in> env_flags env"
    and site: "plain_site name env site" "msg_level site \<noteq> Fatal"
    and "buffered out name = ''''" "line = line_text env site (if on i then concat parts else '''')"
    and "length (on_disk out name @ concat (map (\<lambda>j. if on j then line else '''') (i # ids))) < 209715200"
  shows "\<exists>reg' out'. CLOG ce env i ids site parts (reg, out) = Inr (False, reg', out') \<and>
    on_disk out' = (on_disk out)(name := on_disk out name @ concat (map (\<lambda>j. if on j then line else '''') (i # ids))) \<and>
    buffered out' = buffered out \<and> std_out out' = std_out out"
proof -
  let ?text = "if on i then concat parts else ''''"
  obtain lg where lg: "rg_loggers reg i = Some lg" "takes_part name on (msg_level site) i lg"
    using assms(1) by (auto simp: all_take_part_def)
  obtain tc where tc: "rl_typed lg = Some tc" using takes_part_typed [OF lg(2)] by blast
  have e: "rl_stream lg = ''''" using lg(2) by (auto simp: takes_part_def ready_def split: if_splits)
  let ?lg = "lg\<lparr>rl_stream := ?text\<rparr>"
  let ?reg = "reg\<lparr>rg_loggers := (rg_loggers reg)(i \<mapsto> ?lg)\<rparr>"
  have same: "lg\<lparr>rl_stream := ''''\<rparr> = lg" using e by (cases lg) simp
  have auto: "AutoSpacing \<notin> env_flags env" using site(1) by (simp add: plain_site_def)
  have put: "(if on i then andThen (run_on i (\<lambda>(lg, out). Inr ((), fold (message_insert env) parts lg, out)) (reg, out)) (\<lambda>(_, st2). Inr st2)
      else Inr (reg, out)) = Inr (?reg, out)"
    using lg(1) e same inserted [OF auto] by (simp add: run_on_typed [OF lg(1) tc] fun_upd_idem) (simp add: as_logger_def)
  have "all_take_part name on (msg_level site) (set ids - {i}) ?reg" using assms(1) by (auto simp: all_take_part_def)
  moreover have "takes_part name on (msg_level site) i (?lg\<lparr>rl_stream := ''''\<rparr>)" using lg(2) same by simp
  moreover have "text_kept on ?text None i ?lg" by (simp add: text_kept_def)
  ultimately obtain reg' out' where
    "process_loggers ce env site (ids \<noteq> []) i (on i, True) None ids (?reg, out) = Inr (False, reg', out')"
    "on_disk out' = (on_disk out)(name := on_disk out name @ concat (map (\<lambda>j. if on j then line else '''') (i # ids)))"
    "buffered out' = buffered out" "std_out out' = std_out out"
    using process_run [of ?reg i ?lg name on site ?text None ids "ids \<noteq> []" out env ce] assms(5-7) site by (auto simp: limit_def)
  then show ?thesis using initialize_typed [OF lg site(1)] put assms(2) by (simp add: CLOG_def)
qed

theorem several_loggers_witness:
  "\<exists>reg reg' out'. registered_has ''net'' reg \<and> registered_has ''default'' reg \<and>
     CLOG demo_conf (demo_env\<lparr>env_flags := {MultiLoggerSupport}\<rparr>) ''net'' [''default''] demo_site [''lost''] (reg, demo_sinks) =
       Inr (False, reg', out') \<and>
     on_disk out' ''./log/client_2024040815.log'' = ''[2024-04-08 15:05:00,000 | INFO] | '' @ [CHR 0x0A]"
proof -
  let ?name = "''./log/client_2024040815.log''" and ?env = "demo_env\<lparr>env_flags := {MultiLoggerSupport}\<rparr>"
  have name: "?name = ''./log/client_'' @ log_date (ce_time demo_conf) @ ''.log''" using demo_log_name by simp
  obtain reg0 :: RegisteredLoggers and lg where reg0: "rg_loggers reg0 = [''default'' \<mapsto> lg]" "ready ?name lg"
  proof -
    have "\<exists>reg lg. client_log_main demo_conf demo_conf demo_conf [''default''] (Some log_conf) demo_sinks = Inr (reg, demo_sinks) \<and>
        rg_loggers reg = [''default'' \<mapsto> lg] \<and> ready ?name lg" by (rule client_started [OF name name]) simp_all
    then show thesis using that by blast
  qed
  let ?off = "(Reg_Logger_new ''net'')\<lparr>rl_typed := Some ((typed_empty [])\<lparr>m_enabledMap := [(Global, False)]\<rparr>)\<rparr>"
  let ?reg = "reg0\<lparr>rg_loggers := [''default'' \<mapsto> lg, ''net'' \<mapsto> ?off]\<rparr>" and ?on = "\<lambda>i. i = ''default''"
  have "disabled (msg_level demo_site) ?off" "rl_stream ?off = ''''"
    by (simp_all add: disabled_def unsafeGetConfigByVal_def Reg_Logger_new_def rl_initUnflushedCount_def)
  then have all: "all_take_part ?name ?on (msg_level demo_site) (set [''net'', ''default'']) ?reg"
    using reg0(2) by (simp add: all_take_part_def takes_part_def)
  have "localBuff 2024 4 = ''2024''" "localBuff 4 2 = ''04''" "localBuff 8 2 = ''08''" "localBuff 15 2 = ''15''"
    "localBuff 5 2 = ''05''" "localBuff 0 2 = ''00''" "localBuff 0 3 = ''000''" by code_simp+
  then have line: "line_text ?env demo_site '''' = ''[2024-04-08 15:05:00,000 | INFO] | '' @ [CHR 0x0A]"
    by (simp add: line_text_def stamp_def level_values_def)
  have site: "plain_site ?name ?env demo_site" "msg_level demo_site \<noteq> Fatal" "MultiLoggerSupport \<in> env_flags ?env"
    "buffered demo_sinks ?name = ''''" by (simp_all add: plain_site_def)
  have "line_text ?env demo_site '''' = line_text ?env demo_site (if ?on ''net'' then concat [''lost''] else '''')" by simp
  from several_loggers [OF all site(3,1,2,4) this, of demo_conf]
  obtain reg' out' where "CLOG demo_conf ?env ''net'' [''default''] demo_site [''lost''] (?reg, demo_sinks) = Inr (False, reg', out')"
    "on_disk out' ?name = line_text ?env demo_site ''''"
    unfolding line by auto
  then show ?thesis unfolding line by (intro exI [of _ ?reg] exI [of _ reg'] exI [of _ out']) (simp add: registered_has_def)
qed

end
