(* ===== verification/Failover.thy ===== *)
theory Failover
  imports Cache_Properties Master_Properties
begin

text \<open>
  Fail-over in the program as it is started: what a replica holds when its primary dies, where the
  clients are sent, and what the servers make of the announcement.
\<close>

section \<open>The replica as it is started\<close>

text \<open>
  The turns of the threads that \<open>ths\<close> names, in a server to which nobody writes: clients may read from
  it, and no peer hands an entry over to it.
\<close>

inductive started_step :: "cache_thread list \<Rightarrow> Cache \<Rightarrow> Cache \<Rightarrow> bool" for ths where
  beat: "Heartbeat_thread \<in> set ths \<Longrightarrow> Heartbeat r later c = Inr (m, c') \<Longrightarrow> started_step ths c c'"
| read_request: "Client_chat_thread \<in> set ths \<Longrightarrow> CHR ''#'' \<notin> set (recv_text r) \<Longrightarrow>
    Client_chat r c = Inr (reply, c') \<Longrightarrow> started_step ths c c'"
| pass_alone: "Cache_pass_thread \<in> set ths \<Longrightarrow> cache_pass net order None c = Inr (out, c') \<Longrightarrow> started_step ths c c'"
| mirror: "Replica_chat_thread \<in> set ths \<Longrightarrow> replica_chat net phase m c = Inr (phase', ms, c') \<Longrightarrow> started_step ths c c'"

definition empty_store :: "Cache \<Rightarrow> bool" where
  "empty_store c \<longleftrightarrow> lru_repr (MainCache c) [] \<and> lcapacity (MainCache c) = 10"

lemma empty_store_cong: "MainCache c' = MainCache c \<Longrightarrow> empty_store c' = empty_store c"
  by (simp add: empty_store_def)

lemma empty_read:
  assumes "empty_store c" "CHR ''#'' \<notin> set m"
  shows "LRU_handle_task m c = Inr (''FAILED#'' @ m @ ''#'' @ local_addr c, c)"
proof -
  have "\<not> check m (MainCache c)" using check_iff [of "MainCache c" "[]" m] assms(1) by (simp add: empty_store_def)
  then show ?thesis using assms(2) by (simp add: LRU_handle_task_def spear_full [THEN iffD2])
qed

lemma empty_chat:
  assumes "empty_store c" "CHR ''#'' \<notin> set (recv_text r)" "Client_chat r c = Inr (reply, c')"
  shows "MainCache c' = MainCache c"
  using assms(3) empty_read [OF assms(1,2)] by (auto simp: Client_chat_def andThen_eq_Inr_iff split: if_splits)

lemma empty_pass:
  assumes "empty_store c" "cache_pass net order None c = Inr (out, c')"
  shows "MainCache c' = MainCache c"
proof -
  have "lmap (MainCache c) k = None" for k
    using assms(1) check_iff [of "MainCache c" "[]" k] by (simp add: empty_store_def check_def)
  then have none: "all_key order (MainCache c) = []" by (simp add: all_key_def)
  have idle: "MainCache c1 = MainCache c" if "from_single_cache sys None c = Inr c1" for sys c1
    using that by (auto simp: from_single_cache_def andThen_eq_Inr_iff split: if_splits)
  then show ?thesis using assms(2) none
    by (auto simp: cache_pass_def cal_hash_key_def andThen_eq_Inr_iff split: if_splits dest!: idle)
qed

lemma started_step_keeps:
  assumes "started_step ths c c'"
  shows "keeps c c'"
  using assms by cases (blast intro: keeps_Heartbeat keeps_Client_chat keeps_cache_pass keeps_replica_chat)+

lemma started_empty:
  assumes "started_step ths c c'" "Replica_chat_thread \<notin> set ths" "empty_store c"
  shows "empty_store c'"
  using assms(1)
proof cases
  case (beat r later m)
  with Heartbeat_store assms(3) empty_store_cong show ?thesis by blast
next
  case (read_request r reply)
  with empty_chat assms(3) empty_store_cong show ?thesis by blast
next
  case (pass_alone net order out)
  with empty_pass assms(3) empty_store_cong show ?thesis by blast
qed (use assms(2) in simp)

lemma started_run:
  assumes "cache_main [prog, st, ip, cp, pp] = Inr (c0, ths)" "(started_step ths)\<^sup>*\<^sup>* c0 c"
  shows "empty_store c \<and> local_addr c = ip @ '':'' @ cp \<and> buffer_ok c"
proof -
  note c0 = cache_main_sel [OF assms(1)]
  have thread: "Replica_chat_thread \<notin> set ths" by (simp add: c0(2) Cache_Start_def)
  have "empty_store c0" using lru_repr_Cache_new by (simp add: c0(1) empty_store_def)
  with assms(2) have "empty_store c \<and> keeps c0 c"
    by (induction rule: rtranclp_induct) (auto intro: started_empty [OF _ thread] keeps_trans started_step_keeps)
  moreover have "buffer_ok c0" by (auto simp: c0(1) buffer_ok_def Cache_new_def)
  moreover have "local_addr c0 = ip @ '':'' @ cp" by (simp add: c0(1) local_addr_def Cache_new_def)
  ultimately show ?thesis by (simp add: keeps_def local_addr_def)
qed

lemma empty_reply:
  assumes "empty_store c" "buffer_ok c" "CHR ''#'' \<notin> set key" "length key + length (local_addr c) + 8 \<le> BUF_SIZE"
  shows "\<exists>rest c'. Client_chat (Received key) c = Inr (Some (padded rest (''FAILED#'' @ key @ ''#'' @ local_addr c)), c')"
proof -
  let ?t = "''FAILED#'' @ key @ ''#'' @ local_addr c"
  obtain rest where rest: "send_buff_client c = (\<lambda>_. rest)" using assms(2) by (auto simp: buffer_ok_def)
  have len: "length ?t \<le> BUF_SIZE" using assms(4) by simp
  have "LRU_handle_task key c = Inr (?t, c)" using empty_read [OF assms(1,3)] .
  then have "Client_chat (Received key) c = Inr (Some (over_buffer (\<lambda>_. rest) ?t),
      c\<lparr>kv_update_flag := True, kv_to_replica := key, send_buff_client := bzero\<rparr>)"
    using rest len by (simp add: Client_chat_def memcpy_def over_buffer_def del: append.simps)
  then show ?thesis unfolding over_buffer_padded [OF len] by blast
qed

section \<open>The announcement\<close>

text \<open>Every text of two addresses makes the scan stop at a separator, behind which the lambda has no value.\<close>

lemma spear_found: "CHR ''#'' \<in> set s \<Longrightarrow> n \<le> spear_loop CHR ''#'' s n \<and> spear_loop CHR ''#'' s n < n + length s"
  by (auto simp: in_set_conv_decomp_first [of _ s] str_simps)

lemma announcement_undefined:
  assumes "status c \<noteq> ''K''"
  shows "ReadFromMaster (''C#'' @ x @ ''#'' @ y) c = Inl Undefined"
proof -
  let ?m = "''C#'' @ x @ ''#'' @ y" and ?s = "spear_loop CHR ''#'' (x @ ''#'' @ y) 2"
  have s: "2 \<le> ?s" "?s < length ?m" using spear_found [of "x @ ''#'' @ y" 2] by auto
  then have "\<exists>a b. parts ?m ?s = Inr (a, b)" by (auto simp: parts_def part_def substr_def)
  moreover have "master_spear ?m = Inr ?s" by (simp add: master_spear_def)
  moreover have "substr ?m 0 1 = Inr ''C''" by (simp add: substr_def)
  ultimately show ?thesis using assms by (auto simp: ReadFromMaster_def)
qed

lemma heartbeat_announcement:
  assumes "status c \<noteq> ''K''" "initial_flag c"
  shows "Heartbeat (Received (''C#'' @ x @ ''#'' @ y)) later c = Inl Undefined"
  using assms(2) announcement_undefined [OF assms(1), of x y] by (simp add: Heartbeat_def)

lemma posted_all: "post_all fds msg = Inr ps \<Longrightarrow> ps = map (\<lambda>f. (f, msg)) fds"
  by (induction fds arbitrary: ps) (auto simp: andThen_eq_Inr_iff post_to_def split: if_splits)

lemma promotion_posts:
  assumes "promote_replica fd m = Inr (ps, m')"
  obtains x y where "ps = map (\<lambda>f. (f, ''C#'' @ x @ ''#'' @ y)) (fd_node m')"
proof -
  from assms obtain ns x y where
    "post_all ns (''C#'' @ x @ ''#'' @ y) = Inr ps" "fd_node m' = ns"
    by (auto simp: promote_replica_def andThen_eq_Inr_iff Let_def modify_def)
  with posted_all that show thesis by blast
qed

section \<open>Property\<close>

text \<open>
  C5. Fail-over as the program is started loses the entries: the thread that would mirror the requests
  of the primary is not among those that a server starts.  When the coordinator finds a primary with a
  replica dead, it sends the clients to the replica for each key of the dead server, and the replica, to
  which clients have not written and no server has handed an entry over, answers \<open>FAILED\<close> for every one of
  these keys, whatever the primary held (the keys hold no separator and are short enough for the reply).
  The announcement that the coordinator sends at the same time to every member, the replica among them,
  has no defined effect on a server that has received its list of servers, as every replica counts from the
  start, and that is not leaving itself: it reads the announcement with undefined behaviour.
\<close>

theorem failover_end_to_end:
  assumes master: "master_reach u m" "first_dead now order m = Inr (Some fd, m0)" "caches_list m fd = Some e"
      "fd_status e = CHR ''P''" "0 < fd_pair e" "periodicDetectCache now order m = Inr (ps, m')"
    and replica: "cache_main [prog, ''R'', ip, cp, pp] = Inr (r0, ths)" "(started_step ths)\<^sup>*\<^sup>* r0 r"
      "caches_list m (fd_pair e) = Some (new_replica (fd_pair e) fd ip cp pp)" "field_ok CHR ''#'' ip" "field_ok CHR ''#'' cp"
    and key: "server_index (cacheAddrHash m) key = Inr i" "i < length (fd_node m)" "fd_node m ! i = fd"
      "CHR ''#'' \<notin> set key" "length key + length (ip @ '':'' @ cp) + 8 \<le> BUF_SIZE"
  shows "handleClientMessage key m' = Inr (ip @ '':'' @ cp) \<and>
    (\<exists>rest r'. Client_chat (Received key) r = Inr (Some (padded rest (''FAILED#'' @ key @ ''#'' @ ip @ '':'' @ cp)), r')) \<and>
    fd_pair e \<in> set (fd_node m') \<and>
    (\<exists>msg. (\<forall>f \<in> set (fd_node m'). (f, msg) \<in> set ps) \<and>
      (\<forall>c later. status c \<noteq> ''K'' \<and> initial_flag c \<longrightarrow> Heartbeat (Received msg) later c = Inl Undefined))"
proof -
  have ok: "master_ok u m" using reach_ok [OF master(1)] .
  obtain m2 f where m2: "m0 = m\<lparr>cacheAddrMap := f\<rparr>" "disaster fd m0 = Inr (ps, m2)" "m' = forget fd m2"
    by (rule detect_dead [OF entries_of [OF ok] master(2,6)])
  have pr: "promote_replica fd m0 = Inr (ps, m2)" "caches_list m0 fd = Some e" "master_ok u m0"
    using m2 master(3-5) ok by (simp_all add: disaster_def node_def master_ok_map)
  have ns: "fd_node m2 = replace_first fd (fd_pair e) (fd_node m0)" "cacheAddrHash m2 = cacheAddrHash m0"
    using promote_replica_ok(2) [OF pr(3,2) master(4,5) pr(1)] by blast+
  have "distinct (fd_node m)" using ok by (simp add: master_ok_def tables_ok_def nodes_ok_def)
  then have n': "fd_node m' = map (\<lambda>z. if z = fd then fd_pair e else z) (fd_node m)"
    using ns(1) m2 by (simp add: forget_def replace_first_map)
  have ne: "fd_pair e \<noteq> fd" using partner [of u m fd e] ok master(3,5) by (auto simp: master_ok_def)
  have at: "fd_node m' ! i = fd_pair e" "i < length (fd_node m')" using key(2,3) n' by simp_all
  have entry: "\<exists>b. caches_list m' (fd_pair e) = Some b \<and> fd_ip_port b = ip @ ''#'' @ cp"
    using pr(1,2) m2(1,3) replica(3) ne
    by (auto simp: promote_replica_def andThen_eq_Inr_iff Let_def modify_def node_def forget_def new_replica_def)
  then obtain b' where b': "caches_list m' (fd_node m' ! i) = Some b'" "fd_ip_port b' = ip @ ''#'' @ cp"
    using at(1) by auto
  have "server_index (cacheAddrHash m') key = Inr i" using key(1) ns(2) m2 by (simp add: forget_def)
  from handle_client_addr [OF this at(2) b' replica(4,5)]
  have h: "handleClientMessage key m' = Inr (ip @ '':'' @ cp)" .
  have r: "empty_store r" "local_addr r = ip @ '':'' @ cp" "buffer_ok r" using started_run [OF replica(1,2)] by simp_all
  have c: "\<exists>rest r'. Client_chat (Received key) r = Inr (Some (padded rest (''FAILED#'' @ key @ ''#'' @ ip @ '':'' @ cp)), r')"
    using empty_reply [OF r(1,3) key(4)] key(5) unfolding r(2) by blast
  obtain x y where "ps = map (\<lambda>f. (f, ''C#'' @ x @ ''#'' @ y)) (fd_node m2)" by (rule promotion_posts [OF pr(1)])
  then have "\<forall>f \<in> set (fd_node m'). (f, ''C#'' @ x @ ''#'' @ y) \<in> set ps" using m2(3) by (simp add: forget_def)
  moreover have "fd_pair e \<in> set (fd_node m')" using at nth_mem by metis
  moreover have "\<forall>c later. status c \<noteq> ''K'' \<and> initial_flag c \<longrightarrow> Heartbeat (Received (''C#'' @ x @ ''#'' @ y)) later c = Inl Undefined"
    using heartbeat_announcement by blast
  ultimately show ?thesis using h c by blast
qed

theorem failover_end_to_end_witness:
  "\<exists>m' rest r'. periodicDetectCache 200 [7, 5] demo_pair = Inr ([(7, ''C#a:2#c:6'')], m') \<and>
     handleClientMessage ''k'' m' = Inr ''c:5'' \<and>
     Client_chat (Received ''k'') (Cache_new 10 ''R'' ''c'' ''5'' ''6'') = Inr (Some (padded rest ''FAILED#k#c:5''), r')"
proof -
  let ?r = "Cache_new 10 ''R'' ''c'' ''5'' ''6''"
  obtain m' where m': "periodicDetectCache 200 [7, 5] demo_pair = Inr ([(7, ''C#a:2#c:6'')], m')" using demo_failover by blast
  have e: "caches_list demo_pair 5 = Some (demo_entry\<lparr>fd_pair := 7\<rparr>)" "fd_status (demo_entry\<lparr>fd_pair := 7\<rparr>) = CHR ''P''"
    "0 < fd_pair (demo_entry\<lparr>fd_pair := 7\<rparr>)"
    "caches_list demo_pair (fd_pair (demo_entry\<lparr>fd_pair := 7\<rparr>)) =
      Some (new_replica (fd_pair (demo_entry\<lparr>fd_pair := 7\<rparr>)) 5 ''c'' ''5'' ''6'')"
    by (simp_all add: demo_pair_def demo_entry_def new_replica_def)
  have main: "cache_main [''cache'', ''R'', ''c'', ''5'', ''6''] = Inr (?r, Cache_Start)" by (simp add: cache_main_def)
  have f: "field_ok CHR ''#'' ''c''" "field_ok CHR ''#'' ''5''" by (simp_all add: field_ok_def)
  have ok: "hash_ok demo_pair" using reach_ok [OF demo_pair_reach] by (simp add: master_ok_def)
  have "key2Index (cacheAddrHash demo_pair) \<noteq> []" using demo_ring_nonempty by (simp add: demo_pair_def demo_master_def)
  then obtain i where i: "server_index (cacheAddrHash demo_pair) ''k'' = Inr i" "i < length (fd_node demo_pair)"
    using ok server_index_total server_index_bound unfolding hash_ok_def ring_ok_def by (metis of_nat_less_iff)
  then have k: "fd_node demo_pair ! i = 5" "CHR ''#'' \<notin> set ''k''" "length ''k'' + length (''c'' @ '':'' @ ''5'') + 8 \<le> BUF_SIZE"
    by (simp_all add: demo_pair_def BUF_SIZE_def)
  from failover_end_to_end [OF demo_pair_reach demo_dead(1) e(1-3) m' main rtranclp.rtrancl_refl e(4) f i k]
  have "handleClientMessage ''k'' m' = Inr (''c'' @ '':'' @ ''5'')"
    "\<exists>rest r'. Client_chat (Received ''k'') ?r = Inr (Some (padded rest (''FAILED#'' @ ''k'' @ ''#'' @ ''c'' @ '':'' @ ''5'')), r')"
    by blast+
  then show ?thesis using m' unfolding append.simps by blast
qed

end
