(* ===== verification/Spec2Isabelle.thy ===== *)
theory Spec2Isabelle
  imports Lru_Client Lru_Threads Cluster_Requests Cluster_Scaling Detector Frames Thread_Pool
    Client_Facts Log_Calls_Facts Failover
begin

text \<open>
  A verification library for the distributed cache: a coordinator (\<open>master/mastertry\<close>), cache
  servers (\<open>cache/src\<close>) and clients (\<open>Client\<close>).  The coordinator keeps the live servers and a
  consistent-hash ring over them; it answers a client's key with the address of a server.  The
  client remembers such answers in a local LRU cache and sends reads (\<open>key\<close>) and writes
  (\<open>key#value\<close>) to the servers.  A server keeps its entries in an LRU list, sends heartbeats to
  the coordinator, follows its commands, hands its entries to the others when it leaves, and can
  mirror its requests to a replica that takes over when the server fails.

  The theories, in the order of their imports:

  \<^item> \<open>Prelude\<close>: C++ results (\<open>cxx_error\<close>, \<open>'a result\<close>), vectors, \<open>substr\<close>, decimal numbers, and the
    lemma collections.  \<open>Undefined\<close> stands for undefined behaviour (a null or dangling pointer, an
    index out of range, a buffer overflow, a missing return), \<open>Exit_process\<close> for \<open>exit\<close>, the others
    for exceptions.
  \<^item> \<open>Std_Map\<close>: \<open>std::map\<close> as a sorted association list; locale \<open>ordered_map\<close>, interpreted by it.
  \<^item> \<open>Consistent_Hash\<close>: \<open>ConsistentHash.cpp\<close> (the two copies are the same code).  The hash on 32-bit
    words; the ring; its index is in bounds, does not depend on the history, and moves few keys.
  \<^item> \<open>Lru_Spec\<close>: the abstract store, a recency list, and the locale \<open>lru_store\<close> with the facts that
    hold of every implementation (runs, bounded size, a written value is read back).
  \<^item> \<open>Lru_Server\<close>: \<open>LRU_cache.hpp\<close>, a doubly linked list with two dummies on an explicit heap, and a
    hash table; it refines the recency list (interpretation \<open>server_lru\<close>).
  \<^item> \<open>Lru_Threads\<close>: \<open>get\<close> of the server's store as two steps, since it reads the node after it has
    released the mutex, with the operations of other threads between them.
  \<^item> \<open>Lru_Client\<close>: \<open>lru.hpp\<close>, a \<open>std::list\<close> with iterators as node numbers; it refines the recency
    list as long as \<open>erase\<close> is not used (interpretation \<open>client_lru\<close>).
  \<^item> \<open>Wire\<close>: the two \<open>split\<close> functions (locale \<open>tokenizer\<close>, both interpret it), \<open>slice\<close>, and the loop
    that reads a list of addresses.
  \<^item> \<open>Sockets\<close>: ports, listeners and connections; the results of system calls are arguments.
  \<^item> \<open>Cache_Server\<close>, \<open>Cache_Facts\<close>, \<open>Cache_Properties\<close>: \<open>cache.cpp\<close>.  The record \<open>Cache\<close> has the
    fields of the class and the send buffer of \<open>Client_chat\<close>; one definition per method, and for a loop
    one turn of its body.  \<open>cache_step\<close> interleaves the threads.
  \<^item> \<open>Master\<close>, \<open>Master_Facts\<close>, \<open>Master_Properties\<close>: \<open>master.cpp\<close>, in the same style.  \<open>master_ok\<close> is the
    invariant of its tables and \<open>master_history\<close> the histories of connections, heartbeats, passes of
    the failure detector and scale-ins, each of which is two steps with others between them: the ring
    loses its last server first, and \<open>fd_node\<close> when that server has stopped.
  \<^item> \<open>Progress\<close>: locale \<open>progress\<close>, a loop whose turns lower a rank, and its extension
    \<open>progress_frame\<close>, in which the turns keep an observation.
  \<^item> \<open>Detector\<close>: the failure detector as a loop of passes, each of which removes one dead server at
    most; an interpretation of \<open>progress_frame\<close> (rank: the number of dead servers, observation: the
    live ones).
  \<^item> \<open>Cluster\<close>, \<open>Cluster_Facts\<close>, \<open>Cluster_Properties\<close>: the coordinator and its servers as one
    system.  A \<open>Link\<close> is a server process with the messages on their way to it and from it;
    \<open>cluster_reach\<close> interleaves connections, heartbeats, the servers' threads, the coordinator's
    handlers, its failure detector and scaling in.  The specification of a server is a \<open>view\<close> that
    \<open>notice\<close>s change, whose addresses are pairs of fields without a separator (\<open>notice_ok\<close>);
    \<open>notice_refines\<close> shows that \<open>Heartbeat\<close> implements it.
  \<^item> \<open>Cluster_Requests\<close>: the requests of the clients to such a system: the coordinator names the server
    of a key (\<open>route\<close>) and its \<open>Client_chat\<close> answers.  The specification is one recency list per
    member with the byte that fills the server's next frame (\<open>spec_requests\<close>), which the servers
    implement; a value is read back by any client.
  \<^item> \<open>Two_Shards\<close>, \<open>Cluster_Scaling\<close>: scaling in within such a system, from the command of the operator
    to the store of the server that the clients are sent to afterwards; \<open>Two_Shards\<close> evaluates the
    200 positions of two servers for the example.
  \<^item> \<open>Frames\<close>: the messages of the coordinator as bytes: the frames of \<open>BUF_SIZE\<close> bytes that \<open>strcpy\<close>
    and \<open>send\<close> make, and \<open>recv\<close> calls that take a whole frame or part of one.
  \<^item> \<open>Timer\<close> and \<open>Thread_Pool\<close>: \<open>Timer.cpp\<close>/\<open>timer.cpp\<close> and \<open>threadPool.hpp\<close>; the pool as a step relation
    of submissions, workers, wake-ups of the condition variable and the destructor.
  \<^item> \<open>Client\<close>, \<open>Client_Facts\<close>: \<open>client.cpp\<close>, \<open>tools.cpp\<close>, \<open>client_main.cpp\<close>; handlers of the events of
    the parent process, and the invariant of its tables.
  \<^item> \<open>Log_Config\<close>, \<open>Log_Typed\<close>, \<open>Log_Typed_Facts\<close>: the part of the logging library that the client
    runs when it starts: the parser of \<open>log.conf\<close>, and the formats, file names and values by level that
    a logger makes of it.
  \<^item> \<open>Log_Writer\<close>, \<open>Log_Writer_Facts\<close>: what one statement \<open>LOG(level) << ...\<close> does: the writer, the
    dispatcher, the line that the builder makes of the message, flushing and rolling of the file.
    Nothing on this path throws, so the handler of \<open>triggerDispatch\<close> has no part in it.
  \<^item> \<open>Log_Start\<close>, \<open>Log_Start_Facts\<close>: the loggers of a process, which share their file streams: how one
    is made, configured and configured again, the start and end of the storage, and the first lines of
    \<open>main\<close> of the client until the first line is in the file.
  \<^item> \<open>Log_Filters\<close>, \<open>Log_Filters_Facts\<close>: which statements are written: the hit counters of occasional
    ones, the levels of verbose ones by module, and the arguments of the program.  The lines that a
    run of occasional statements owes are counted by \<open>due_lines\<close>.
  \<^item> \<open>Log_Calls\<close>, \<open>Log_Calls_Facts\<close>: \<open>Logger::log\<close> with a format, one statement for several loggers,
    containers, directories, the environment, durations, and the configuration file of all loggers.
  \<^item> \<open>Failover\<close>: a primary with a replica fails; the replica takes its place in the routing with the store
    that its started threads have given it, which is empty, and what the servers make of the announcement.
  \<^item> this theory: the properties that span the programs: a server joins, a whole request from the
    client over the coordinator to a server and back, a scale-in until the entries have arrived,
    and a replica and a primary that find each other.

  How the code is modelled.  A socket is an event: what is received is an argument, what is sent is
  part of the result.  What \<open>send\<close> is given is kept where it is not just the text: the reply of a server
  is a \<open>frame\<close> of \<open>BUF_SIZE\<close> bytes, each of them known or, in the first reply, indeterminate (the buffer
  \<open>send_buff_client\<close> is copied into without the NUL of the reply and cleared afterwards; \<open>frame_text\<close> is the
  text that a receiver reads, if it is determined); the client sends and writes \<open>BUF_SIZE\<close> bytes from
  shorter strings, and \<open>over_read\<close> takes the memory behind the string as an argument (\<open>behind\<close>) and is
  undefined when it is too short (\<open>readable\<close> says it is not).  The other buffers are written by \<open>strcpy\<close>,
  which ends the text with a NUL; of them the text up to the first NUL is the message.
  Descriptors are numbers; those of the coordinator are not reused in \<open>master_history\<close>.  A thread's loop
  is one step of a relation; the steps are atomic, so that data races inside a method are not covered
  (but for \<open>get\<close>, see \<open>Lru_Threads\<close>).  The
  iteration order of an unordered map is an argument (\<open>order\<close>), so the results hold for any.
  Time is an argument.  No definition needs fuel: loops are structural recursions or have a
  measure, and loops that run for ever are step relations; the one loop that may not end,
  \<open>replace_loop\<close>, is a partial function, and its not returning the outcome \<open>Diverges\<close>.

  The properties show, in this order: the contracts that span the programs, the
  refinements and invariants of each component, its functional behaviour, and the places where
  the code has no defined or no sensible behaviour: a reply that overflows its buffer, commands
  that end in undefined behaviour, replication that loses requests and lists, failures that stop
  the coordinator or re-route keys of live servers, and timers that start by themselves.

  The end-to-end properties and \<open>cluster_reach\<close> compose the handlers over messages that arrive
  whole and in order, as late as they like; \<open>Frames\<close> says when they do.  The servers of \<open>cluster_reach\<close>
  are primaries, their addresses differ, and while one of them leaves no other joins and the
  failure detector pauses: \<open>detector_races\<close> shows that the code goes wrong otherwise.
  When a client connects, the coordinator builds a text from a pointer that is out of bounds
  (\<open>accept_client\<close>); nothing reads the text, and the handlers of the client's messages are modelled
  without it.  \<open>GetServer\<close> prints through the end iterator for the keys that wrap around the ring
  (\<open>GetServer_prints_end\<close>); what it prints is not used, and the properties of the routing take the read
  as harmless.  Statements on routing by two rings assume that no two servers share a position
  (\<open>shards_apart\<close>): with 100 virtual nodes that fails from the 1598th server on.

  Not modelled: printing, the calls of \<open>LOG\<close> within the handlers of the client (what such a call
  does is in \<open>Log_Writer\<close>), \<open>epoll\<close> and the order in which it reports events,
  partial sends, the mutexes (each step is atomic), what is left of the vendored logging
  library (most of it switched off by the preprocessor), the methods \<open>all\<close> and \<open>del\<close> of the server's LRU list (they do not compile when they are
  instantiated), and the test programs.
\<close>


section \<open>Replies, from both ends\<close>

lemma req_key_read: "CHR ''#'' \<notin> set m \<Longrightarrow> req_key m = m"
  by (auto simp: req_key_def takeWhile_eq_all_conv)

lemma req_key_field: "CHR ''#'' \<notin> set (req_key m)"
  by (auto simp: req_key_def dest: set_takeWhileD)

lemma reply_fields:
  assumes "CHR ''#'' \<notin> set k" "CHR ''#'' \<notin> set addr" "CHR ''#'' \<notin> set st"
  shows "addr \<noteq> '''' \<Longrightarrow> client_split CHR ''#'' (st @ ''#'' @ k @ ''#'' @ addr) = [st, k, addr]"
    and "client_split CHR ''#'' (st @ ''#'' @ k @ ''#'' @ addr @ ''#'' @ v) = [st, k, addr] @ client_split CHR ''#'' v"
  using assms by (simp_all add: client_split_field)

section \<open>Properties\<close>

text \<open>
  C2. A primary joins the system: the coordinator answers the first heartbeat of a new server
  with messages from which that server builds exactly the coordinator's list of primaries, in
  the same order and itself not twice, and takes the role of a primary without replica.
\<close>

theorem join_end_to_end:
  assumes "master_reach u m" "caches_list m fd = Some (fdmap_new fd)" "rcache m = []"
    "field_ok CHR ''#'' ip" "field_ok CHR ''#'' cp" "field_ok CHR ''#'' pp"
    "m1 = m\<lparr>caches_list := (caches_list m)(fd \<mapsto> new_primary fd ip cp pp), fd_node := fd_node m @ [fd],
        pcache := fd # pcache m\<rparr>"
    "length (join CHR ''#'' (map (cache_addr m1) (fd_node m1))) < BUF_SIZE" "length ip + length pp + 3 < BUF_SIZE"
  shows "\<exists>posts m' c'. start_cache fd (heart_message (Cache_new 10 ''P'' ip cp pp)) now m = Inr (posts, m') \<and>
    fd_node m' = fd_node m @ [fd] \<and>
    receive_messages (map snd (filter (\<lambda>p. fst p = fd) posts)) (Cache_new 10 ''P'' ip cp pp) = Inr c' \<and>
    map (\<lambda>(a, p). a @ ''#'' @ p) (cache_list c') = map (cache_addr m1) (fd_node m') \<and>
    status c' = ''P'' \<and> target_port c' = ''None''"
proof -
  have ok: "master_ok u m" using reach_ok [OF assms(1)] .
  let ?lst = "join CHR ''#'' (map (cache_addr m1) (fd_node m1))" and ?N = "''N#'' @ ip @ ''#'' @ pp"
  have heart: "heart_message (Cache_new 10 ''P'' ip cp pp) = ''x#'' @ ip @ ''#'' @ cp @ ''#'' @ pp @ ''#P''"
    by (simp add: heart_message_def Cache_new_def)
  obtain m' where m': "start_cache fd (''x#'' @ ip @ ''#'' @ cp @ ''#'' @ pp @ ''#P'') now m =
      Inr ((fd, ?lst) # map (\<lambda>f. (f, ?N)) (fd_node m1) @ [(fd, ''P#None'')], m')" "fd_node m' = fd_node m1"
    using join_alone [OF ok assms(2-)] by blast
  have n: "fd_node m1 = fd_node m @ [fd]" using assms(7) by simp
  have "fd \<notin> set (fd_node m)" using ok assms(2) tables_in_stack(3) [of u m fd] by (auto simp: master_ok_def)
  then have "filter (\<lambda>f. f = fd) (fd_node m1) = [fd]" using n by (auto simp: filter_empty_conv)
  then have sel: "map snd (filter (\<lambda>p. fst p = fd) ((fd, ?lst) # map (\<lambda>f. (f, ?N)) (fd_node m1) @ [(fd, ''P#None'')])) =
      [?lst, ?N, ''P#None'']" by (simp add: filter_map comp_def)
  let ?as = "map (addr_pair \<circ> cache_addr m1) (fd_node m1)"
  have pair: "\<exists>a p. cache_addr m1 f = a @ ''#'' @ p \<and> CHR ''#'' \<notin> set a \<and> CHR ''#'' \<notin> set p" if "f \<in> set (fd_node m1)" for f
  proof (cases "f = fd")
    case True
    with assms(4,6,7) show ?thesis by (auto simp: cache_addr_def new_primary_def field_ok_def)
  next
    case False
    with that n have f: "f \<in> set (fd_node m)" by simp
    have "cache_addr m1 f = cache_addr m f" using False assms(7) by (simp add: cache_addr_def)
    with primary_addr [OF ok f] show ?thesis by metis
  qed
  have addrs: "map (\<lambda>(a, p). a @ ''#'' @ p) ?as = map (cache_addr m1) (fd_node m1)"
    using pair by (fastforce simp: addr_pair_join)
  have "\<forall>(a, p) \<in> set ?as. CHR ''#'' \<notin> set a \<and> CHR ''#'' \<notin> set p" using pair by (fastforce simp: addr_pair_join)
  moreover have "?as \<noteq> []" "CHR ''#'' \<notin> set ip" using n assms(4) by (simp_all add: field_ok_def)
  ultimately have "\<exists>c'. receive_messages [?lst, ?N, ''P#None''] (Cache_new 10 ''P'' ip cp pp) = Inr c' \<and>
      cache_list c' = ?as \<and> status c' = ''P'' \<and> pr_status c' = ''P'' \<and> target_port c' = ''None''"
    using join_messages_received [of ?as ip pp 10 cp] unfolding addrs by blast
  then obtain c' where c': "receive_messages [?lst, ?N, ''P#None''] (Cache_new 10 ''P'' ip cp pp) = Inr c'"
    "cache_list c' = ?as" "status c' = ''P''" "target_port c' = ''None''"
    by blast
  show ?thesis using m' n c' addrs sel heart by metis
qed

theorem join_end_to_end_witness:
  "\<exists>posts m' c'. start_cache 6 (heart_message (Cache_new 10 ''P'' ''b'' ''3'' ''4'')) 100 (accept_cache 6 demo_master) =
       Inr (posts, m') \<and>
     receive_messages (map snd (filter (\<lambda>p. fst p = 6) posts)) (Cache_new 10 ''P'' ''b'' ''3'' ''4'') = Inr c' \<and>
     status c' = ''P''"
proof -
  have r: "master_reach (insert 6 {5}) (accept_cache 6 demo_master)" by (rule connect [OF demo_reach]) simp_all
  show ?thesis
    using join_end_to_end [OF r _ _ _ _ _ refl, of 6 "''b''" "''3''" "''4''" 100]
    by (simp add: accept_cache_def demo_master_def demo_entry_def field_ok_def cache_addr_def new_primary_def BUF_SIZE_def) blast
qed

text \<open>
  Scaling in sends a key where the clients will look for it: both rings are the same.
\<close>

theorem handover_agrees_with_routing:
  assumes "hash_ok m" "ring_exact (cacheAddrHash m)" "ring_exact (local_ring c)"
    "map (\<lambda>(a, p). a @ ''#'' @ p) (cache_list c) = map (cache_addr m) (fd_node m)"
    "server_index (cacheAddrHash m) key = Inr i"
  shows "i < length (fd_node m) \<and> fst (peer_of c key) @ ''#'' @ snd (peer_of c key) = cache_addr m (fd_node m ! i)"
  using peer_named [OF assms] by blast

theorem handover_agrees_with_routing_witness:
  "fst (peer_of (Cache_new 10 ''P'' ''b'' ''3'' ''4''\<lparr>cache_list := [(''a'', ''2'')]\<rparr>) ''k'') = ''a''"
proof -
  let ?c = "Cache_new 10 ''P'' ''b'' ''3'' ''4''\<lparr>cache_list := [(''a'', ''2'')]\<rparr>"
  have l: "local_ring ?c = addNode 0 (empty_ring 100)"
    using add_nodes_initialize [of "Suc 0" 100] by (simp add: local_ring_def)
  have h: "cacheAddrHash demo_master = addNode 0 (empty_ring 100)"
    by (simp add: demo_master_def Master_Start_def empty_ring_def)
  have ok: "hash_ok demo_master" using reach_ok [OF demo_reach] by (simp add: master_ok_def)
  obtain i where i: "server_index (local_ring ?c) ''k'' = Inr i" "i < length (cache_list ?c)"
    by (rule local_ring_index [of ?c "''k''"]) simp_all
  have "map (\<lambda>(a, p). a @ ''#'' @ p) (cache_list ?c) = map (cache_addr demo_master) (fd_node demo_master)"
    by (simp add: demo_master_def demo_entry_def cache_addr_def)
  from handover_agrees_with_routing [OF ok _ _ this, of "''k''" i] i h l ring_exact_single [of 100]
  have "fst (peer_of ?c ''k'') @ ''#'' @ snd (peer_of ?c ''k'') = ''a#2''"
    by (simp add: demo_master_def demo_entry_def cache_addr_def)
  moreover have "peer_of ?c ''k'' \<in> set (cache_list ?c)" by (rule peer_of_in_list) simp
  ultimately show ?thesis by simp
qed

text \<open>
  Scaling in, from both ends: each entry of a leaving server reaches the very server where
  the coordinator will send the clients for its key.  When the list of the leaving server is
  the coordinator's list of remaining primaries and that server has room for the entries, it
  holds the value of the key after it has received the messages addressed to it.
\<close>

theorem scale_in_end_to_end:
  assumes leaving: "status c = ''K''" "cache_list c \<noteq> []" "addrs_ok c" "lru_repr (MainCache c) es" "distinct order" "set order = fst ` set es"
      "\<forall>(k, v) \<in> set es. CHR ''#'' \<notin> set k \<and> length k + length v + 1 < BUF_SIZE"
      "\<forall>peer \<in> set (cache_list c). can_connect net peer"
    and master: "hash_ok m" "ring_exact (cacheAddrHash m)" "ring_exact (local_ring c)"
      "map (\<lambda>(a, p). a @ ''#'' @ p) (cache_list c) = map (cache_addr m) (fd_node m)"
      "server_index (cacheAddrHash m) key = Inr i"
    and peer: "lru_repr (MainCache p) fs" "status p \<noteq> ''K''" "can_listen sys p" "int (length fs + length es) \<le> lcapacity (MainCache p)"
    and entry: "map_of es key = Some v"
  shows "\<exists>ms c' p' gs. cache_pass net order received c = Inr (Pass_exit ms, c') \<and>
    accept_all sys (sent_to (cache_addr m (fd_node m ! i)) ms) p = Inr p' \<and>
    lru_repr (MainCache p') gs \<and> map_of gs key = Some v"
proof -
  let ?addr = "cache_addr m (fd_node m ! i)"
  let ?ms = "map (\<lambda>k. (fst (peer_of c k), snd (peer_of c k), k @ ''#'' @ the (map_of es k))) order"
  let ?ks = "filter (\<lambda>k. fst (peer_of c k) @ ''#'' @ snd (peer_of c k) = ?addr) order"
  have "\<forall>(k, v) \<in> set es. length k + length v + 1 < BUF_SIZE" using leaving(7) by auto
  from scale_in_spec [OF leaving(1-4,6) this leaving(8), of received] obtain c' where
    c': "cache_pass net order received c = Inr (Pass_exit ?ms, c')" by blast
  have "length order = length es"
    using distinct_card [OF leaving(5)] distinct_card [OF lru_repr_distinct [OF leaving(4)]] leaving(6) by simp
  then have "length ?ks \<le> length es" by (metis length_filter_le)
  then have room: "int (length fs + length ?ks) \<le> lcapacity (MainCache p)" using peer(4) by linarith
  have clean: "\<forall>k \<in> set ?ks. CHR ''#'' \<notin> set k" using leaving(6,7) by auto
  have "(key, v) \<in> set es" using entry by (rule map_of_SomeD)
  then have "key \<in> set order" using leaving(6) by force
  then have key: "key \<in> set ?ks" using peer_named(2) [OF master] by simp
  have s: "sent_to ?addr ?ms = map (\<lambda>k. k @ ''#'' @ the (map_of es k)) ?ks" by (rule sent_to_map)
  from accept_all_values [OF peer(1,2) room clean peer(3), of "\<lambda>k. the (map_of es k)"] obtain p' gs where
    "accept_all sys (sent_to ?addr ?ms) p = Inr p'" "lru_repr (MainCache p') gs" "map_of gs key = Some v"
    using key entry unfolding s by auto
  with c' show ?thesis by blast
qed

theorem scale_in_end_to_end_witness:
  "\<exists>ms c' p' gs. cache_pass (\<lambda>_ _. demo_sys)
     [''k''] None (Cache_new 10 ''P'' ''b'' ''3'' ''4''
     \<lparr>MainCache := snd (the (put ''k'' ''v'' LRU_Cache_default)), status := ''K'', cache_list := [(''a'', ''2'')]\<rparr>) =
     Inr (Pass_exit ms, c') \<and> accept_all demo_sys (sent_to ''a#2'' ms) (Cache_new 10 ''P'' ''a'' ''1'' ''2'') = Inr p' \<and>
     lru_repr (MainCache p') gs \<and> map_of gs ''k'' = Some ''v''"
proof -
  let ?c = "Cache_new 10 ''P'' ''b'' ''3'' ''4''
     \<lparr>MainCache := snd (the (put ''k'' ''v'' LRU_Cache_default)), status := ''K'', cache_list := [(''a'', ''2'')]\<rparr>"
  let ?net = "\<lambda>_ _. demo_sys"
  have "lru_repr LRU_Cache_default []" "lcapacity LRU_Cache_default = 10"
    using lru_repr_Cache_new [of 10 "''P''" "''a''" "''1''" "''2''"] by (simp_all add: Cache_new_def)
  from put_spec [OF this(1), of "''k''" "''v''"] this(2)
  have r: "lru_repr (MainCache ?c) [(''k'', ''v'')]" by (auto simp: lru_put_def Cache_new_def)
  have c: "status ?c = ''K''" "cache_list ?c \<noteq> []" "addrs_ok ?c" "distinct [''k'']" "set [''k''] = fst ` set [(''k'', ''v'')]"
    "\<forall>(k, v) \<in> set [(''k'', ''v'')]. CHR ''#'' \<notin> set k \<and> length k + length v + 1 < BUF_SIZE"
    by (simp_all add: Cache_new_def addrs_ok_def BUF_SIZE_def)
  have "stoi ''2'' = Inr 2" by (simp add: stoi_def is_space_def is_digit_def digits_value_def)
  then have up: "\<forall>peer \<in> set (cache_list ?c). can_connect ?net peer"
    by (simp add: demo_sys_def can_connect_def client_socket_def check_call_def host_port_def BUF_SIZE_def)
  have l: "local_ring ?c = addNode 0 (empty_ring 100)" "cacheAddrHash demo_master = addNode 0 (empty_ring 100)"
    using add_nodes_initialize [of "Suc 0" 100]
    by (simp_all add: local_ring_def demo_master_def Master_Start_def empty_ring_def)
  have ok: "hash_ok demo_master" using reach_ok [OF demo_reach] by (simp add: master_ok_def)
  have ex: "ring_exact (cacheAddrHash demo_master)" "ring_exact (local_ring ?c)" using ring_exact_single [of 100] l by simp_all
  obtain i where "server_index (local_ring ?c) ''k'' = Inr i" "i < length (cache_list ?c)"
    by (rule local_ring_index [of ?c "''k''"]) simp_all
  with l have i: "server_index (cacheAddrHash demo_master) ''k'' = Inr 0" by simp
  have a: "map (\<lambda>(a, p). a @ ''#'' @ p) (cache_list ?c) = map (cache_addr demo_master) (fd_node demo_master)"
    "cache_addr demo_master (fd_node demo_master ! 0) = ''a#2''"
    by (simp_all add: demo_master_def demo_entry_def cache_addr_def)
  have p: "status (Cache_new 10 ''P'' ''a'' ''1'' ''2'') \<noteq> ''K''" "map_of [(''k'', ''v'')] ''k'' = Some ''v''"
    "int (length [] + length [(''k'', ''v'')]) \<le> lcapacity (MainCache (Cache_new 10 ''P'' ''a'' ''1'' ''2''))"
    using lru_repr_Cache_new(2) [of 10 "''P''" "''a''" "''1''" "''2''"] by (simp_all add: Cache_new_def)
  show ?thesis
    using scale_in_end_to_end [OF c(1,2,3) r c(4,5,6) up ok ex a(1) i lru_repr_Cache_new(1) p(1) demo_listen p(3,2), of None]
    unfolding a(2) .
qed

text \<open>
  C18. A replica joins while a primary waits: after its first heartbeat and the next heartbeat of
  the primary, each of the two processes holds the address of the other, as the port for caches it was
  started with.  (No thread that \<open>Start\<close> starts uses these addresses.)
\<close>

theorem replica_pairing_end_to_end:
  assumes m: "master_reach u m" "caches_list m fd = Some (fdmap_new fd)" "pcache m = p # ps"
      "caches_list m p = Some (new_primary p ip cp pp)"
    and c: "heart_message c = ''x#'' @ ip @ ''#'' @ cp @ ''#'' @ pp @ ''#P''" "initial_flag c" "status c \<noteq> ''K''"
    and f: "field_ok CHR ''#'' ip" "field_ok CHR ''#'' cp" "field_ok CHR ''#'' pp"
      "field_ok CHR ''#'' ip'" "field_ok CHR ''#'' cp'" "field_ok CHR ''#'' pp'"
    and b: "length ip + length pp + 3 < BUF_SIZE" "length ip' + length pp' + 3 < BUF_SIZE"
  shows "\<exists>m1 m2 msg msg' r' c' h h'.
    start_cache fd (heart_message (Cache_new 10 ''R'' ip' cp' pp')) now m = Inr ([(fd, msg)], m1) \<and>
    start_cache p (heart_message c) now' m1 = Inr ([(p, msg')], m2) \<and>
    Heartbeat (Received msg) [] (Cache_new 10 ''R'' ip' cp' pp') = Inr (h, r') \<and>
    Heartbeat (Received msg') [] c = Inr (h', c') \<and>
    (status r', target_IP r', target_port r') = (''R'', ip, pp) \<and> (status c', target_IP c', target_port c') = (''P'', ip', pp')"
proof -
  let ?r = "Cache_new 10 ''R'' ip' cp' pp'" and ?e = "new_primary p ip cp pp"
  let ?m1 = "heard ip' cp' now (m\<lparr>caches_list := (caches_list m)
      (fd \<mapsto> new_replica fd p ip' cp' pp', p \<mapsto> ?e\<lparr>fd_pair := fd\<rparr>), pcache := ps\<rparr>)"
  have idx: "0 < fd" "0 < p" using entries_of [OF reach_ok [OF m(1)]] m(2,4) by (auto simp: entries_ok_def)
  have ne: "p \<noteq> fd"
  proof
    assume "p = fd"
    with m(2,4) have "fd_ip_port (fdmap_new fd) = ip @ ''#'' @ cp" by (simp add: new_primary_def)
    then show False by (simp add: fdmap_new_def append_eq_Cons_conv Cons_eq_append_conv)
  qed
  have 1: "start_cache fd (heart_message ?r) now m = Inr ([(fd, command_text (As_replica (Some (ip, pp))))], ?m1)"
    using join_paired [OF m(2,3) ne _ m(4) _ f(4-6), of now] idx b(1)
    by (simp add: heart_message_def Cache_new_def new_primary_def)
  have "caches_list ?m1 p = Some (?e\<lparr>fd_pair := fd\<rparr>)" "caches_list ?m1 fd = Some (new_replica fd p ip' cp' pp')"
    using ne by (simp_all add: heard_def)
  from heartbeat_again [OF this(1) _ _ _ this(2), of ip cp pp "''P''" now']
  have 2: "start_cache p (heart_message c) now' ?m1 = Inr ([(p, command_text (As_primary (Some (ip', pp'))))], heard ip cp now' ?m1)"
    using f idx b(2) c(1) by (simp add: new_primary_def new_replica_def field_ok_def append_eq_Cons_conv)
  obtain h where 3: "Heartbeat (Received (command_text (As_replica (Some (ip, pp))))) [] ?r =
      Inr (h, command_effect (As_replica (Some (ip, pp))) ?r)"
    using heartbeat_command_step [of ?r "As_replica (Some (ip, pp))" "[]"] f(1) by (auto simp: Cache_new_def field_ok_def)
  obtain h' where 4: "Heartbeat (Received (command_text (As_primary (Some (ip', pp'))))) [] c =
      Inr (h', command_effect (As_primary (Some (ip', pp'))) c)"
    using heartbeat_command_step [of c "As_primary (Some (ip', pp'))" "[]"] c f(4) by (auto simp: field_ok_def)
  from 1 2 3 4 show ?thesis
    by (intro exI conjI) (assumption | simp)+
qed

theorem replica_pairing_end_to_end_witness:
  "\<exists>m1 m2 msg msg' r' c' h h'.
    start_cache 7 ''x#c#5#6#R'' 200 (accept_cache 7 demo_master) = Inr ([(7, msg)], m1) \<and>
    start_cache 5 ''x#a#1#2#P'' 200 m1 = Inr ([(5, msg')], m2) \<and>
    Heartbeat (Received msg) [] (Cache_new 10 ''R'' ''c'' ''5'' ''6'') = Inr (h, r') \<and>
    Heartbeat (Received msg') [] (Cache_new 10 ''P'' ''a'' ''1'' ''2''\<lparr>initial_flag := True\<rparr>) = Inr (h', c') \<and>
    (target_IP r', target_port r') = (''a'', ''2'') \<and> (target_IP c', target_port c') = (''c'', ''6'')"
proof -
  let ?c = "Cache_new 10 ''P'' ''a'' ''1'' ''2''\<lparr>initial_flag := True\<rparr>"
  have r: "master_reach (insert 7 {5}) (accept_cache 7 demo_master)" by (rule connect [OF demo_reach]) simp_all
  have m: "caches_list (accept_cache 7 demo_master) 7 = Some (fdmap_new 7)" "pcache (accept_cache 7 demo_master) = 5 # []"
    "caches_list (accept_cache 7 demo_master) 5 = Some (new_primary 5 ''a'' ''1'' ''2'')"
    by (simp_all add: accept_cache_def demo_master_def demo_entry_def new_primary_def)
  have c: "heart_message ?c = ''x#'' @ ''a'' @ ''#'' @ ''1'' @ ''#'' @ ''2'' @ ''#P''" "initial_flag ?c" "status ?c \<noteq> ''K''"
    by (simp_all add: heart_message_def Cache_new_def)
  have f: "field_ok CHR ''#'' ''a''" "field_ok CHR ''#'' ''1''" "field_ok CHR ''#'' ''2''" "field_ok CHR ''#'' ''c''"
    "field_ok CHR ''#'' ''5''" "field_ok CHR ''#'' ''6''" by (simp_all add: field_ok_def)
  have b: "length ''a'' + length ''2'' + 3 < BUF_SIZE" "length ''c'' + length ''6'' + 3 < BUF_SIZE"
    by (simp_all add: BUF_SIZE_def)
  have h: "heart_message ?c = ''x#a#1#2#P''" "heart_message (Cache_new 10 ''R'' ''c'' ''5'' ''6'') = ''x#c#5#6#R''"
    by (simp_all add: heart_message_def Cache_new_def)
  show ?thesis
    using replica_pairing_end_to_end [OF r m c f b, of 200 200] unfolding h prod.inject by blast
qed

text \<open>
  A reply settles its request: when a server answers a request as the protocol prescribes,
  the client takes the key off the list of that server, stops the time-out, and forgets the
  cached location of the key when, and only when, the key was not found.
\<close>

theorem reply_settles_request:
  assumes "client_reach c" "request_map c addr = Some keys" "addr \<noteq> ''''" "CHR ''#'' \<notin> set addr"
  shows "\<exists>c' r. dealwith_cache_server (spec_reply addr es m) c = Inr c' \<and>
    request_map c' = (request_map c)(addr \<mapsto> remove1 (req_key m) keys) \<and> req_key m \<notin> set (remove1 (req_key m) keys) \<and>
    cache_server_timers c' addr = Some r \<and> \<not> running (rs_timer r) \<and>
    local_lru c' = (if CHR ''#'' \<notin> set m \<and> map_of es m = None then cl_erase m (local_lru c) else local_lru c)"
proof -
  have inv: "client_inv c" using reach_inv [OF assms(1)] .
  then obtain r where r: "cache_server_timers c addr = Some r" using assms(2) unfolding client_inv_def by blast
  have d: "req_key m \<notin> set (remove1 (req_key m) keys)" using inv assms(2) by (simp add: client_inv_def)
  consider (wr) "CHR ''#'' \<in> set m" | (hit) v where "CHR ''#'' \<notin> set m" "map_of es m = Some v"
    | (miss) "CHR ''#'' \<notin> set m" "map_of es m = None" by fastforce
  then show ?thesis
  proof cases
    case wr
    have "client_split CHR ''#'' (spec_reply addr es m) = [''SUCCESS'', req_key m, addr]"
      using wr assms(3,4) req_key_field [of m] reply_fields(1) [of "req_key m" addr "''SUCCESS''"] by (simp add: spec_reply_def)
    with wr r d assms(2) show ?thesis
      by (simp add: dealwith_cache_server_def vec_at_def stop_timer_def erase_item_from_request_map_def timer_stop_def)
  next
    case hit
    then have k: "req_key m = m" by (simp add: req_key_read)
    obtain fs where "client_split CHR ''#'' (spec_reply addr es m) = [''SUCCESS'', m, addr] @ fs"
      using hit assms(4) reply_fields(2) [of m addr "''SUCCESS''" v] by (simp add: spec_reply_def)
    with hit k r d assms(2) show ?thesis
      by (simp add: dealwith_cache_server_def vec_at_def stop_timer_def erase_item_from_request_map_def timer_stop_def)
  next
    case miss
    then have k: "req_key m = m" by (simp add: req_key_read)
    have "client_split CHR ''#'' (spec_reply addr es m) = [''FAILED'', m, addr]"
      using miss assms(3,4) reply_fields(1) [of m addr "''FAILED''"] by (simp add: spec_reply_def)
    with miss k r d assms(2) show ?thesis
      by (simp add: dealwith_cache_server_def vec_at_def stop_timer_def erase_item_from_request_map_def timer_stop_def Let_def)
  qed
qed

theorem reply_settles_request_witness:
  "\<exists>out c c'. client_handle (\<lambda>_. []) (From_master ''MASTER#k#a:1'' True []) (Client_new 3 CHR ''r'') = Inr (out, c) \<and>
     request_map c ''a:1'' = Some [''k''] \<and>
     dealwith_cache_server ''FAILED#k#a:1'' c = Inr c' \<and> request_map c' ''a:1'' = Some []"
proof -
  have f: "client_split CHR ''#'' ''MASTER#k#a:1'' = [''MASTER'', ''k'', ''a:1'']"
    "client_split CHR '':'' ''a:1'' = [''a'', ''1'']" by (simp_all add: client_split.simps)
  obtain out c where c: "client_handle (\<lambda>_. []) (From_master ''MASTER#k#a:1'' True []) (Client_new 3 CHR ''r'') = Inr (out, c)"
    "request_map c ''a:1'' = Some [''k'']"
    by (simp add: dealwith_master_def f Let_def Client_new_def lru_cache_new_def cl_put_def tab_set_def send_by_mode_def
        send_request_to_cache_server_def parse_str_addr_def vec_at_def add_item_to_request_map_def)
  have "client_reach c" using event [OF client_reach.start c(1)] .
  from reply_settles_request [OF this c(2), of "[]" "''k''"] c show ?thesis
    by (auto simp: spec_reply_def req_key_def)
qed






end
